(* ===== verification/Kprelude.thy ===== *)
theory Kprelude
  imports Main "HOL-Library.Word"
begin

text \<open>
  Shared vocabulary of the development.

  \<^item> Machine types: \<open>byte\<close>, \<open>ushort\<close> and \<open>uint\<close> are the C types of the same names
    (\<^verbatim>\<open>types.h\<close>), as fixed-width words.
  \<^item> \<open>outcome\<close>: how a kernel routine ends.  It returns a value (\<open>Ret\<close>), it calls
    \<^verbatim>\<open>panic\<close> (\<open>Panic\<close>, the machine stops), it goes to sleep on a channel (\<open>Sleep\<close>, with the
    state in which the scheduler is entered) or it runs for ever (\<open>Diverges\<close>).
    \<open>and_then\<close> is sequential composition.
  \<^item> Blocks of bytes: \<open>chunk\<close> reads, \<open>put_at\<close> overwrites a range.
\<close>

unbundle bit_operations_syntax

type_synonym byte = "8 word"
type_synonym ushort = "16 word"
type_synonym uint = "32 word"

named_theorems outcome_simps \<open>evaluation of sequential composition\<close>
named_theorems block_simps \<open>reading back overwritten ranges of a block\<close>

section \<open>Outcomes of kernel routines\<close>

datatype chan =
    ChNull | ChBuf nat | ChInode nat | ChProc nat
  | ChPipeRead nat | ChPipeWrite nat | ChTicks | ChInput

datatype ('a, 's) outcome = Ret 'a 's | Panic string | Sleep chan 's | Diverges

fun and_then :: "('a, 's) outcome \<Rightarrow> ('a \<Rightarrow> 's \<Rightarrow> ('b, 's) outcome) \<Rightarrow> ('b, 's) outcome" where
  "and_then (Ret x s) f = f x s"
| "and_then (Panic m) f = Panic m"
| "and_then (Sleep c s) f = Sleep c s"
| "and_then Diverges f = Diverges"

declare and_then.simps [outcome_simps]

lemma and_then_eq_Ret [outcome_simps]:
  "and_then m f = Ret y t \<longleftrightarrow> (\<exists>x s. m = Ret x s \<and> f x s = Ret y t)"
  by (cases m) auto

lemma and_then_eq_Panic [outcome_simps]:
  "and_then m f = Panic e \<longleftrightarrow> m = Panic e \<or> (\<exists>x s. m = Ret x s \<and> f x s = Panic e)"
  by (cases m) auto

lemma and_then_cong [fundef_cong]:
  "m = m' \<Longrightarrow> (\<And>x s. m' = Ret x s \<Longrightarrow> f x s = f' x s) \<Longrightarrow> and_then m f = and_then m' f'"
  by (cases m') auto

lemma and_then_assoc: "and_then (and_then m f) g = and_then m (\<lambda>x s. and_then (f x s) g)"
  by (cases m) auto

lemma and_then_Ret [simp]: "and_then m Ret = m"
  by (cases m) auto

lemma and_then_if: "and_then (if c then a else b) f = (if c then and_then a f else and_then b f)"
  by simp

text \<open>\<open>returns\<close> and its weakest-precondition reading: the routine ends with a value that
  satisfies \<open>Q\<close>.  A routine that panics, sleeps or runs for ever does not.\<close>

definition returns :: "('a, 's) outcome \<Rightarrow> ('a \<Rightarrow> 's \<Rightarrow> bool) \<Rightarrow> bool" where
  "returns m Q \<longleftrightarrow> (\<exists>x s. m = Ret x s \<and> Q x s)"

lemma returns_Ret [simp]: "returns (Ret x s) Q = Q x s"
  by (simp add: returns_def)

lemma returns_Panic [simp]: "\<not> returns (Panic e) Q"
  and returns_Sleep [simp]: "\<not> returns (Sleep c s) Q"
  and returns_Diverges [simp]: "\<not> returns Diverges Q"
  by (simp_all add: returns_def)

lemma returns_and_then [simp]:
  "returns (and_then m f) Q \<longleftrightarrow> returns m (\<lambda>x s. returns (f x s) Q)"
  by (cases m) (simp_all add: returns_def)

lemma returns_if [simp]:
  "returns (if c then a else b) Q \<longleftrightarrow> (if c then returns a Q else returns b Q)"
  by simp

lemma returns_mono: "returns m P \<Longrightarrow> (\<And>x s. P x s \<Longrightarrow> Q x s) \<Longrightarrow> returns m Q"
  by (auto simp: returns_def)

lemma returns_bind:
  "returns m P \<Longrightarrow> (\<And>x t. P x t \<Longrightarrow> returns (f x t) Q) \<Longrightarrow> returns (and_then m f) Q"
  by (auto simp: returns_def)

lemma returns_conj: "returns m P \<Longrightarrow> returns m Q \<Longrightarrow> returns m (\<lambda>x s. P x s \<and> Q x s)"
  by (auto simp: returns_def)

lemma returnsE:
  assumes "returns m Q"
  obtains x s where "m = Ret x s" and "Q x s"
  using assms by (auto simp: returns_def)

text \<open>A \<^verbatim>\<open>for\<close> loop without an early exit, over the values its counter takes.\<close>

fun for_each :: "('b \<Rightarrow> 's \<Rightarrow> (unit, 's) outcome) \<Rightarrow> 'b list \<Rightarrow> 's \<Rightarrow> (unit, 's) outcome" where
  "for_each f [] s = Ret () s"
| "for_each f (x # xs) s = and_then (f x s) (\<lambda>_ s. for_each f xs s)"

lemma for_each_cong [fundef_cong]:
  "xs = ys \<Longrightarrow> s = t \<Longrightarrow> (\<And>x u. x \<in> set ys \<Longrightarrow> f x u = g x u) \<Longrightarrow> for_each f xs s = for_each g ys t"
proof (induction xs arbitrary: ys s t)
  case (Cons x xs)
  then show ?case by (auto intro!: and_then_cong)
qed auto

lemma for_each_inv:
  assumes "I xs s" and "\<And>x ys t. I (x # ys) t \<Longrightarrow> returns (f x t) (\<lambda>_. I ys)"
  shows "returns (for_each f xs s) (\<lambda>_. I [])"
  using assms(1)
proof (induction xs arbitrary: s)
  case (Cons x xs)
  then show ?case using assms(2) [OF Cons.prems] by (auto elim!: returns_mono)
qed simp

section \<open>Ranges of a block of bytes\<close>

definition chunk :: "'a list \<Rightarrow> nat \<Rightarrow> nat \<Rightarrow> 'a list" where
  "chunk xs off n = take n (drop off xs)"

definition put_at :: "'a list \<Rightarrow> nat \<Rightarrow> 'a list \<Rightarrow> 'a list" where
  "put_at xs off ys = take off xs @ ys @ drop (off + length ys) xs"

lemma length_chunk [simp, block_simps]:
  "off + n \<le> length xs \<Longrightarrow> length (chunk xs off n) = n"
  by (simp add: chunk_def)

lemma length_put_at [simp, block_simps]:
  "off + length ys \<le> length xs \<Longrightarrow> length (put_at xs off ys) = length xs"
  by (simp add: put_at_def)

lemma nth_chunk:
  "i < n \<Longrightarrow> off + n \<le> length xs \<Longrightarrow> chunk xs off n ! i = xs ! (off + i)"
  by (simp add: chunk_def)

lemma nth_put_at:
  assumes "off + length ys \<le> length xs" and "i < length xs"
  shows "put_at xs off ys ! i = (if off \<le> i \<and> i < off + length ys then ys ! (i - off) else xs ! i)"
  using assms by (auto simp: put_at_def nth_append min_def)

lemma chunk_put_at_same [simp, block_simps]:
  "off + length ys \<le> length xs \<Longrightarrow> n = length ys \<Longrightarrow> chunk (put_at xs off ys) off n = ys"
  by (simp add: chunk_def put_at_def)

lemma chunk_put_at_other [block_simps]:
  assumes "off + length ys \<le> length xs" and "off' + n \<le> length xs"
    and "off' + n \<le> off \<or> off + length ys \<le> off'"
  shows "chunk (put_at xs off ys) off' n = chunk xs off' n"
proof (rule nth_equalityI)
  show "length (chunk (put_at xs off ys) off' n) = length (chunk xs off' n)"
    using assms by simp
next
  fix i assume "i < length (chunk (put_at xs off ys) off' n)"
  then have "i < n" using assms by simp
  then show "chunk (put_at xs off ys) off' n ! i = chunk xs off' n ! i"
    using assms by (auto simp: nth_chunk nth_put_at)
qed

lemma put_at_chunk_id [simp]:
  "off + n \<le> length xs \<Longrightarrow> put_at xs off (chunk xs off n) = xs"
  by (rule nth_equalityI) (auto simp: nth_put_at nth_chunk)

lemma put_at_put_at_same [simp]:
  assumes "off + length ys \<le> length xs" "length zs = length ys"
  shows "put_at (put_at xs off ys) off zs = put_at xs off zs"
  using assms by (intro nth_equalityI) (auto simp: nth_put_at)

lemma put_at_0_all [simp]: "length ys = length xs \<Longrightarrow> put_at xs 0 ys = ys"
  by (simp add: put_at_def)

section \<open>Little-endian integers\<close>

definition le16 :: "ushort \<Rightarrow> byte list" where
  "le16 x = [ucast x, ucast (drop_bit 8 x)]"

definition of_le16 :: "byte list \<Rightarrow> ushort" where
  "of_le16 bs = ucast (bs ! 0) OR push_bit 8 (ucast (bs ! 1))"

definition le32 :: "uint \<Rightarrow> byte list" where
  "le32 x = [ucast x, ucast (drop_bit 8 x), ucast (drop_bit 16 x), ucast (drop_bit 24 x)]"

definition of_le32 :: "byte list \<Rightarrow> uint" where
  "of_le32 bs = ucast (bs ! 0) OR push_bit 8 (ucast (bs ! 1))
     OR push_bit 16 (ucast (bs ! 2)) OR push_bit 24 (ucast (bs ! 3))"

lemma length_le16 [simp]: "length (le16 x) = 2"
  by (simp add: le16_def)

lemma length_le32 [simp]: "length (le32 x) = 4"
  by (simp add: le32_def)

lemma of_le16_le16 [simp]: "of_le16 (le16 x) = x"
  by (rule bit_word_eqI)
    (auto simp: of_le16_def le16_def bit_simps)

lemma of_le32_le32 [simp]: "of_le32 (le32 x) = x"
proof (rule bit_word_eqI)
  fix n assume "n < LENGTH(32)"
  then consider "n < 8" | "8 \<le> n" "n < 16" | "16 \<le> n" "n < 24" | "24 \<le> n" "n < 32"
    by fastforce
  then show "bit (of_le32 (le32 x)) n \<longleftrightarrow> bit x n"
    by cases (auto simp: of_le32_def le32_def bit_simps)
qed

lemma unat_lt: "unat (w :: uint) < 2 ^ 32"
  using unsigned_less [of w, where 'a = nat] by simp

lemma sint_small: "n < 2 ^ 31 \<Longrightarrow> sint (of_nat n :: uint) = int n"
  by (simp add: signed_of_nat signed_take_bit_int_eq_self)

lemma int_unat_lt: "int (unat (x :: uint)) < 2 ^ 32"
  by (metis unat_lt of_nat_less_iff of_nat_numeral of_nat_power)

lemma sint_of_unat: "unat (w :: uint) < 2 ^ 31 \<Longrightarrow> sint w = int (unat w)"
  using sint_small [of "unat w"] by simp

lemma sint_neg: "2 ^ 31 \<le> unat (x :: uint) \<Longrightarrow> sint x = int (unat x) - 2 ^ 32"
proof -
  assume x: "2 ^ 31 \<le> unat x"
  let ?y = "int (unat x) - 2 ^ 32"
  have "(2 :: int) ^ 31 \<le> int (unat x)" using x by (metis of_nat_le_iff of_nat_numeral of_nat_power)
  then have y: "- (2 ^ 31) \<le> ?y" "?y < 2 ^ 31" using int_unat_lt [of x] by simp_all
  have "take_bit (Suc 31) (int (unat x)) = take_bit (Suc 31) ?y" by (simp add: take_bit_eq_mod)
  then have "signed_take_bit 31 (int (unat x)) = signed_take_bit 31 ?y" by (simp only: signed_take_bit_eq_iff_take_bit_eq)
  then show ?thesis using signed_take_bit_int_eq_self [OF y] by (simp add: sint_uint)
qed

lemma sint_nonneg_unat: "0 \<le> sint (x :: uint) \<Longrightarrow> unat x < 2 ^ 31"
proof (rule ccontr)
  assume x: "0 \<le> sint x" "\<not> unat x < 2 ^ 31"
  then show False using sint_neg [of x] int_unat_lt [of x] by linarith
qed

lemma unat_inc: "unat (x :: uint) + 1 < 2 ^ 32 \<Longrightarrow> unat (x + 1) = unat x + 1"
  by (simp add: unat_word_ariths)

end
