(* ===== verification/Spinlock.thy ===== *)
theory Spinlock
  imports Kprelude
begin

text \<open>
  Spin locks, \<^verbatim>\<open>src/5/xv6/spinlock.c\<close>.

  The first part translates the routines as one CPU executes them: \<open>pushcli\<close> and \<open>popcli\<close> nest the
  disabling of interrupts, \<open>spin_acquire\<close> and \<open>spin_release\<close> take and give back a lock.  A CPU that
  finds the lock taken by another CPU spins; with nothing else running that is \<open>Diverges\<close>.

  The second part is the machine with several CPUs: \<open>lock_step\<close> interleaves the single instructions of
  acquire and release, and the invariant gives mutual exclusion.

  The locale \<open>locking\<close> is what the rest of the kernel relies on: locks as the set of those this CPU
  holds.  It is interpreted for the detailed routines here and for the abstract ones in \<open>Kbase\<close>.
\<close>

section \<open>The routines\<close>

record cpu =
  ncli :: int
  intena :: bool
  eflags_if :: bool

record spinlock =
  locked :: bool
  lk_name :: string
  lk_cpu :: "nat option"

record 'l lsys =
  cpus :: "nat \<Rightarrow> cpu"
  locks :: "'l \<Rightarrow> spinlock"

definition upd_cpu :: "nat \<Rightarrow> (cpu \<Rightarrow> cpu) \<Rightarrow> 'l lsys \<Rightarrow> 'l lsys" where
  "upd_cpu c f s = s\<lparr>cpus := (cpus s)(c := f (cpus s c))\<rparr>"

definition upd_lock :: "'l \<Rightarrow> (spinlock \<Rightarrow> spinlock) \<Rightarrow> 'l lsys \<Rightarrow> 'l lsys" where
  "upd_lock l f s = s\<lparr>locks := (locks s)(l := f (locks s l))\<rparr>"

definition initlock :: "'l \<Rightarrow> string \<Rightarrow> 'l lsys \<Rightarrow> 'l lsys" where
  "initlock l name s = upd_lock l (\<lambda>k. k\<lparr>lk_name := name, locked := False, lk_cpu := None\<rparr>) s"

definition holding :: "nat \<Rightarrow> 'l \<Rightarrow> 'l lsys \<Rightarrow> bool" where
  "holding c l s \<longleftrightarrow> locked (locks s l) \<and> lk_cpu (locks s l) = Some c"

definition pushcli :: "nat \<Rightarrow> 'l lsys \<Rightarrow> 'l lsys" where
  "pushcli c s =
     upd_cpu c (\<lambda>k. k\<lparr>eflags_if := False, ncli := ncli k + 1,
       intena := (if ncli k = 0 then eflags_if k else intena k)\<rparr>) s"

definition popcli :: "nat \<Rightarrow> 'l lsys \<Rightarrow> (unit, 'l lsys) outcome" where
  "popcli c s =
     (if eflags_if (cpus s c) then Panic ''popcli - interruptible''
      else if ncli (cpus s c) - 1 < 0 then Panic ''popcli''
      else Ret () (upd_cpu c (\<lambda>k. k\<lparr>ncli := ncli k - 1,
        eflags_if := (ncli k - 1 = 0 \<and> intena k)\<rparr>) s))"

text \<open>\<open>xchg\<close> stores a value and returns the old one, in one instruction.\<close>

definition xchg_locked :: "'l \<Rightarrow> bool \<Rightarrow> 'l lsys \<Rightarrow> bool \<times> 'l lsys" where
  "xchg_locked l v s = (locked (locks s l), upd_lock l (\<lambda>k. k\<lparr>locked := v\<rparr>) s)"

definition spin_acquire :: "nat \<Rightarrow> 'l \<Rightarrow> 'l lsys \<Rightarrow> (unit, 'l lsys) outcome" where
  "spin_acquire c l s =
     (let s1 = pushcli c s in
      if holding c l s1 then Panic ''acquire''
      else let (old, s2) = xchg_locked l True s1 in
        if old then Diverges
        else Ret () (upd_lock l (\<lambda>k. k\<lparr>lk_cpu := Some c\<rparr>) s2))"

definition spin_release :: "nat \<Rightarrow> 'l \<Rightarrow> 'l lsys \<Rightarrow> (unit, 'l lsys) outcome" where
  "spin_release c l s =
     (if \<not> holding c l s then Panic ''release''
      else let s1 = upd_lock l (\<lambda>k. k\<lparr>lk_cpu := None\<rparr>) s;
               (old, s2) = xchg_locked l False s1 in
        popcli c s2)"

text \<open>The call stack recorded for debugging: \<open>mem\<close> reads a word of memory; the walk follows the saved
  frame pointers and stops at an address that cannot be one.\<close>

fun getcallerpcs_loop :: "(uint \<Rightarrow> uint) \<Rightarrow> uint \<Rightarrow> nat \<Rightarrow> uint list" where
  "getcallerpcs_loop mem ebp 0 = []"
| "getcallerpcs_loop mem ebp (Suc n) =
     (if ebp = 0 \<or> ebp < 0x100000 \<or> ebp = 0xffffffff then replicate (Suc n) 0
      else mem (ebp + 4) # getcallerpcs_loop mem (mem ebp) n)"

definition getcallerpcs :: "(uint \<Rightarrow> uint) \<Rightarrow> uint \<Rightarrow> uint list" where
  "getcallerpcs mem v = getcallerpcs_loop mem (v - 8) 10"

lemma length_getcallerpcs: "length (getcallerpcs mem v) = 10"
proof -
  have "length (getcallerpcs_loop mem ebp n) = n" for ebp n
    by (induction mem ebp n rule: getcallerpcs_loop.induct) auto
  then show ?thesis by (simp add: getcallerpcs_def)
qed

section \<open>The interface\<close>

locale locking =
  fixes acq :: "'l \<Rightarrow> 's \<Rightarrow> (unit, 's) outcome"
    and rel :: "'l \<Rightarrow> 's \<Rightarrow> (unit, 's) outcome"
    and held_of :: "'s \<Rightarrow> 'l set"
    and avail :: "'s \<Rightarrow> 'l \<Rightarrow> bool"
    and linv :: "'s \<Rightarrow> bool"
  assumes acq_again: "linv s \<Longrightarrow> l \<in> held_of s \<Longrightarrow> acq l s = Panic ''acquire''"
    and acq_free: "linv s \<Longrightarrow> l \<notin> held_of s \<Longrightarrow> avail s l \<Longrightarrow>
      returns (acq l s) (\<lambda>_ t. linv t \<and> held_of t = insert l (held_of s))"
    and rel_held: "linv s \<Longrightarrow> l \<in> held_of s \<Longrightarrow>
      returns (rel l s) (\<lambda>_ t. linv t \<and> held_of t = held_of s - {l})"
    and rel_unheld: "linv s \<Longrightarrow> l \<notin> held_of s \<Longrightarrow> rel l s = Panic ''release''"
begin

text \<open>A critical section: if the body keeps the set of held locks, so does the whole.\<close>

lemma critical_section:
  assumes "linv s" "l \<notin> held_of s" "avail s l"
    and body: "\<And>t. linv t \<Longrightarrow> held_of t = insert l (held_of s) \<Longrightarrow>
      returns (body t) (\<lambda>_ u. linv u \<and> held_of u = held_of t)"
  shows "returns (and_then (acq l s) (\<lambda>_ t. and_then (body t) (\<lambda>x u. and_then (rel l u) (\<lambda>_ v. Ret x v))))
    (\<lambda>_ v. linv v \<and> held_of v = held_of s)"
proof -
  from acq_free [OF assms(1-3)] obtain t where t: "acq l s = Ret () t" "linv t"
      "held_of t = insert l (held_of s)"
    by (auto simp: returns_def)
  from body [OF t(2,3)] obtain x u where u: "body t = Ret x u" "linv u" "held_of u = held_of t"
    by (auto simp: returns_def)
  then have "returns (rel l u) (\<lambda>_ v. linv v \<and> held_of v = held_of u - {l})"
    using t by (intro rel_held) auto
  then show ?thesis using t u assms(2) by (auto simp: returns_def)
qed

end

definition held_by :: "nat \<Rightarrow> 'l lsys \<Rightarrow> 'l set" where
  "held_by c s = {l. holding c l s}"

text \<open>On the CPU \<open>c\<close>: every lock it holds is one level of \<open>pushcli\<close>, and while it holds one its
  interrupts are off.\<close>

definition cli_inv :: "nat \<Rightarrow> 'l lsys \<Rightarrow> bool" where
  "cli_inv c s \<longleftrightarrow> finite (held_by c s) \<and> int (card (held_by c s)) \<le> ncli (cpus s c)
     \<and> (0 < ncli (cpus s c) \<longrightarrow> \<not> eflags_if (cpus s c))"

lemma held_by_upd_cpu [simp]: "held_by c (upd_cpu d f s) = held_by c s"
  by (simp add: held_by_def holding_def upd_cpu_def)

lemma cpus_upd_lock [simp]: "cpus (upd_lock l f s) = cpus s"
  by (simp add: upd_lock_def)

lemmas spin_defs = spin_acquire_def spin_release_def xchg_locked_def pushcli_def popcli_def Let_def

lemma spin_acquire_free:
  assumes "cli_inv c s" "l \<notin> held_by c s" "\<not> locked (locks s l)"
  shows "returns (spin_acquire c l s) (\<lambda>_ t. cli_inv c t \<and> held_by c t = insert l (held_by c s))"
proof -
  let ?t = "upd_lock l (\<lambda>k. k\<lparr>lk_cpu := Some c\<rparr>) (upd_lock l (\<lambda>k. k\<lparr>locked := True\<rparr>) (pushcli c s))"
  have run: "spin_acquire c l s = Ret () ?t"
    using assms by (simp add: spin_defs holding_def upd_cpu_def)
  have h: "held_by c ?t = insert l (held_by c s)"
    by (auto simp: held_by_def holding_def upd_lock_def pushcli_def upd_cpu_def)
  have "cli_inv c ?t"
    using assms h by (auto simp: cli_inv_def pushcli_def upd_cpu_def)
  with run h show ?thesis by simp
qed

lemma spin_release_held:
  assumes "cli_inv c s" "l \<in> held_by c s"
  shows "returns (spin_release c l s) (\<lambda>_ t. cli_inv c t \<and> held_by c t = held_by c s - {l})"
proof -
  let ?u = "upd_lock l (\<lambda>k. k\<lparr>locked := False\<rparr>) (upd_lock l (\<lambda>k. k\<lparr>lk_cpu := None\<rparr>) s)"
  have hu: "held_by c ?u = held_by c s - {l}"
    by (auto simp: held_by_def holding_def upd_lock_def split: if_splits)
  have hold: "holding c l s" using assms(2) by (simp add: held_by_def)
  have n: "finite (held_by c s)" "int (card (held_by c s)) \<le> ncli (cpus s c)"
    using assms(1) by (simp_all add: cli_inv_def)
  have "1 \<le> card (held_by c s)"
    using assms(2) n(1) by (metis One_nat_def Suc_leI card_gt_0_iff empty_iff)
  then have pos: "1 \<le> ncli (cpus s c)" using n(2) by linarith
  with assms(1) have off: "\<not> eflags_if (cpus s c)" by (simp add: cli_inv_def)
  have card: "card (held_by c s - {l}) = card (held_by c s) - 1"
    using assms(2) n(1) by simp
  have step: "spin_release c l s = popcli c ?u"
    using hold by (simp add: spin_release_def xchg_locked_def Let_def)
  show ?thesis
    using pos off n card hu \<open>1 \<le> card (held_by c s)\<close>
    by (auto simp: step popcli_def cli_inv_def upd_cpu_def held_by_def holding_def upd_lock_def
        intro: finite_subset split: if_splits)
qed

interpretation spin: locking "spin_acquire c" "spin_release c" "held_by c"
  "\<lambda>s l. \<not> locked (locks s l)" "cli_inv c" for c :: nat
proof unfold_locales
  fix s :: "'a lsys" and l
  show "l \<in> held_by c s \<Longrightarrow> spin_acquire c l s = Panic ''acquire''"
    by (simp add: spin_acquire_def held_by_def holding_def pushcli_def upd_cpu_def Let_def)
  show "l \<notin> held_by c s \<Longrightarrow> spin_release c l s = Panic ''release''"
    by (simp add: spin_release_def held_by_def)
qed (simp_all add: spin_acquire_free spin_release_held)

section \<open>Several CPUs\<close>

text \<open>Where a CPU is with respect to the lock \<open>l\<close>: outside, spinning, after the successful exchange,
  in the critical section, and in the two instructions of release.  Each step below is one
  instruction (or one that touches only the CPU itself), so the interleavings are those of the
  machine.\<close>

datatype lpc = Outside | Trying | Got | Critical | Clearing | Freed

type_synonym 'l msys = "'l lsys \<times> (nat \<Rightarrow> lpc)"

inductive lock_step :: "'l \<Rightarrow> 'l msys \<Rightarrow> 'l msys \<Rightarrow> bool" for l where
  attempt: "pc c = Outside \<Longrightarrow> \<not> holding c l (pushcli c s) \<Longrightarrow>
    lock_step l (s, pc) (pushcli c s, pc(c := Trying))"
| spin: "pc c = Trying \<Longrightarrow> xchg_locked l True s = (True, s') \<Longrightarrow> lock_step l (s, pc) (s', pc)"
| got: "pc c = Trying \<Longrightarrow> xchg_locked l True s = (False, s') \<Longrightarrow>
    lock_step l (s, pc) (s', pc(c := Got))"
| enter: "pc c = Got \<Longrightarrow>
    lock_step l (s, pc) (upd_lock l (\<lambda>k. k\<lparr>lk_cpu := Some c\<rparr>) s, pc(c := Critical))"
| leave: "pc c = Critical \<Longrightarrow> holding c l s \<Longrightarrow>
    lock_step l (s, pc) (upd_lock l (\<lambda>k. k\<lparr>lk_cpu := None\<rparr>) s, pc(c := Clearing))"
| free: "pc c = Clearing \<Longrightarrow> xchg_locked l False s = (old, s') \<Longrightarrow>
    lock_step l (s, pc) (s', pc(c := Freed))"
| pop: "pc c = Freed \<Longrightarrow> popcli c s = Ret () s' \<Longrightarrow> lock_step l (s, pc) (s', pc(c := Outside))"

definition owner_pc :: "lpc \<Rightarrow> bool" where
  "owner_pc p \<longleftrightarrow> p = Got \<or> p = Critical \<or> p = Clearing"

definition boot_lsys :: "'l lsys" where
  "boot_lsys = \<lparr>cpus = \<lambda>_. \<lparr>ncli = 0, intena = False, eflags_if = True\<rparr>,
     locks = \<lambda>_. \<lparr>locked = False, lk_name = [], lk_cpu = None\<rparr>\<rparr>"

inductive lock_reach :: "'l \<Rightarrow> 'l msys \<Rightarrow> bool" for l where
  boot: "lock_reach l (boot_lsys, \<lambda>_. Outside)"
| step: "lock_reach l m \<Longrightarrow> lock_step l m m' \<Longrightarrow> lock_reach l m'"

text \<open>The invariant: the lock word is set exactly when some CPU owns the lock, at most one owns it, the
  recorded holder is the CPU in the critical section, and a CPU that has started to acquire runs
  with interrupts off.\<close>

definition mutex_with :: "nat option \<Rightarrow> 'l \<Rightarrow> 'l msys \<Rightarrow> bool" where
  "mutex_with own l m \<longleftrightarrow> (case m of (s, pc) \<Rightarrow>
     (locked (locks s l) \<longleftrightarrow> own \<noteq> None)
   \<and> (\<forall>c. owner_pc (pc c) \<longleftrightarrow> own = Some c)
   \<and> (\<forall>c. lk_cpu (locks s l) = Some c \<longleftrightarrow> pc c = Critical)
   \<and> (\<forall>c. ncli (cpus s c) = (if pc c = Outside then 0 else 1)
        \<and> (pc c \<noteq> Outside \<longrightarrow> \<not> eflags_if (cpus s c))))"

definition mutex_inv :: "'l \<Rightarrow> 'l msys \<Rightarrow> bool" where
  "mutex_inv l m \<longleftrightarrow> (\<exists>own. mutex_with own l m)"

lemma mutex_inv_boot: "mutex_inv l (boot_lsys, \<lambda>_. Outside)"
  by (auto simp: mutex_inv_def mutex_with_def boot_lsys_def owner_pc_def)

lemma owner_pc_simps [simp]:
  "owner_pc Got" "owner_pc Critical" "owner_pc Clearing"
  "\<not> owner_pc Outside" "\<not> owner_pc Trying" "\<not> owner_pc Freed"
  by (simp_all add: owner_pc_def)

lemma mutex_owner: "mutex_with own l (s, pc) \<Longrightarrow> owner_pc (pc c) \<Longrightarrow> own = Some c"
  by (simp add: mutex_with_def)

lemma mutex_not_owner: "mutex_with own l (s, pc) \<Longrightarrow> \<not> owner_pc (pc c) \<Longrightarrow> own \<noteq> Some c"
  by (auto simp: mutex_with_def)

lemmas step_defs = mutex_with_def pushcli_def popcli_def xchg_locked_def upd_cpu_def
  upd_lock_def holding_def

lemma mutex_with_step:
  assumes "lock_step l m m'" "mutex_with own l m"
  shows "\<exists>own'. mutex_with own' l m'"
  using assms
proof (induction rule: lock_step.induct)
  case (attempt pc c s)
  then have "own \<noteq> Some c" by (auto dest!: mutex_not_owner)
  with attempt have "mutex_with own l (pushcli c s, pc(c := Trying))"
    by (auto simp: step_defs)
  then show ?case ..
next
  case (spin pc c s s')
  then have "mutex_with own l (s', pc)" by (auto simp: step_defs split: if_splits)
  then show ?case ..
next
  case (got pc c s s')
  then have "mutex_with (Some c) l (s', pc(c := Got))"
    by (auto simp: step_defs split: if_splits) (metis lpc.distinct(1))+
  then show ?case ..
next
  case (enter pc c s)
  then have "own = Some c" by (auto intro: mutex_owner)
  with enter have "mutex_with own l (upd_lock l (\<lambda>k. k\<lparr>lk_cpu := Some c\<rparr>) s, pc(c := Critical))"
    by (auto simp: step_defs)
  then show ?case ..
next
  case (leave pc c s)
  then have "own = Some c" by (auto intro: mutex_owner)
  with leave have "mutex_with own l (upd_lock l (\<lambda>k. k\<lparr>lk_cpu := None\<rparr>) s, pc(c := Clearing))"
    by (auto simp: step_defs)
  then show ?case ..
next
  case (free pc c s old s')
  then have "own = Some c" by (auto intro: mutex_owner)
  with free have "mutex_with None l (s', pc(c := Freed))"
    by (auto simp: step_defs)
  then show ?case ..
next
  case (pop pc c s s')
  then have "own \<noteq> Some c" by (auto dest!: mutex_not_owner)
  with pop have "mutex_with own l (s', pc(c := Outside))"
    by (auto simp: step_defs split: if_splits)
  then show ?case ..
qed

lemma mutex_inv_reach: "lock_reach l m \<Longrightarrow> mutex_inv l m"
  by (induction rule: lock_reach.induct)
    (auto intro: mutex_inv_boot [unfolded mutex_inv_def] dest: mutex_with_step simp: mutex_inv_def)

section \<open>Properties\<close>

text \<open>C7: mutual exclusion.  In every interleaving of acquire and release by any number of CPUs, two CPUs
  that own the lock are the same CPU, the owner runs with interrupts off, and the checks of the code
  cannot fail: the \<open>holding\<close> test of release succeeds and that of acquire does not.\<close>

theorem lock_mutual_exclusion:
  assumes "lock_reach l (s, pc)" and "owner_pc (pc c)"
  shows "(owner_pc (pc d) \<longrightarrow> d = c) \<and> \<not> eflags_if (cpus s c)
    \<and> (pc c = Critical \<longrightarrow> holding c l s) \<and> (pc d = Outside \<longrightarrow> \<not> holding d l (pushcli d s))"
proof -
  obtain own where inv: "mutex_with own l (s, pc)"
    using mutex_inv_reach [OF assms(1)] by (auto simp: mutex_inv_def)
  then have own: "own = Some c" using assms(2) by (rule mutex_owner)
  have "pc c \<noteq> Outside" using assms(2) by auto
  moreover have "pc d = Outside \<Longrightarrow> lk_cpu (locks s l) \<noteq> Some d"
    using inv by (auto simp: mutex_with_def)
  ultimately show ?thesis
    using inv own by (auto simp: mutex_with_def holding_def pushcli_def upd_cpu_def)
qed

lemma lock_reach_got:
  "lock_reach (0::nat) (snd (xchg_locked 0 True (pushcli 7 boot_lsys)), (\<lambda>_. Outside)(7 := Got))"
proof -
  have "lock_reach (0::nat) (pushcli 7 boot_lsys, (\<lambda>_. Outside)(7 := Trying))"
    by (rule lock_reach.step [OF lock_reach.boot lock_step.attempt])
      (simp_all add: holding_def pushcli_def boot_lsys_def upd_cpu_def)
  moreover have "xchg_locked 0 True (pushcli 7 boot_lsys)
      = (False, snd (xchg_locked 0 True (pushcli 7 (boot_lsys :: nat lsys))))"
    by (simp add: xchg_locked_def pushcli_def boot_lsys_def upd_cpu_def)
  ultimately show ?thesis
    using lock_reach.step [OF _ lock_step.got, of 0 _ "(\<lambda>_. Outside)(7 := Trying)" 7]
    by fastforce
qed

theorem lock_mutual_exclusion_witness:
  "\<exists>s. lock_reach (0::nat) (s, (\<lambda>_. Outside)(7 := Got)) \<and> \<not> eflags_if (cpus s 7)
     \<and> \<not> holding 3 0 (pushcli 3 s)"
  using lock_mutual_exclusion [OF lock_reach_got, of 7 3] lock_reach_got by (auto simp: owner_pc_def)

end
