(* ===== verification/Layout.thy ===== *)
theory Layout
  imports Kprelude
begin

text \<open>
  The on-disk format of \<^verbatim>\<open>src/5/xv6/fs.h\<close>: the superblock, the inodes and the directory
  entries as the 32-bit compiler lays them out, little-endian and without padding, and the
  macros that say in which block each of them is.

  The locale \<open>codec\<close> is the interface the file system uses: a value that is stored in a block is
  read back, and storing it leaves the other entries of the block alone.  It is interpreted for
  block addresses, inodes, directory entries and superblocks.
\<close>

section \<open>Constants and macros\<close>

definition BSIZE :: nat where "BSIZE = 512"
definition NDIRECT :: nat where "NDIRECT = 12"
definition NINDIRECT :: nat where "NINDIRECT = BSIZE div 4"
definition MAXFILE :: nat where "MAXFILE = NDIRECT + NINDIRECT"
definition DIRSIZ :: nat where "DIRSIZ = 14"
definition IPB :: nat where "IPB = BSIZE div 64"
definition BPB :: nat where "BPB = BSIZE * 8"
definition ROOTINO :: uint where "ROOTINO = 1"
definition ROOTDEV :: uint where "ROOTDEV = 1"

definition IBLOCK :: "uint \<Rightarrow> uint" where
  "IBLOCK i = i div of_nat IPB + 2"

definition BBLOCK :: "uint \<Rightarrow> uint \<Rightarrow> uint" where
  "BBLOCK b ninodes = b div of_nat BPB + ninodes div of_nat IPB + 3"

lemmas layout_consts =
  BSIZE_def NDIRECT_def NINDIRECT_def MAXFILE_def DIRSIZ_def IPB_def BPB_def ROOTINO_def ROOTDEV_def

definition T_DIR :: ushort where "T_DIR = 1"
definition T_FILE :: ushort where "T_FILE = 2"
definition T_DEV :: ushort where "T_DEV = 3"
definition T_EXTENT :: ushort where "T_EXTENT = 4"

lemmas type_consts = T_DIR_def T_FILE_def T_DEV_def T_EXTENT_def

section \<open>Storing values in a block\<close>

locale codec =
  fixes enc :: "'a \<Rightarrow> byte list" and dec :: "byte list \<Rightarrow> 'a" and ok :: "'a \<Rightarrow> bool" and sz :: nat
  assumes length_enc: "ok x \<Longrightarrow> length (enc x) = sz"
    and dec_enc: "ok x \<Longrightarrow> dec (enc x) = x"
begin

lemma get_put_same:
  "ok x \<Longrightarrow> off + sz \<le> length bs \<Longrightarrow> dec (chunk (put_at bs off (enc x)) off sz) = x"
  by (simp add: length_enc dec_enc)

lemma get_put_other:
  "ok x \<Longrightarrow> off + sz \<le> length bs \<Longrightarrow> off' + n \<le> length bs \<Longrightarrow>
    off' + n \<le> off \<or> off + sz \<le> off' \<Longrightarrow>
    chunk (put_at bs off (enc x)) off' n = chunk bs off' n"
  by (simp add: length_enc chunk_put_at_other)

lemma length_put: "ok x \<Longrightarrow> off + sz \<le> length bs \<Longrightarrow> length (put_at bs off (enc x)) = length bs"
  by (simp add: length_enc)

text \<open>The entries of an array of values, entry \<open>i\<close> at offset \<open>i * sz\<close>.\<close>

lemma slots_disjoint: "i \<noteq> j \<Longrightarrow> j * sz + sz \<le> i * sz \<or> i * sz + sz \<le> j * (sz :: nat)"
proof -
  assume "i \<noteq> j"
  then consider "Suc j \<le> i" | "Suc i \<le> j" by linarith
  then show ?thesis
    by cases (metis add.commute mult_Suc mult_le_mono1)+
qed

lemma get_put_index:
  assumes "ok x" and "i * sz + sz \<le> length bs" and "j * sz + sz \<le> length bs"
  shows "dec (chunk (put_at bs (i * sz) (enc x)) (j * sz) sz)
    = (if i = j then x else dec (chunk bs (j * sz) sz))"
  using assms slots_disjoint [of i j] by (auto simp: get_put_same get_put_other)

end

lemma chunk_append_left: "off + n \<le> length xs \<Longrightarrow> chunk (xs @ ys) off n = chunk xs off n"
  by (simp add: chunk_def)

lemma chunk_append_right: "length xs \<le> off \<Longrightarrow> chunk (xs @ ys) off n = chunk ys (off - length xs) n"
  by (simp add: chunk_def)

lemma chunk_all [simp]: "n = length xs \<Longrightarrow> chunk xs 0 n = xs"
  by (simp add: chunk_def)

lemma chunk_prefix [simp]: "n = length xs \<Longrightarrow> chunk (xs @ ys) 0 n = xs"
  by (simp add: chunk_def)

section \<open>Arrays of block addresses\<close>

definition uint_ok :: "uint \<Rightarrow> bool" where "uint_ok x = True"

interpretation addr: codec le32 of_le32 uint_ok 4
  by unfold_locales simp_all

definition get_uint :: "byte list \<Rightarrow> nat \<Rightarrow> uint" where
  "get_uint d i = of_le32 (chunk d (i * 4) 4)"

definition put_uint :: "byte list \<Rightarrow> nat \<Rightarrow> uint \<Rightarrow> byte list" where
  "put_uint d i x = put_at d (i * 4) (le32 x)"

lemma get_put_uint [block_simps]:
  "i * 4 + 4 \<le> length d \<Longrightarrow> j * 4 + 4 \<le> length d \<Longrightarrow>
    get_uint (put_uint d i x) j = (if i = j then x else get_uint d j)"
  unfolding get_uint_def put_uint_def by (rule addr.get_put_index) (simp_all add: uint_ok_def)

lemma length_put_uint [simp, block_simps]: "i * 4 + 4 \<le> length d \<Longrightarrow> length (put_uint d i x) = length d"
  by (simp add: put_uint_def)

definition enc_uints :: "uint list \<Rightarrow> byte list" where
  "enc_uints as = concat (map le32 as)"

definition dec_uints :: "nat \<Rightarrow> byte list \<Rightarrow> uint list" where
  "dec_uints n bs = map (\<lambda>i. of_le32 (chunk bs (i * 4) 4)) [0..<n]"

lemma length_enc_uints [simp]: "length (enc_uints as) = length as * 4"
  by (induction as) (simp_all add: enc_uints_def)

lemma chunk_enc_uints: "i < length as \<Longrightarrow> chunk (enc_uints as) (i * 4) 4 = le32 (as ! i)"
proof (induction as arbitrary: i)
  case (Cons a as)
  then show ?case
    by (cases i) (auto simp: enc_uints_def chunk_append_right)
qed simp

lemma dec_enc_uints [simp]: "length as = n \<Longrightarrow> dec_uints n (enc_uints as) = as"
  by (rule nth_equalityI) (auto simp: dec_uints_def chunk_enc_uints)

lemma length_dec_uints [simp]: "length (dec_uints n bs) = n"
  by (simp add: dec_uints_def)

section \<open>The superblock\<close>

record superblock =
  sb_size :: uint
  sb_nblocks :: uint
  sb_ninodes :: uint

definition enc_sb :: "superblock \<Rightarrow> byte list" where
  "enc_sb sb = enc_uints [sb_size sb, sb_nblocks sb, sb_ninodes sb]"

definition dec_sb :: "byte list \<Rightarrow> superblock" where
  "dec_sb bs = (let w = dec_uints 3 bs in
     \<lparr>sb_size = w ! 0, sb_nblocks = w ! 1, sb_ninodes = w ! 2\<rparr>)"

definition sb_ok :: "superblock \<Rightarrow> bool" where "sb_ok x = True"

interpretation sb: codec enc_sb dec_sb sb_ok 12
  by unfold_locales (simp_all add: enc_sb_def dec_sb_def Let_def)

section \<open>On-disk inodes\<close>

record dinode =
  d_type :: ushort
  d_major :: ushort
  d_minor :: ushort
  d_nlink :: ushort
  d_size :: uint
  d_addrs :: "uint list"

definition enc_dinode :: "dinode \<Rightarrow> byte list" where
  "enc_dinode d = le16 (d_type d) @ le16 (d_major d) @ le16 (d_minor d) @ le16 (d_nlink d)
     @ le32 (d_size d) @ enc_uints (d_addrs d)"

definition dec_dinode :: "byte list \<Rightarrow> dinode" where
  "dec_dinode bs = \<lparr>d_type = of_le16 (chunk bs 0 2), d_major = of_le16 (chunk bs 2 2),
     d_minor = of_le16 (chunk bs 4 2), d_nlink = of_le16 (chunk bs 6 2),
     d_size = of_le32 (chunk bs 8 4), d_addrs = dec_uints (NDIRECT + 1) (chunk bs 12 52)\<rparr>"

definition dinode_ok :: "dinode \<Rightarrow> bool" where
  "dinode_ok d \<longleftrightarrow> length (d_addrs d) = NDIRECT + 1"

definition zero_dinode :: dinode where
  "zero_dinode = \<lparr>d_type = 0, d_major = 0, d_minor = 0, d_nlink = 0, d_size = 0,
     d_addrs = replicate (NDIRECT + 1) 0\<rparr>"

interpretation di: codec enc_dinode dec_dinode dinode_ok 64
  by unfold_locales
    (simp_all add: enc_dinode_def dec_dinode_def dinode_ok_def NDIRECT_def
      chunk_append_right chunk_append_left)

definition get_dinode :: "byte list \<Rightarrow> nat \<Rightarrow> dinode" where
  "get_dinode d i = dec_dinode (chunk d (i * 64) 64)"

definition put_dinode :: "byte list \<Rightarrow> nat \<Rightarrow> dinode \<Rightarrow> byte list" where
  "put_dinode d i x = put_at d (i * 64) (enc_dinode x)"

lemma get_put_dinode [block_simps]:
  "dinode_ok x \<Longrightarrow> i * 64 + 64 \<le> length d \<Longrightarrow> j * 64 + 64 \<le> length d \<Longrightarrow>
    get_dinode (put_dinode d i x) j = (if i = j then x else get_dinode d j)"
  unfolding get_dinode_def put_dinode_def by (rule di.get_put_index)

lemma length_put_dinode [block_simps]:
  "dinode_ok x \<Longrightarrow> i * 64 + 64 \<le> length d \<Longrightarrow> length (put_dinode d i x) = length d"
  unfolding put_dinode_def by (rule di.length_put)

lemma dinode_ok_get [simp]: "dinode_ok (get_dinode d i)"
  by (simp add: dinode_ok_def get_dinode_def dec_dinode_def)

lemma dinode_ok_zero [simp]: "dinode_ok zero_dinode" "dinode_ok (zero_dinode\<lparr>d_type := t\<rparr>)"
  by (simp_all add: dinode_ok_def zero_dinode_def)

section \<open>Directory entries\<close>

record dirent =
  de_inum :: ushort
  de_name :: "byte list"

definition enc_dirent :: "dirent \<Rightarrow> byte list" where
  "enc_dirent de = le16 (de_inum de) @ de_name de"

definition dec_dirent :: "byte list \<Rightarrow> dirent" where
  "dec_dirent bs = \<lparr>de_inum = of_le16 (chunk bs 0 2), de_name = chunk bs 2 DIRSIZ\<rparr>"

definition dirent_ok :: "dirent \<Rightarrow> bool" where
  "dirent_ok de \<longleftrightarrow> length (de_name de) = DIRSIZ"

interpretation de: codec enc_dirent dec_dirent dirent_ok 16
  by unfold_locales
    (simp_all add: enc_dirent_def dec_dirent_def dirent_ok_def DIRSIZ_def chunk_append_right)

definition get_dirent :: "byte list \<Rightarrow> nat \<Rightarrow> dirent" where
  "get_dirent d i = dec_dirent (chunk d (i * 16) 16)"

definition put_dirent :: "byte list \<Rightarrow> nat \<Rightarrow> dirent \<Rightarrow> byte list" where
  "put_dirent d i x = put_at d (i * 16) (enc_dirent x)"

lemma get_put_dirent [block_simps]:
  "dirent_ok x \<Longrightarrow> i * 16 + 16 \<le> length d \<Longrightarrow> j * 16 + 16 \<le> length d \<Longrightarrow>
    get_dirent (put_dirent d i x) j = (if i = j then x else get_dirent d j)"
  unfolding get_dirent_def put_dirent_def by (rule de.get_put_index)

end
