(* ===== verification/Kbase.thy ===== *)
theory Kbase
  imports Spinlock Layout
begin

text \<open>
  The state every part of the kernel shares: the locks this CPU holds, the process table
  (\<^verbatim>\<open>src/5/xv6/proc.h\<close>), the running process and the clock; and the routines of
  \<^verbatim>\<open>src/5/xv6/proc.c\<close> that the drivers and the file system call: sleep, wakeup and the
  checks of sched.  The record is extended by each component above
  (\<open>kbase\<close> < \<open>kbio\<close> < \<open>kfs\<close> < ...), so an operation of a lower component applies to the whole state.

  Locks are seen as the set of locks held by this CPU.  \<open>lk_acquire\<close> and \<open>lk_release\<close> satisfy the same
  interface as the routines of spinlock.c (the \<open>locking\<close> interpretations in \<open>Spinlock\<close> and below);
  the interrupt nesting they maintain is left to \<open>Spinlock\<close>.
\<close>

section \<open>Process table\<close>

datatype lock =
    LPtable | LBcache | LIcache | LFtable | LKmem | LIde | LTicks | LCons | LInput | LPipe nat

datatype procstate = UNUSED | EMBRYO | SLEEPING | RUNNABLE | RUNNING | ZOMBIE

record trapframe =
  tf_edi :: uint
  tf_esi :: uint
  tf_ebp :: uint
  tf_oesp :: uint
  tf_ebx :: uint
  tf_edx :: uint
  tf_ecx :: uint
  tf_eax :: uint
  tf_gs :: ushort
  tf_fs :: ushort
  tf_es :: ushort
  tf_ds :: ushort
  tf_trapno :: uint
  tf_err :: uint
  tf_eip :: uint
  tf_cs :: ushort
  tf_eflags :: uint
  tf_esp :: uint
  tf_ss :: ushort

record kcontext =
  ctx_edi :: uint
  ctx_esi :: uint
  ctx_ebx :: uint
  ctx_ebp :: uint
  ctx_eip :: uint

record proc =
  p_sz :: uint
  p_pgdir :: uint
  p_kstack :: uint
  p_state :: procstate
  p_pid :: uint
  p_parent :: "nat option"
  p_tf :: trapframe
  p_context :: kcontext
  p_chan :: chan
  p_killed :: bool
  p_ofile :: "nat option list"
  p_cwd :: "nat option"
  p_name :: "byte list"

definition NPROC :: nat where "NPROC = 64"
definition NOFILE :: nat where "NOFILE = 16"

record kbase =
  held :: "lock set"
  procs :: "proc list"
  cur :: "nat option"
  nextpid :: uint
  initproc :: "nat option"
  ticks :: uint

definition upd_proc :: "nat \<Rightarrow> (proc \<Rightarrow> proc) \<Rightarrow> 'a kbase_scheme \<Rightarrow> 'a kbase_scheme" where
  "upd_proc i f s = s\<lparr>procs := (procs s)[i := f (procs s ! i)]\<rparr>"

section \<open>Locks\<close>

definition lk_acquire :: "lock \<Rightarrow> 'a kbase_scheme \<Rightarrow> (unit, 'a kbase_scheme) outcome" where
  "lk_acquire l s = (if l \<in> held s then Panic ''acquire'' else Ret () (s\<lparr>held := insert l (held s)\<rparr>))"

definition lk_release :: "lock \<Rightarrow> 'a kbase_scheme \<Rightarrow> (unit, 'a kbase_scheme) outcome" where
  "lk_release l s = (if l \<notin> held s then Panic ''release'' else Ret () (s\<lparr>held := held s - {l}\<rparr>))"

interpretation klock: locking lk_acquire lk_release held "\<lambda>_ _. True" "\<lambda>_. True"
  by unfold_locales (auto simp: lk_acquire_def lk_release_def)

lemma lk_acquire_free [simp]: "l \<notin> held s \<Longrightarrow> lk_acquire l s = Ret () (s\<lparr>held := insert l (held s)\<rparr>)"
  by (simp add: lk_acquire_def)

lemma lk_release_held [simp]: "l \<in> held s \<Longrightarrow> lk_release l s = Ret () (s\<lparr>held := held s - {l}\<rparr>)"
  by (simp add: lk_release_def)

section \<open>sched, sleep and wakeup\<close>

text \<open>The checks of \<open>sched\<close>.  One level of \<open>pushcli\<close> per held lock: \<^verbatim>\<open>cpu->ncli != 1\<close> says
  that exactly one lock is held.  Interrupts are off whenever a lock is held (\<open>Spinlock\<close>), so the last check of the code,
  for interrupts being on, cannot fail here and has no counterpart; nor has the check of \<open>sleep\<close> for a null lock, since a
  lock is a value of \<open>lock\<close>.\<close>

definition sched :: "'a kbase_scheme \<Rightarrow> (unit, 'a kbase_scheme) outcome" where
  "sched s =
     (if LPtable \<notin> held s then Panic ''sched ptable.lock''
      else if held s \<noteq> {LPtable} then Panic ''sched locks''
      else case cur s of None \<Rightarrow> Panic ''sched running''
      | Some p \<Rightarrow> if p_state (procs s ! p) = RUNNING then Panic ''sched running'' else Ret () s)"

text \<open>\<open>sleep\<close> up to the switch to the scheduler, and from the switch back to its return.\<close>

definition sleep_enter :: "chan \<Rightarrow> lock \<Rightarrow> 'a kbase_scheme \<Rightarrow> (unit, 'a kbase_scheme) outcome" where
  "sleep_enter ch lk s =
     (case cur s of None \<Rightarrow> Panic ''sleep''
      | Some p \<Rightarrow>
        and_then (if lk \<noteq> LPtable then and_then (lk_acquire LPtable s) (\<lambda>_. lk_release lk) else Ret () s)
          (\<lambda>_ s. sched (upd_proc p (\<lambda>q. q\<lparr>p_chan := ch, p_state := SLEEPING\<rparr>) s)))"

definition sleep_return :: "lock \<Rightarrow> 'a kbase_scheme \<Rightarrow> (unit, 'a kbase_scheme) outcome" where
  "sleep_return lk s =
     (case cur s of None \<Rightarrow> Panic ''sleep''
      | Some p \<Rightarrow>
        let s = upd_proc p (\<lambda>q. q\<lparr>p_chan := ChNull\<rparr>) s in
        if lk \<noteq> LPtable then and_then (lk_release LPtable s) (\<lambda>_. lk_acquire lk) else Ret () s)"

definition sleep :: "chan \<Rightarrow> lock \<Rightarrow> 'a kbase_scheme \<Rightarrow> ('b, 'a kbase_scheme) outcome" where
  "sleep ch lk s = and_then (sleep_enter ch lk s) (\<lambda>_ s. Sleep ch s)"

definition wake :: "chan \<Rightarrow> proc \<Rightarrow> proc" where
  "wake ch p = (if p_state p = SLEEPING \<and> p_chan p = ch then p\<lparr>p_state := RUNNABLE\<rparr> else p)"

definition wakeup1 :: "chan \<Rightarrow> 'a kbase_scheme \<Rightarrow> 'a kbase_scheme" where
  "wakeup1 ch s = s\<lparr>procs := map (wake ch) (procs s)\<rparr>"

definition wakeup :: "chan \<Rightarrow> 'a kbase_scheme \<Rightarrow> (unit, 'a kbase_scheme) outcome" where
  "wakeup ch s = and_then (lk_acquire LPtable s) (\<lambda>_ s. lk_release LPtable (wakeup1 ch s))"

definition proc_killed :: "'a kbase_scheme \<Rightarrow> bool" where
  "proc_killed s = (case cur s of None \<Rightarrow> False | Some p \<Rightarrow> p_killed (procs s ! p))"

section \<open>Lemmas\<close>

lemma held_upd_id [simp]: "l \<notin> held s \<Longrightarrow> s\<lparr>held := insert l (held s) - {l}\<rparr> = s"
  by simp

lemma wakeup_free:
  "LPtable \<notin> held s \<Longrightarrow> wakeup ch s = Ret () (s\<lparr>procs := map (wake ch) (procs s)\<rparr>)"
  by (simp add: wakeup_def wakeup1_def)

text \<open>Nobody sleeps on a channel.\<close>

definition no_sleeper :: "chan \<Rightarrow> proc list \<Rightarrow> bool" where
  "no_sleeper ch ps \<longleftrightarrow> (\<forall>p \<in> set ps. \<not> (p_state p = SLEEPING \<and> p_chan p = ch))"

lemma wake_no_sleeper: "no_sleeper ch ps \<Longrightarrow> map (wake ch) ps = ps"
  by (simp add: no_sleeper_def wake_def map_idI)

lemma wakeup_quiet:
  "LPtable \<notin> held s \<Longrightarrow> no_sleeper ch (procs s) \<Longrightarrow> wakeup ch s = Ret () s"
  by (simp add: wakeup_free wake_no_sleeper)

lemma procs_upd_proc [simp]: "procs (upd_proc i f s) = (procs s)[i := f (procs s ! i)]"
  and held_upd_proc [simp]: "held (upd_proc i f s) = held s"
  and cur_upd_proc [simp]: "cur (upd_proc i f s) = cur s"
  by (simp_all add: upd_proc_def)

end
