(* ===== verification/Bio.thy ===== *)
theory Bio
  imports Kbase
begin

text \<open>
  The buffer cache and the disk driver: \<^verbatim>\<open>src/5/xv6/bio.c\<close> and
  \<^verbatim>\<open>src/5/xv6/ide.c\<close>.

  The cache is an array of buffers linked through \<open>b_prev\<close>/\<open>b_next\<close> into a ring with the head, element
  \<open>NBUF\<close> of the array (the C struct lays \<^verbatim>\<open>head\<close> out right after \<^verbatim>\<open>buf[NBUF]\<close>).
  The routines follow and rewrite the links as the code does; the lemmas show that the ring is always
  a list of all buffers, most recently used first.

  The driver queues a buffer and sleeps until the interrupt handler has completed it.  The disk itself
  is the hardware: \<open>idestart\<close> hands a dirty sector to it, \<open>ideintr\<close> reads the selected sector from it.
  While a process sleeps for the disk the only thing that happens in a sequential run is that
  interrupt, and then the scheduler running the process again; \<open>await_intr\<close> is this wait.

  The locale \<open>block_store\<close> at the end of the first half is the contract the file system uses.
\<close>

section \<open>State\<close>

definition NBUF :: nat where "NBUF = 10"

datatype bflag = B_BUSY | B_VALID | B_DIRTY

record buf =
  b_flags :: "bflag set"
  b_dev :: uint
  b_sector :: uint
  b_prev :: nat
  b_next :: nat
  b_qnext :: "nat option"
  b_data :: "byte list"

record kbio = kbase +
  bufs :: "buf list"
  idequeue :: "nat option"
  havedisk1 :: bool
  ide_sel :: "uint \<times> uint"
  ide_err :: bool
  disk :: "uint \<Rightarrow> uint \<Rightarrow> byte list"

definition upd_buf :: "nat \<Rightarrow> (buf \<Rightarrow> buf) \<Rightarrow> 'a kbio_scheme \<Rightarrow> 'a kbio_scheme" where
  "upd_buf i f s = s\<lparr>bufs := (bufs s)[i := f (bufs s ! i)]\<rparr>"

definition data_of :: "nat \<Rightarrow> 'a kbio_scheme \<Rightarrow> byte list" where
  "data_of b s = b_data (bufs s ! b)"

definition set_data :: "nat \<Rightarrow> byte list \<Rightarrow> 'a kbio_scheme \<Rightarrow> 'a kbio_scheme" where
  "set_data b d s = upd_buf b (\<lambda>u. u\<lparr>b_data := d\<rparr>) s"

section \<open>The disk driver: ide.c\<close>

text \<open>Drive and sector registers: one drive bit and 28 sector bits.\<close>

definition drive_of :: "uint \<Rightarrow> uint" where "drive_of dev = dev AND 1"
definition sector_of :: "uint \<Rightarrow> uint" where "sector_of n = n AND 0xfffffff"

definition idestart :: "nat option \<Rightarrow> 'a kbio_scheme \<Rightarrow> (unit, 'a kbio_scheme) outcome" where
  "idestart ob s =
     (case ob of None \<Rightarrow> Panic ''idestart''
      | Some b \<Rightarrow>
        let u = bufs s ! b; dr = drive_of (b_dev u); sec = sector_of (b_sector u);
            s = s\<lparr>ide_sel := (dr, sec)\<rparr> in
        if B_DIRTY \<in> b_flags u
        then Ret () (s\<lparr>disk := (disk s)(dr := (disk s dr)(sec := b_data u))\<rparr>)
        else Ret () s)"

definition ideintr :: "'a kbio_scheme \<Rightarrow> (unit, 'a kbio_scheme) outcome" where
  "ideintr s =
     and_then (lk_acquire LIde s) (\<lambda>_ s.
     case idequeue s of None \<Rightarrow> lk_release LIde s
     | Some b \<Rightarrow>
       let s = s\<lparr>idequeue := b_qnext (bufs s ! b)\<rparr>;
           s = (if B_DIRTY \<notin> b_flags (bufs s ! b) \<and> \<not> ide_err s
                then upd_buf b (\<lambda>u. u\<lparr>b_data := disk s (fst (ide_sel s)) (snd (ide_sel s))\<rparr>) s else s);
           s = upd_buf b (\<lambda>u. u\<lparr>b_flags := b_flags u \<union> {B_VALID} - {B_DIRTY}\<rparr>) s in
       and_then (wakeup (ChBuf b) s) (\<lambda>_ s.
       and_then (if idequeue s \<noteq> None then idestart (idequeue s) s else Ret () s) (\<lambda>_ s.
       lk_release LIde s)))"

text \<open>Append to the queue: follow \<open>b_qnext\<close> to the last element.\<close>

fun ide_last :: "nat \<Rightarrow> buf list \<Rightarrow> nat \<Rightarrow> nat option" where
  "ide_last 0 bs q = None"
| "ide_last (Suc f) bs q =
     (case b_qnext (bs ! q) of None \<Rightarrow> Some q | Some q' \<Rightarrow> ide_last f bs q')"

definition ide_append :: "nat \<Rightarrow> 'a kbio_scheme \<Rightarrow> (unit, 'a kbio_scheme) outcome" where
  "ide_append b s =
     (let s = upd_buf b (\<lambda>u. u\<lparr>b_qnext := None\<rparr>) s in
      case idequeue s of None \<Rightarrow> Ret () (s\<lparr>idequeue := Some b\<rparr>)
      | Some q \<Rightarrow>
        (case ide_last (NBUF + 1) (bufs s) q of None \<Rightarrow> Diverges
         | Some l \<Rightarrow> Ret () (upd_buf l (\<lambda>u. u\<lparr>b_qnext := Some b\<rparr>) s)))"

text \<open>Process \<open>p\<close> has gone to sleep: the scheduler gives up \<open>LPtable\<close> and idles, the disk interrupts, and
  as soon as \<open>p\<close> is runnable the scheduler switches to it.\<close>

fun await_intr :: "nat \<Rightarrow> nat \<Rightarrow> 'a kbio_scheme \<Rightarrow> (unit, 'a kbio_scheme) outcome" where
  "await_intr 0 p s = Diverges"
| "await_intr (Suc f) p s =
     and_then (lk_release LPtable (s\<lparr>cur := None\<rparr>)) (\<lambda>_ s.
     and_then (ideintr s) (\<lambda>_ s.
     and_then (lk_acquire LPtable s) (\<lambda>_ s.
     if p_state (procs s ! p) = RUNNABLE
     then Ret () (upd_proc p (\<lambda>q. q\<lparr>p_state := RUNNING\<rparr>) (s\<lparr>cur := Some p\<rparr>))
     else await_intr f p s)))"

fun iderw_wait :: "nat \<Rightarrow> nat \<Rightarrow> 'a kbio_scheme \<Rightarrow> (unit, 'a kbio_scheme) outcome" where
  "iderw_wait 0 b s = Diverges"
| "iderw_wait (Suc f) b s =
     (if b_flags (bufs s ! b) \<inter> {B_VALID, B_DIRTY} = {B_VALID} then Ret () s
      else and_then (sleep_enter (ChBuf b) LIde s) (\<lambda>_ t.
        and_then (await_intr (NBUF + 1) (the (cur t)) t) (\<lambda>_ t.
        and_then (sleep_return LIde t) (\<lambda>_ t. iderw_wait f b t))))"

definition iderw :: "nat \<Rightarrow> 'a kbio_scheme \<Rightarrow> (unit, 'a kbio_scheme) outcome" where
  "iderw b s =
     (let u = bufs s ! b in
      if B_BUSY \<notin> b_flags u then Panic ''iderw: buf not busy''
      else if b_flags u \<inter> {B_VALID, B_DIRTY} = {B_VALID} then Panic ''iderw: nothing to do''
      else if b_dev u \<noteq> 0 \<and> \<not> havedisk1 s then Panic ''iderw: ide disk 1 not present''
      else and_then (lk_acquire LIde s) (\<lambda>_ s.
        and_then (ide_append b s) (\<lambda>_ s.
        and_then (if idequeue s = Some b then idestart (Some b) s else Ret () s) (\<lambda>_ s.
        and_then (iderw_wait (NBUF + 1) b s) (\<lambda>_ s.
        lk_release LIde s)))))"

section \<open>The buffer cache: bio.c\<close>

text \<open>Insert buffer \<open>b\<close> between the head and the first buffer.\<close>

definition link_front :: "nat \<Rightarrow> buf list \<Rightarrow> buf list" where
  "link_front b bs =
     (let bs = bs[b := (bs ! b)\<lparr>b_next := b_next (bs ! NBUF)\<rparr>];
          bs = bs[b := (bs ! b)\<lparr>b_prev := NBUF\<rparr>];
          f = b_next (bs ! NBUF);
          bs = bs[f := (bs ! f)\<lparr>b_prev := b\<rparr>]
      in bs[NBUF := (bs ! NBUF)\<lparr>b_next := b\<rparr>])"

definition unlink_buf :: "nat \<Rightarrow> buf list \<Rightarrow> buf list" where
  "unlink_buf b bs =
     (let n = b_next (bs ! b);
          bs = bs[n := (bs ! n)\<lparr>b_prev := b_prev (bs ! b)\<rparr>];
          p = b_prev (bs ! b)
      in bs[p := (bs ! p)\<lparr>b_next := b_next (bs ! b)\<rparr>])"

definition binit :: "'a kbio_scheme \<Rightarrow> 'a kbio_scheme" where
  "binit s =
     (let h = (bufs s)[NBUF := (bufs s ! NBUF)\<lparr>b_prev := NBUF, b_next := NBUF\<rparr>]
      in s\<lparr>bufs := fold (\<lambda>b bs. link_front b (bs[b := (bs ! b)\<lparr>b_dev := 0xffffffff\<rparr>])) [0..<NBUF] h\<rparr>)"

text \<open>Follow one of the links from \<open>b\<close> until the head or a buffer that satisfies \<open>P\<close>.  \<open>None\<close>: the links
  never lead back to the head.\<close>

fun walk :: "(buf \<Rightarrow> nat) \<Rightarrow> (buf \<Rightarrow> bool) \<Rightarrow> buf list \<Rightarrow> nat \<Rightarrow> nat \<Rightarrow> nat option option" where
  "walk l P bs 0 b = None"
| "walk l P bs (Suc f) b =
     (if b = NBUF then Some None
      else if P (bs ! b) then Some (Some b)
      else walk l P bs f (l (bs ! b)))"

definition bget :: "uint \<Rightarrow> uint \<Rightarrow> 'a kbio_scheme \<Rightarrow> (nat, 'a kbio_scheme) outcome" where
  "bget dev sector s =
     and_then (lk_acquire LBcache s) (\<lambda>_ s.
     case walk b_next (\<lambda>u. b_dev u = dev \<and> b_sector u = sector) (bufs s) (NBUF + 1) (b_next (bufs s ! NBUF)) of
       None \<Rightarrow> Diverges
     | Some (Some b) \<Rightarrow>
         if B_BUSY \<notin> b_flags (bufs s ! b)
         then and_then (lk_release LBcache (upd_buf b (\<lambda>u. u\<lparr>b_flags := insert B_BUSY (b_flags u)\<rparr>) s))
                (\<lambda>_ s. Ret b s)
         else sleep (ChBuf b) LBcache s
     | Some None \<Rightarrow>
         (case walk b_prev (\<lambda>u. B_BUSY \<notin> b_flags u) (bufs s) (NBUF + 1) (b_prev (bufs s ! NBUF)) of
            None \<Rightarrow> Diverges
          | Some None \<Rightarrow> Panic ''bget: no buffers''
          | Some (Some b) \<Rightarrow>
              and_then (lk_release LBcache
                (upd_buf b (\<lambda>u. u\<lparr>b_dev := dev, b_sector := sector, b_flags := {B_BUSY}\<rparr>) s))
                (\<lambda>_ s. Ret b s)))"

definition bread :: "uint \<Rightarrow> uint \<Rightarrow> 'a kbio_scheme \<Rightarrow> (nat, 'a kbio_scheme) outcome" where
  "bread dev sector s =
     and_then (bget dev sector s) (\<lambda>b s.
     and_then (if B_VALID \<notin> b_flags (bufs s ! b) then iderw b s else Ret () s) (\<lambda>_ s. Ret b s))"

definition bwrite :: "nat \<Rightarrow> 'a kbio_scheme \<Rightarrow> (unit, 'a kbio_scheme) outcome" where
  "bwrite b s =
     (if B_BUSY \<notin> b_flags (bufs s ! b) then Panic ''bwrite''
      else iderw b (upd_buf b (\<lambda>u. u\<lparr>b_flags := insert B_DIRTY (b_flags u)\<rparr>) s))"

definition brelse :: "nat \<Rightarrow> 'a kbio_scheme \<Rightarrow> (unit, 'a kbio_scheme) outcome" where
  "brelse b s =
     (if B_BUSY \<notin> b_flags (bufs s ! b) then Panic ''brelse''
      else and_then (lk_acquire LBcache s) (\<lambda>_ s.
        let s = s\<lparr>bufs := link_front b (unlink_buf b (bufs s))\<rparr>;
            s = upd_buf b (\<lambda>u. u\<lparr>b_flags := b_flags u - {B_BUSY}\<rparr>) s in
        and_then (wakeup (ChBuf b) s) (\<lambda>_ s. lk_release LBcache s)))"

section \<open>The ring of buffers\<close>

fun seg :: "(nat \<Rightarrow> nat) \<Rightarrow> nat \<Rightarrow> nat list \<Rightarrow> nat \<Rightarrow> bool" where
  "seg f a [] z \<longleftrightarrow> f a = z"
| "seg f a (x # xs) z \<longleftrightarrow> f a = x \<and> seg f x xs z"

lemma seg_append: "seg f a (xs @ y # ys) z \<longleftrightarrow> seg f a xs y \<and> seg f y ys z"
  by (induction xs arbitrary: a) auto

lemma seg_snoc: "seg f a (xs @ [y]) z \<longleftrightarrow> seg f a xs y \<and> f y = z"
  by (simp add: seg_append)

lemma seg_cong: "f' a' = f a \<Longrightarrow> (\<And>x. x \<in> set xs \<Longrightarrow> f' x = f x) \<Longrightarrow> seg f' a' xs z = seg f a xs z"
proof (induction xs arbitrary: a a')
  case (Cons x xs)
  then have "seg f' x xs z = seg f x xs z" by (intro Cons.IH) auto
  with Cons.prems(1) show ?case by auto
qed simp

lemma seg_next: "seg f a (us @ b # vs) z \<Longrightarrow> f b = hd (vs @ [z])"
  by (cases vs) (auto simp: seg_append)

lemma seg_start: "seg f a xs z \<Longrightarrow> f a = hd (xs @ [z])"
  by (cases xs) auto

lemma seg_retarget: "distinct (a # xs) \<Longrightarrow> seg f a xs z \<Longrightarrow> seg (f(last (a # xs) := y)) a xs y"
proof (induction xs arbitrary: a)
  case (Cons x xs)
  have IH: "seg (f(last (x # xs) := y)) x xs y" using Cons.prems by (intro Cons.IH) auto
  have ne: "last (x # xs) \<noteq> a" using Cons.prems(1) by (metis distinct.simps(2) last_in_set list.distinct(1))
  have eq: "last (a # x # xs) = last (x # xs)" by simp
  show ?case unfolding eq seg.simps using IH ne Cons.prems(2) by (auto simp del: last.simps)
qed simp

lemma seg_remove:
  assumes "distinct (a # xs @ b # ys)" and "seg f a (xs @ b # ys) z"
  shows "seg (f(last (a # xs) := f b)) a (xs @ ys) z"
proof -
  have ab: "seg f a xs b" "seg f b ys z" using assms(2) by (auto simp: seg_append)
  have last: "last (a # xs) \<in> set (a # xs)" by (metis last_in_set list.distinct(1))
  have d: "distinct (a # xs)" using assms(1) by auto
  show ?thesis
  proof (cases ys)
    case Nil
    then show ?thesis using ab seg_retarget [OF d ab(1)] by auto
  next
    case (Cons y ys')
    have "seg (f(last (a # xs) := f b)) a xs y"
      using seg_retarget [OF d ab(1), of y] ab(2) Cons by auto
    moreover have "seg (f(last (a # xs) := f b)) y ys' z = seg f y ys' z"
      using assms(1) last Cons by (intro seg_cong) auto
    ultimately show ?thesis using ab(2) Cons by (simp add: seg_append)
  qed
qed

abbreviation nx :: "buf list \<Rightarrow> nat \<Rightarrow> nat" where "nx bs i \<equiv> b_next (bs ! i)"
abbreviation pv :: "buf list \<Rightarrow> nat \<Rightarrow> nat" where "pv bs i \<equiv> b_prev (bs ! i)"

definition ring :: "buf list \<Rightarrow> nat list \<Rightarrow> bool" where
  "ring bs ord \<longleftrightarrow> length bs = NBUF + 1 \<and> distinct ord \<and> set ord \<subseteq> {..<NBUF}
     \<and> seg (nx bs) NBUF ord NBUF \<and> seg (pv bs) NBUF (rev ord) NBUF"

lemma nth_upd: "xs[i := x] ! j = (if i = j \<and> i < length xs then x else xs ! j)"
  by (cases "i < length xs") (auto simp: nth_list_update list_update_beyond)

lemma link_front_nx:
  assumes "length bs = NBUF + 1" "b < NBUF" "nx bs NBUF \<le> NBUF"
  shows "nx (link_front b bs) = (nx bs)(b := nx bs NBUF, NBUF := b)"
  using assms by (auto simp: fun_eq_iff link_front_def Let_def nth_upd)

lemma link_front_pv:
  assumes "length bs = NBUF + 1" "b < NBUF" "nx bs NBUF \<le> NBUF" 
  shows "pv (link_front b bs) = (pv bs)(b := NBUF, nx bs NBUF := b)"
  using assms by (auto simp: fun_eq_iff link_front_def Let_def nth_upd)

lemma unlink_nx:
  assumes "length bs = NBUF + 1" "b < NBUF" "nx bs b \<le> NBUF" "pv bs b \<le> NBUF" "nx bs b \<noteq> b"
  shows "nx (unlink_buf b bs) = (nx bs)(pv bs b := nx bs b)"
  using assms by (auto simp: fun_eq_iff unlink_buf_def Let_def nth_upd)

lemma unlink_pv:
  assumes "length bs = NBUF + 1" "b < NBUF" "nx bs b \<le> NBUF" "pv bs b \<le> NBUF" "nx bs b \<noteq> b"
  shows "pv (unlink_buf b bs) = (pv bs)(nx bs b := pv bs b)"
  using assms by (auto simp: fun_eq_iff unlink_buf_def Let_def nth_upd)

lemma length_link_front [simp]: "length (link_front b bs) = length bs"
  and length_unlink_buf [simp]: "length (unlink_buf b bs) = length bs"
  by (simp_all add: link_front_def unlink_buf_def Let_def)

lemma ring_first: "ring bs ord \<Longrightarrow> nx bs NBUF = hd (ord @ [NBUF])"
  by (auto simp: ring_def dest: seg_start)

lemma hd_ord_le: "set ord \<subseteq> {..<NBUF} \<Longrightarrow> hd (ord @ [NBUF]) \<le> NBUF"
  by (cases ord) auto

lemma last_Cons_rev: "last (z # rev xs) = hd (xs @ [z])"
  by (cases xs) auto

lemma ring_link_front:
  assumes r: "ring bs ord" and b: "b < NBUF" "b \<notin> set ord"
  shows "ring (link_front b bs) (b # ord)"
proof -
  have len: "length bs = NBUF + 1" and sub: "set ord \<subseteq> {..<NBUF}" and dist: "distinct ord"
    and sn: "seg (nx bs) NBUF ord NBUF" and sp: "seg (pv bs) NBUF (rev ord) NBUF"
    using r by (auto simp: ring_def)
  let ?f = "nx bs NBUF"
  have f: "?f = hd (ord @ [NBUF])" using r by (rule ring_first)
  then have fle: "?f \<le> NBUF" using hd_ord_le [OF sub] by simp
  have fb: "?f \<noteq> b" using f b by (cases ord) auto
  have nN: "NBUF \<notin> set ord" using sub by auto
  have "seg ((nx bs)(b := ?f, NBUF := b)) b ord NBUF = seg (nx bs) NBUF ord NBUF"
    using b nN by (intro seg_cong) auto
  then have n: "seg (nx (link_front b bs)) NBUF (b # ord) NBUF"
    using sn by (simp add: link_front_nx [OF len b(1) fle])
  have "seg ((pv bs)(last (NBUF # rev ord) := b)) NBUF (rev ord) b"
    using dist nN by (intro seg_retarget [OF _ sp]) auto
  then have "seg ((pv bs)(?f := b)) NBUF (rev ord) b"
    by (simp only: last_Cons_rev f)
  moreover have "seg ((pv bs)(b := NBUF, ?f := b)) NBUF (rev ord) b = seg ((pv bs)(?f := b)) NBUF (rev ord) b"
    using b by (intro seg_cong) auto
  ultimately have "seg (pv (link_front b bs)) NBUF (rev (b # ord)) NBUF"
    using fb by (simp add: link_front_pv [OF len b(1) fle] seg_snoc)
  with n b dist sub len show ?thesis by (auto simp: ring_def)
qed

lemma ring_unlink:
  assumes r: "ring bs (xs @ b # ys)"
  shows "ring (unlink_buf b bs) (xs @ ys)"
proof -
  have len: "length bs = NBUF + 1" and sub: "set (xs @ b # ys) \<subseteq> {..<NBUF}"
    and dist: "distinct (xs @ b # ys)"
    and sn: "seg (nx bs) NBUF (xs @ b # ys) NBUF"
    and sp: "seg (pv bs) NBUF (rev ys @ b # rev xs) NBUF"
    using r by (auto simp: ring_def)
  have n: "nx bs b = hd (ys @ [NBUF])" using sn by (rule seg_next)
  have p: "pv bs b = hd (rev xs @ [NBUF])" using sp by (rule seg_next)
  have p': "pv bs b = last (NBUF # xs)" using p last_Cons_rev [of NBUF "rev xs"] by simp
  have n': "nx bs b = last (NBUF # rev ys)" using n last_Cons_rev [of NBUF ys] by simp
  have le: "b < NBUF" "nx bs b \<le> NBUF" "pv bs b \<le> NBUF" "nx bs b \<noteq> b"
    using sub n p dist hd_ord_le [of ys] hd_ord_le [of "rev xs"] by (auto simp: hd_append)
  have "seg ((nx bs)(pv bs b := nx bs b)) NBUF (xs @ ys) NBUF"
    unfolding p' using dist sub by (intro seg_remove [OF _ sn]) auto
  moreover have "seg ((pv bs)(nx bs b := pv bs b)) NBUF (rev ys @ rev xs) NBUF"
    unfolding n' using dist sub by (intro seg_remove [OF _ sp]) auto
  ultimately show ?thesis
    using len dist sub
    by (auto simp: ring_def unlink_nx [OF len le] unlink_pv [OF len le])
qed

text \<open>Releasing a buffer moves it to the front of the list.\<close>

lemma ring_touch:
  assumes "ring bs ord" and "b \<in> set ord"
  shows "ring (link_front b (unlink_buf b bs)) (b # remove1 b ord)"
proof -
  obtain xs ys where o: "ord = xs @ b # ys" "b \<notin> set xs"
    using assms(2) by (meson split_list_first)
  have b: "b < NBUF" "b \<notin> set (xs @ ys)" using assms(1) o by (auto simp: ring_def)
  have "remove1 b ord = xs @ ys" using o by (simp add: remove1_append)
  with ring_link_front [OF ring_unlink b, of bs] assms(1) o show ?thesis by simp
qed

lemma walk_seg:
  "seg (\<lambda>i. l (bs ! i)) a xs NBUF \<Longrightarrow> NBUF \<notin> set xs \<Longrightarrow> length xs < f \<Longrightarrow>
    walk l P bs f (l (bs ! a)) = Some (find (\<lambda>i. P (bs ! i)) xs)"
proof (induction xs arbitrary: a f)
  case Nil
  then show ?case by (cases f) auto
next
  case (Cons x xs)
  then obtain g where "f = Suc g" by (cases f) auto
  with Cons show ?case by auto
qed

lemma link_front_keeps:
  assumes "length bs = NBUF + 1" "b < NBUF"
  shows "b_flags (link_front b bs ! i) = b_flags (bs ! i)" "b_dev (link_front b bs ! i) = b_dev (bs ! i)"
    "b_sector (link_front b bs ! i) = b_sector (bs ! i)" "b_data (link_front b bs ! i) = b_data (bs ! i)"
    "b_qnext (link_front b bs ! i) = b_qnext (bs ! i)"
  using assms by (auto simp: link_front_def Let_def nth_upd)

lemma unlink_buf_keeps:
  assumes "length bs = NBUF + 1" "b < NBUF"
  shows "b_flags (unlink_buf b bs ! i) = b_flags (bs ! i)" "b_dev (unlink_buf b bs ! i) = b_dev (bs ! i)"
    "b_sector (unlink_buf b bs ! i) = b_sector (bs ! i)" "b_data (unlink_buf b bs ! i) = b_data (bs ! i)"
    "b_qnext (unlink_buf b bs ! i) = b_qnext (bs ! i)"
  using assms by (auto simp: unlink_buf_def Let_def nth_upd)

section \<open>The driver in a sequential run\<close>

definition running :: "'a kbase_scheme \<Rightarrow> bool" where
  "running s \<longleftrightarrow> (\<exists>p. cur s = Some p \<and> p < length (procs s)
     \<and> p_state (procs s ! p) = RUNNING \<and> p_chan (procs s ! p) = ChNull)"

lemma map_wake_upd:
  assumes "no_sleeper ch ps" "p < length ps"
  shows "map (wake ch) (ps[p := q\<lparr>p_chan := ch, p_state := SLEEPING\<rparr>])
    = ps[p := q\<lparr>p_chan := ch, p_state := RUNNABLE\<rparr>]"
  using assms by (simp add: map_update wake_no_sleeper wake_def)

definition completed :: "nat \<Rightarrow> 'a kbio_scheme \<Rightarrow> 'a kbio_scheme" where
  "completed b s =
     (let u = bufs s ! b; dr = drive_of (b_dev u); sec = sector_of (b_sector u);
          d = (if B_DIRTY \<in> b_flags u then b_data u else disk s dr sec) in
      s\<lparr>ide_sel := (dr, sec), disk := (disk s)(dr := (disk s dr)(sec := d)),
        bufs := (bufs s)[b := u\<lparr>b_qnext := None, b_data := d, b_flags := b_flags u \<union> {B_VALID} - {B_DIRTY}\<rparr>]\<rparr>)"

lemma sleep_enter_run:
  assumes "cur s = Some p" "held s = {lk}" "lk \<noteq> LPtable" "p < length (procs s)"
  shows "sleep_enter ch lk s
    = Ret () (s\<lparr>held := {LPtable}, procs := (procs s)[p := (procs s ! p)\<lparr>p_chan := ch, p_state := SLEEPING\<rparr>]\<rparr>)"
proof -
  have "insert LPtable {lk} - {lk} = {LPtable}" using assms by auto
  then show ?thesis using assms by (simp add: sleep_enter_def sched_def upd_proc_def)
qed

lemma sleep_return_run:
  assumes "cur s = Some p" "held s = {LPtable}" "lk \<noteq> LPtable"
  shows "sleep_return lk s
    = Ret () (s\<lparr>held := {lk}, procs := (procs s)[p := (procs s ! p)\<lparr>p_chan := ChNull\<rparr>]\<rparr>)"
  using assms by (simp add: sleep_return_def upd_proc_def Let_def)

definition transferred :: "nat \<Rightarrow> 'a kbio_scheme \<Rightarrow> buf" where
  "transferred b s =
     (let u = bufs s ! b in
      u\<lparr>b_data := (if B_DIRTY \<in> b_flags u then b_data u else disk s (fst (ide_sel s)) (snd (ide_sel s))),
        b_flags := b_flags u \<union> {B_VALID} - {B_DIRTY}\<rparr>)"

lemma ideintr_run:
  assumes "held s = {}" "idequeue s = Some b" "b_qnext (bufs s ! b) = None" "\<not> ide_err s"
    "b < length (bufs s)"
  shows "ideintr s = Ret () (s\<lparr>idequeue := None, bufs := (bufs s)[b := transferred b s],
     procs := map (wake (ChBuf b)) (procs s)\<rparr>)"
proof -
  have "insert LPtable {LIde} - {LPtable} = {LIde}" by auto
  then show ?thesis
    using assms by (simp add: ideintr_def Let_def upd_buf_def wakeup_free transferred_def)
qed

lemma await_intr_run:
  assumes "held s = {LPtable}" "idequeue s = Some b" "b_qnext (bufs s ! b) = None" "\<not> ide_err s"
    "b < length (bufs s)" "no_sleeper (ChBuf b) ps" "p < length ps"
    "procs s = ps[p := q\<lparr>p_chan := ChBuf b, p_state := SLEEPING\<rparr>]"
  shows "await_intr (Suc f) p s = Ret () (s\<lparr>idequeue := None, bufs := (bufs s)[b := transferred b s],
     cur := Some p, procs := ps[p := q\<lparr>p_chan := ChBuf b, p_state := RUNNING\<rparr>]\<rparr>)"
proof -
  have t: "transferred b (s\<lparr>cur := None, held := {}\<rparr>) = transferred b s"
    by (simp add: transferred_def Let_def)
  have "ideintr (s\<lparr>cur := None, held := {}\<rparr>)
    = Ret () (s\<lparr>cur := None, held := {}, idequeue := None, bufs := (bufs s)[b := transferred b s],
       procs := ps[p := q\<lparr>p_chan := ChBuf b, p_state := RUNNABLE\<rparr>]\<rparr>)"
    using assms ideintr_run [of "s\<lparr>cur := None, held := {}\<rparr>" b]
    unfolding t by (simp add: map_wake_upd)
  then show ?thesis using assms by (simp add: upd_proc_def)
qed

lemma iderw_wait_run:
  assumes "held s = {LIde}" "idequeue s = Some b" "b_qnext (bufs s ! b) = None" "\<not> ide_err s"
    "b < length (bufs s)" "no_sleeper (ChBuf b) (procs s)" "running s"
    "b_flags (bufs s ! b) \<inter> {B_VALID, B_DIRTY} \<noteq> {B_VALID}"
  shows "iderw_wait (NBUF + 1) b s = Ret () (s\<lparr>idequeue := None, bufs := (bufs s)[b := transferred b s]\<rparr>)"
proof -
  obtain p where p: "cur s = Some p" "p < length (procs s)" "p_state (procs s ! p) = RUNNING"
      "p_chan (procs s ! p) = ChNull"
    using assms by (auto simp: running_def)
  let ?q = "procs s ! p"
  let ?s1 = "s\<lparr>held := {LPtable}, procs := (procs s)[p := ?q\<lparr>p_chan := ChBuf b, p_state := SLEEPING\<rparr>]\<rparr>"
  let ?s2 = "?s1\<lparr>idequeue := None, bufs := (bufs s)[b := transferred b s],
     cur := Some p, procs := (procs s)[p := ?q\<lparr>p_chan := ChBuf b, p_state := RUNNING\<rparr>]\<rparr>"
  have e: "sleep_enter (ChBuf b) LIde s = Ret () ?s1"
    using assms p by (intro sleep_enter_run) auto
  have c: "the (cur ?s1) = p" using p(1) by simp
  have t: "transferred b ?s1 = transferred b s" by (simp add: transferred_def Let_def)
  have w: "await_intr (NBUF + 1) p ?s1 = Ret () ?s2"
    using assms p await_intr_run [of ?s1 b "procs s" p ?q NBUF] by (simp add: t)
  have r: "sleep_return LIde ?s2 = Ret () (s\<lparr>idequeue := None, bufs := (bufs s)[b := transferred b s]\<rparr>)"
  proof -
    have "sleep_return LIde ?s2 = Ret () (?s2\<lparr>held := {LIde},
        procs := (procs ?s2)[p := (procs ?s2 ! p)\<lparr>p_chan := ChNull\<rparr>]\<rparr>)"
      by (rule sleep_return_run) simp_all
    moreover have "(procs ?s2 ! p)\<lparr>p_chan := ChNull\<rparr> = ?q"
      using p by (intro proc.equality) simp_all
    moreover have "(procs ?s2)[p := ?q] = procs s" by simp
    ultimately have "sleep_return LIde ?s2 = Ret () (?s2\<lparr>held := {LIde}, procs := procs s\<rparr>)"
      by simp
    moreover have "?s2\<lparr>held := {LIde}, procs := procs s\<rparr>
        = s\<lparr>idequeue := None, bufs := (bufs s)[b := transferred b s]\<rparr>"
      using p(1) assms(1) by (intro kbio.equality) simp_all
    ultimately show ?thesis by simp
  qed
  have done_: "b_flags (transferred b s) \<inter> {B_VALID, B_DIRTY} = {B_VALID}"
    by (auto simp: transferred_def Let_def)
  have again: "iderw_wait (Suc f) b (s\<lparr>idequeue := None, bufs := (bufs s)[b := transferred b s]\<rparr>)
      = Ret () (s\<lparr>idequeue := None, bufs := (bufs s)[b := transferred b s]\<rparr>)" for f
    using done_ assms(5) by simp
  have "iderw_wait (Suc (Suc 9)) b s = Ret () (s\<lparr>idequeue := None, bufs := (bufs s)[b := transferred b s]\<rparr>)"
    using assms(8) by (simp only: iderw_wait.simps(2) [of "Suc 9"] e c w r again
      and_then.simps if_False simp_thms)
  then show ?thesis by (simp add: NBUF_def)
qed

lemma iderw_run:
  assumes q: "idequeue s = None" "\<not> ide_err s" "havedisk1 s" "held s = {}"
    and run: "running s" and ns: "no_sleeper (ChBuf b) (procs s)"
    and b: "b < length (bufs s)" "B_BUSY \<in> b_flags (bufs s ! b)"
    and todo: "b_flags (bufs s ! b) \<inter> {B_VALID, B_DIRTY} \<noteq> {B_VALID}"
  shows "iderw b s = Ret () (completed b s)"
proof -
  let ?u = "bufs s ! b"
  let ?dr = "drive_of (b_dev ?u)" and ?sec = "sector_of (b_sector ?u)"
  let ?d = "if B_DIRTY \<in> b_flags ?u then b_data ?u else disk s ?dr ?sec"
  let ?s1 = "s\<lparr>held := {LIde}, bufs := (bufs s)[b := ?u\<lparr>b_qnext := None\<rparr>], idequeue := Some b,
    ide_sel := (?dr, ?sec), disk := (disk s)(?dr := (disk s ?dr)(?sec := ?d))\<rparr>"
  have "running ?s1" using run by (simp add: running_def)
  then have w: "iderw_wait (NBUF + 1) b ?s1
      = Ret () (?s1\<lparr>idequeue := None, bufs := (bufs ?s1)[b := transferred b ?s1]\<rparr>)"
    using q b ns todo by (intro iderw_wait_run) auto
  have start: "iderw b s = and_then (iderw_wait (NBUF + 1) b ?s1) (\<lambda>_ s. lk_release LIde s)"
    using q b todo by (simp add: iderw_def Let_def ide_append_def upd_buf_def idestart_def)
  show ?thesis
    unfolding start w using q b
    by (simp add: transferred_def completed_def Let_def)
qed

section \<open>The invariant between the operations\<close>

definition addr_ok :: "uint \<Rightarrow> uint \<Rightarrow> bool" where
  "addr_ok dev n \<longleftrightarrow> dev \<le> 1 \<and> n < 0x10000000"

definition key_of :: "buf \<Rightarrow> uint \<times> uint" where
  "key_of u = (b_dev u, b_sector u)"

definition unused_buf :: "buf \<Rightarrow> bool" where
  "unused_buf u \<longleftrightarrow> b_dev u = 0xffffffff \<and> b_flags u = {}"

text \<open>A buffer is unused since boot, or it is the only one of its sector; one that nobody has locked
  holds what is on the disk.\<close>

definition buf_ok :: "(uint \<Rightarrow> uint \<Rightarrow> byte list) \<Rightarrow> buf \<Rightarrow> bool" where
  "buf_ok dk u \<longleftrightarrow> unused_buf u
     \<or> (addr_ok (b_dev u) (b_sector u) \<and> B_DIRTY \<notin> b_flags u
        \<and> (B_BUSY \<in> b_flags u \<longrightarrow> B_VALID \<in> b_flags u)
        \<and> (B_BUSY \<notin> b_flags u \<longrightarrow> B_VALID \<in> b_flags u \<longrightarrow> b_data u = dk (b_dev u) (b_sector u)))"

definition cache_ok :: "(uint \<Rightarrow> uint \<Rightarrow> byte list) \<Rightarrow> buf list \<Rightarrow> bool" where
  "cache_ok dk bs \<longleftrightarrow> (\<exists>ord. ring bs ord \<and> set ord = {..<NBUF})
     \<and> (\<forall>i<NBUF. buf_ok dk (bs ! i))
     \<and> (\<forall>i<NBUF. \<forall>j<NBUF. \<not> unused_buf (bs ! i) \<longrightarrow> key_of (bs ! i) = key_of (bs ! j) \<longrightarrow> i = j)"

definition bio_inv :: "'a kbio_scheme \<Rightarrow> bool" where
  "bio_inv s \<longleftrightarrow> cache_ok (disk s) (bufs s)
     \<and> idequeue s = None \<and> \<not> ide_err s \<and> havedisk1 s \<and> held s = {} \<and> running s
     \<and> (\<forall>i. no_sleeper (ChBuf i) (procs s)) \<and> (\<forall>d n. length (disk s d n) = BSIZE)"

text \<open>What the file system sees: the contents of the disk, the set of locked blocks, and which block a
  locked buffer holds.\<close>

definition locked_buf :: "nat \<Rightarrow> uint \<times> uint \<Rightarrow> 'a kbio_scheme \<Rightarrow> bool" where
  "locked_buf b k s \<longleftrightarrow> b < NBUF \<and> B_BUSY \<in> b_flags (bufs s ! b) \<and> key_of (bufs s ! b) = k"

definition busy :: "'a kbio_scheme \<Rightarrow> (uint \<times> uint) set" where
  "busy s = {k. \<exists>b. locked_buf b k s}"

text \<open>The state without the cache and the disk.\<close>

definition nobio :: "'a kbio_scheme \<Rightarrow> 'a kbio_scheme" where
  "nobio s = s\<lparr>bufs := [], ide_sel := (0, 0), disk := \<lambda>_ _. []\<rparr>"

definition other_locked :: "nat \<Rightarrow> 'a kbio_scheme \<Rightarrow> 'a kbio_scheme \<Rightarrow> bool" where
  "other_locked b s t \<longleftrightarrow> (\<forall>b' k. b' \<noteq> b \<longrightarrow> locked_buf b' k t = locked_buf b' k s \<and> data_of b' t = data_of b' s)"

lemma drive_of_ok [simp]: "addr_ok d n \<Longrightarrow> drive_of d = d"
proof -
  assume "addr_ok d n"
  then have "d = 0 \<or> d = 1" unfolding addr_ok_def by unat_arith
  then show ?thesis by (auto simp: drive_of_def)
qed

lemma sector_of_ok [simp]: "addr_ok d n \<Longrightarrow> sector_of n = n"
proof -
  assume "addr_ok d n"
  then have "n < 2 ^ 28" by (simp add: addr_ok_def)
  then have "n AND mask 28 = n" by (rule less_mask_eq)
  moreover have "(0xfffffff :: uint) = mask 28" by (simp add: mask_eq_exp_minus_1)
  ultimately show ?thesis by (simp add: sector_of_def)
qed

lemma addr_ok_dev: "addr_ok d n \<Longrightarrow> d \<noteq> 0xffffffff"
  by (auto simp: addr_ok_def word_le_nat_alt)

lemma ring_upd:
  assumes "ring bs ord" "b_next u = b_next (bs ! b)" "b_prev u = b_prev (bs ! b)"
  shows "ring (bs[b := u]) ord"
proof -
  have "nx (bs[b := u]) = nx bs" "pv (bs[b := u]) = pv bs"
    using assms(2,3) by (auto simp: fun_eq_iff nth_upd)
  with assms(1) show ?thesis by (simp add: ring_def)
qed

lemma cache_ok_length: "cache_ok dk bs \<Longrightarrow> length bs = NBUF + 1"
  by (auto simp: cache_ok_def ring_def)

lemma cache_ok_upd:
  assumes c: "cache_ok dk bs" and b: "b < NBUF"
    and l: "b_next u = b_next (bs ! b)" "b_prev u = b_prev (bs ! b)"
    and u: "buf_ok dk u" "\<not> unused_buf u"
    and k: "\<And>j. j < NBUF \<Longrightarrow> j \<noteq> b \<Longrightarrow> key_of (bs ! j) \<noteq> key_of u"
  shows "cache_ok dk (bs[b := u])"
proof -
  obtain ord where "ring bs ord" "set ord = {..<NBUF}" using c by (auto simp: cache_ok_def)
  then have "\<exists>ord. ring (bs[b := u]) ord \<and> set ord = {..<NBUF}" using ring_upd l by blast
  moreover have "buf_ok dk (bs[b := u] ! i)" if "i < NBUF" for i
    using that c u by (auto simp: cache_ok_def nth_upd)
  moreover have "i = j"
    if "i < NBUF" "j < NBUF" "\<not> unused_buf (bs[b := u] ! i)"
      "key_of (bs[b := u] ! i) = key_of (bs[b := u] ! j)" for i j
    using that c k cache_ok_length [OF c] b by (auto simp: cache_ok_def nth_upd split: if_splits)
  ultimately show ?thesis by (auto simp: cache_ok_def)
qed

lemma cache_ok_disk:
  assumes c: "cache_ok dk bs" and b: "b < NBUF" "B_BUSY \<in> b_flags (bs ! b)" "key_of (bs ! b) = (d, n)"
  shows "cache_ok (dk(d := (dk d)(n := x))) bs"
proof -
  have nu: "\<not> unused_buf (bs ! b)" using b by (auto simp: unused_buf_def)
  have "buf_ok (dk(d := (dk d)(n := x))) (bs ! i)" if i: "i < NBUF" for i
  proof (cases "i = b")
    case True
    then show ?thesis using c b i by (auto simp: cache_ok_def buf_ok_def)
  next
    case False
    then have "key_of (bs ! i) \<noteq> (d, n)"
      using c b i nu unfolding cache_ok_def by metis
    then show ?thesis using c i by (auto simp: cache_ok_def buf_ok_def key_of_def)
  qed
  with c show ?thesis by (simp add: cache_ok_def)
qed

lemma cache_walk_next:
  assumes "cache_ok dk bs"
  obtains ord where "set ord = {..<NBUF}"
    "walk b_next P bs (NBUF + 1) (nx bs NBUF) = Some (find (\<lambda>i. P (bs ! i)) ord)"
proof -
  obtain ord where o: "ring bs ord" "set ord = {..<NBUF}" using assms by (auto simp: cache_ok_def)
  then have "length ord = NBUF" by (metis card_lessThan distinct_card ring_def)
  then have "walk b_next P bs (NBUF + 1) (nx bs NBUF) = Some (find (\<lambda>i. P (bs ! i)) ord)"
    using o by (intro walk_seg) (auto simp: ring_def)
  with o(2) show thesis by (rule that)
qed

lemma cache_walk_prev:
  assumes "cache_ok dk bs"
  obtains ord where "set ord = {..<NBUF}"
    "walk b_prev P bs (NBUF + 1) (pv bs NBUF) = Some (find (\<lambda>i. P (bs ! i)) ord)"
proof -
  obtain ord where o: "ring bs ord" "set ord = {..<NBUF}" using assms by (auto simp: cache_ok_def)
  then have "length ord = NBUF" by (metis card_lessThan distinct_card ring_def)
  then have "walk b_prev P bs (NBUF + 1) (pv bs NBUF) = Some (find (\<lambda>i. P (bs ! i)) (rev ord))"
    using o by (intro walk_seg) (auto simp: ring_def)
  with o(2) show thesis by (intro that [of "rev ord"]) auto
qed

lemma find_Some_in: "find P xs = Some x \<Longrightarrow> x \<in> set xs \<and> P x"
  by (auto simp: find_Some_iff)

text \<open>Fewer locked blocks than buffers: some buffer is free.\<close>

lemma free_buf_exists:
  assumes c: "cache_ok (disk s) (bufs s)" and card: "card (busy s) < NBUF"
  shows "\<exists>i<NBUF. B_BUSY \<notin> b_flags (bufs s ! i)"
proof (rule ccontr)
  assume all: "\<not> (\<exists>i<NBUF. B_BUSY \<notin> b_flags (bufs s ! i))"
  let ?k = "\<lambda>i. key_of (bufs s ! i)"
  have "busy s = ?k ` {..<NBUF}"
    using all by (auto simp: busy_def locked_buf_def image_iff intro: sym)
  moreover have "inj_on ?k {..<NBUF}"
  proof (rule inj_onI)
    fix i j assume ij: "i \<in> {..<NBUF}" "j \<in> {..<NBUF}" "?k i = ?k j"
    have "\<not> unused_buf (bufs s ! i)" using all ij by (auto simp: unused_buf_def)
    then show "i = j" using c ij by (auto simp: cache_ok_def)
  qed
  ultimately have "card (busy s) = NBUF" by (simp add: card_image)
  with card show False by simp
qed

definition got_buf :: "uint \<Rightarrow> uint \<Rightarrow> 'a kbio_scheme \<Rightarrow> nat \<Rightarrow> buf \<Rightarrow> bool" where
  "got_buf d n s b u \<longleftrightarrow> b < NBUF \<and> key_of u = (d, n) \<and> B_BUSY \<in> b_flags u \<and> B_DIRTY \<notin> b_flags u
     \<and> (B_VALID \<in> b_flags u \<longrightarrow> b_data u = disk s d n)
     \<and> b_next u = b_next (bufs s ! b) \<and> b_prev u = b_prev (bufs s ! b)
     \<and> B_BUSY \<notin> b_flags (bufs s ! b) \<and> (\<forall>j<NBUF. j \<noteq> b \<longrightarrow> key_of (bufs s ! j) \<noteq> (d, n))"

lemma held_restore: "held s = {} \<Longrightarrow> s\<lparr>held := {}, bufs := x\<rparr> = s\<lparr>bufs := (x :: buf list)\<rparr>" for s :: "'a kbio_scheme"
  by (intro kbio.equality) simp_all

lemma bget_spec:
  assumes inv: "bio_inv s" and a: "addr_ok d n" and nb: "(d, n) \<notin> busy s" and card: "card (busy s) < NBUF"
  shows "\<exists>b u. bget d n s = Ret b (s\<lparr>bufs := (bufs s)[b := u]\<rparr>) \<and> got_buf d n s b u"
proof -
  have c: "cache_ok (disk s) (bufs s)" and h: "held s = {}" using inv by (auto simp: bio_inv_def)
  let ?P = "\<lambda>u. b_dev u = d \<and> b_sector u = n"
  obtain ord where o: "set ord = {..<NBUF}"
    "walk b_next ?P (bufs s) (NBUF + 1) (nx (bufs s) NBUF) = Some (find (\<lambda>i. ?P (bufs s ! i)) ord)"
    by (rule cache_walk_next [OF c])
  show ?thesis
  proof (cases "find (\<lambda>i. ?P (bufs s ! i)) ord")
    case (Some b)
    then have b: "b < NBUF" "?P (bufs s ! b)" using o(1) by (auto dest: find_Some_in)
    then have k: "key_of (bufs s ! b) = (d, n)" by (simp add: key_of_def)
    then have nbusy: "B_BUSY \<notin> b_flags (bufs s ! b)" using nb b by (auto simp: busy_def locked_buf_def)
    have nu: "\<not> unused_buf (bufs s ! b)" using b addr_ok_dev [OF a] by (auto simp: unused_buf_def)
    have ok: "buf_ok (disk s) (bufs s ! b)" using c b by (auto simp: cache_ok_def)
    have uniq: "j \<noteq> b \<Longrightarrow> j < NBUF \<Longrightarrow> key_of (bufs s ! j) \<noteq> (d, n)" for j
      using c nu b k unfolding cache_ok_def by metis
    let ?u = "(bufs s ! b)\<lparr>b_flags := insert B_BUSY (b_flags (bufs s ! b))\<rparr>"
    have "got_buf d n s b ?u"
      using b k nbusy nu ok uniq by (auto simp: got_buf_def buf_ok_def key_of_def)
    moreover have "bget d n s = Ret b (s\<lparr>bufs := (bufs s)[b := ?u]\<rparr>)"
      using o(2) Some nbusy h by (simp add: bget_def upd_buf_def held_restore del: walk.simps)
    ultimately show ?thesis by blast
  next
    case None
    then have miss: "key_of (bufs s ! j) \<noteq> (d, n)" if "j < NBUF" for j
      using that o(1) by (auto simp: find_None_iff key_of_def)
    let ?Q = "\<lambda>u. B_BUSY \<notin> b_flags u"
    obtain rd where rd: "set rd = {..<NBUF}"
      "walk b_prev ?Q (bufs s) (NBUF + 1) (pv (bufs s) NBUF) = Some (find (\<lambda>i. ?Q (bufs s ! i)) rd)"
      by (rule cache_walk_prev [OF c])
    have "find (\<lambda>i. ?Q (bufs s ! i)) rd \<noteq> None"
      using free_buf_exists [OF c card] rd(1) by (auto simp: find_None_iff)
    then obtain b where f: "find (\<lambda>i. ?Q (bufs s ! i)) rd = Some b" by auto
    then have b: "b < NBUF" "B_BUSY \<notin> b_flags (bufs s ! b)" using rd(1) by (auto dest: find_Some_in)
    let ?u = "(bufs s ! b)\<lparr>b_dev := d, b_sector := n, b_flags := {B_BUSY}\<rparr>"
    have "got_buf d n s b ?u" using b miss by (auto simp: got_buf_def key_of_def)
    moreover have "bget d n s = Ret b (s\<lparr>bufs := (bufs s)[b := ?u]\<rparr>)"
      using o(2) None rd(2) f h by (simp add: bget_def upd_buf_def held_restore del: walk.simps)
    ultimately show ?thesis by blast
  qed
qed


section \<open>What the three operations do\<close>

lemma fun_upd_self: "f(a := (f a)(b := f a b)) = f"
  by (auto simp: fun_eq_iff)

lemma bio_inv_length: "bio_inv s \<Longrightarrow> length (bufs s) = NBUF + 1"
  by (auto simp: bio_inv_def dest: cache_ok_length)

lemma locked_bound: "locked_buf b k s \<Longrightarrow> b < NBUF"
  by (simp add: locked_buf_def)

lemma locked_unique:
  assumes "bio_inv s" "locked_buf b k s" "locked_buf b' k s"
  shows "b = b'"
proof -
  have "\<not> unused_buf (bufs s ! b)" using assms(2) by (auto simp: unused_buf_def locked_buf_def)
  then show ?thesis using assms by (auto simp: bio_inv_def cache_ok_def locked_buf_def)
qed

text \<open>Install \<open>u\<close> as the locked buffer \<open>b\<close>.\<close>

lemma install_locked:
  assumes inv: "bio_inv s" and b: "b < NBUF" "B_BUSY \<notin> b_flags (bufs s ! b)"
    and a: "addr_ok d n" and u: "key_of u = (d, n)" "b_flags u \<inter> {B_BUSY, B_VALID, B_DIRTY} = {B_BUSY, B_VALID}"
    and l: "b_next u = b_next (bufs s ! b)" "b_prev u = b_prev (bufs s ! b)"
    and uniq: "\<forall>j<NBUF. j \<noteq> b \<longrightarrow> key_of (bufs s ! j) \<noteq> (d, n)"
    and t: "bufs t = (bufs s)[b := u]" "disk t = disk s" "nobio t = nobio s"
  shows "bio_inv t" "locked_buf b (d, n) t" "data_of b t = b_data u" "busy t = insert (d, n) (busy s)"
    "other_locked b s t"
proof -
  have c: "cache_ok (disk s) (bufs s)" using inv by (simp add: bio_inv_def)
  have len: "length (bufs s) = NBUF + 1" by (rule bio_inv_length [OF inv])
  have fl: "B_BUSY \<in> b_flags u" "B_VALID \<in> b_flags u" "B_DIRTY \<notin> b_flags u" using u(2) by auto
  have "buf_ok (disk s) u" "\<not> unused_buf u"
    using fl a u(1) by (auto simp: buf_ok_def unused_buf_def key_of_def)
  then have "cache_ok (disk s) ((bufs s)[b := u])"
    using uniq u(1) by (intro cache_ok_upd c b l) auto
  moreover have "held t = held s" "idequeue t = idequeue s" "ide_err t = ide_err s" "havedisk1 t = havedisk1 s"
    "procs t = procs s" "cur t = cur s"
    using arg_cong [OF t(3), of held] arg_cong [OF t(3), of idequeue] arg_cong [OF t(3), of ide_err]
      arg_cong [OF t(3), of havedisk1] arg_cong [OF t(3), of procs] arg_cong [OF t(3), of cur]
    by (simp_all add: nobio_def)
  ultimately show "bio_inv t" using inv t(1,2) by (simp add: bio_inv_def running_def)
  show lk: "locked_buf b (d, n) t" using b len fl u(1) by (simp add: locked_buf_def t)
  show "data_of b t = b_data u" using b len by (simp add: data_of_def t)
  have oth: "locked_buf b' k t \<longleftrightarrow> locked_buf b' k s" if "b' \<noteq> b" for b' k
    using that by (simp add: locked_buf_def t)
  have was: "\<not> locked_buf b k s" for k using b by (simp add: locked_buf_def)
  have "(\<exists>b'. locked_buf b' k t) \<longleftrightarrow> k = (d, n) \<or> (\<exists>b'. locked_buf b' k s)" for k
    using oth was lk by (metis locked_buf_def)
  then show "busy t = insert (d, n) (busy s)" by (auto simp: busy_def)
  show "other_locked b s t" using oth by (simp add: other_locked_def data_of_def t)
qed

lemma bread_spec:
  assumes inv: "bio_inv s" and a: "addr_ok d n" and nb: "(d, n) \<notin> busy s" and card: "card (busy s) < NBUF"
  shows "returns (bread d n s) (\<lambda>b t. bio_inv t \<and> locked_buf b (d, n) t \<and> data_of b t = disk s d n
    \<and> busy t = insert (d, n) (busy s) \<and> disk t = disk s \<and> nobio t = nobio s \<and> other_locked b s t)"
proof -
  obtain b u where g: "bget d n s = Ret b (s\<lparr>bufs := (bufs s)[b := u]\<rparr>)" and gb: "got_buf d n s b u"
    using bget_spec [OF assms] by blast
  have len: "length (bufs s) = NBUF + 1" by (rule bio_inv_length [OF inv])
  have b: "b < NBUF" using gb by (simp add: got_buf_def)
  let ?s1 = "s\<lparr>bufs := (bufs s)[b := u]\<rparr>"
  show ?thesis
  proof (cases "B_VALID \<in> b_flags u")
    case True
    then have "bread d n s = Ret b ?s1" using g b len by (simp add: bread_def)
    moreover note install_locked [where u = u and t = ?s1 and b = b, OF inv _ _ a]
    ultimately show ?thesis using gb True by (simp add: got_buf_def nobio_def)
  next
    case False
    have u: "b_dev u = d" "b_sector u = n" "B_BUSY \<in> b_flags u" "B_DIRTY \<notin> b_flags u"
      using gb by (auto simp: got_buf_def key_of_def)
    let ?u = "u\<lparr>b_qnext := None, b_data := disk s d n, b_flags := b_flags u \<union> {B_VALID} - {B_DIRTY}\<rparr>"
    let ?t = "s\<lparr>bufs := (bufs s)[b := ?u], ide_sel := (d, n)\<rparr>"
    have "iderw b ?s1 = Ret () (completed b ?s1)"
      using inv b len u False by (intro iderw_run) (auto simp: bio_inv_def running_def)
    moreover have "completed b ?s1 = ?t"
      using b len u a by (simp add: completed_def Let_def fun_upd_self)
    ultimately have "bread d n s = Ret b ?t" using g b len False by (simp add: bread_def)
    moreover note install_locked [where u = ?u and t = ?t and b = b, OF inv _ _ a]
    ultimately show ?thesis using gb False u by (auto simp: got_buf_def nobio_def key_of_def)
  qed
qed

lemma bwrite_spec:
  assumes inv: "bio_inv s" and lk: "locked_buf b (d, n) s" and len: "length (data_of b s) = BSIZE"
  shows "returns (bwrite b s) (\<lambda>_ t. bio_inv t \<and> locked_buf b (d, n) t \<and> data_of b t = data_of b s
    \<and> busy t = busy s \<and> disk t = (disk s)(d := (disk s d)(n := data_of b s)) \<and> nobio t = nobio s
    \<and> other_locked b s t)"
proof -
  let ?v = "bufs s ! b"
  have c: "cache_ok (disk s) (bufs s)" using inv by (simp add: bio_inv_def)
  have ln: "length (bufs s) = NBUF + 1" by (rule bio_inv_length [OF inv])
  have b: "b < NBUF" and v: "B_BUSY \<in> b_flags ?v" "b_dev ?v = d" "b_sector ?v = n"
    using lk by (auto simp: locked_buf_def key_of_def)
  have nu: "\<not> unused_buf ?v" using v by (auto simp: unused_buf_def)
  then have ok: "addr_ok d n" "B_VALID \<in> b_flags ?v" "B_DIRTY \<notin> b_flags ?v"
    using c b v by (auto simp: cache_ok_def buf_ok_def)
  let ?u = "?v\<lparr>b_qnext := None\<rparr>"
  let ?t = "s\<lparr>ide_sel := (d, n), disk := (disk s)(d := (disk s d)(n := b_data ?v)), bufs := (bufs s)[b := ?u]\<rparr>"
  let ?s1 = "upd_buf b (\<lambda>u. u\<lparr>b_flags := insert B_DIRTY (b_flags u)\<rparr>) s"
  have "iderw b ?s1 = Ret () (completed b ?s1)"
    using inv b ln v by (intro iderw_run) (auto simp: bio_inv_def running_def upd_buf_def)
  moreover have "completed b ?s1 = ?t"
    using b ln v ok by (simp add: completed_def Let_def upd_buf_def insert_absorb)
  ultimately have w: "bwrite b s = Ret () ?t" using v by (simp add: bwrite_def)
  have "cache_ok (disk s) ((bufs s)[b := ?u])"
  proof (rule cache_ok_upd [OF c b])
    show "buf_ok (disk s) ?u" using c b by (auto simp: cache_ok_def buf_ok_def unused_buf_def)
    show "\<not> unused_buf ?u" using nu by (simp add: unused_buf_def)
    show "key_of (bufs s ! j) \<noteq> key_of ?u" if "j < NBUF" "j \<noteq> b" for j
      using c b nu that unfolding cache_ok_def key_of_def by (metis buf.select_convs(2,3) buf.surjective buf.update_convs(6))
  qed simp_all
  then have "cache_ok (disk ?t) (bufs ?t)"
    using b ln v cache_ok_disk [of "disk s" "(bufs s)[b := ?u]" b d n] by (simp add: key_of_def)
  then have "bio_inv ?t"
    using inv len by (auto simp: bio_inv_def running_def data_of_def)
  moreover have lkt: "locked_buf b' k ?t \<longleftrightarrow> locked_buf b' k s" for b' k
    using b ln by (cases "b' = b") (auto simp: locked_buf_def key_of_def)
  moreover have "data_of b' ?t = data_of b' s" for b'
    using b ln by (cases "b' = b") (auto simp: data_of_def)
  ultimately show ?thesis
    using lk by (simp add: w busy_def other_locked_def nobio_def data_of_def)
qed


text \<open>Writing into a locked buffer.\<close>

lemma set_data_spec:
  assumes inv: "bio_inv s" and lk: "locked_buf b k s"
  shows "bio_inv (set_data b x s)" "locked_buf b k (set_data b x s)" "data_of b (set_data b x s) = x"
    "busy (set_data b x s) = busy s" "disk (set_data b x s) = disk s" "nobio (set_data b x s) = nobio s"
    "other_locked b s (set_data b x s)"
proof -
  let ?v = "bufs s ! b" and ?t = "set_data b x s"
  let ?u = "?v\<lparr>b_data := x\<rparr>"
  have c: "cache_ok (disk s) (bufs s)" using inv by (simp add: bio_inv_def)
  have ln: "length (bufs s) = NBUF + 1" by (rule bio_inv_length [OF inv])
  have b: "b < NBUF" "B_BUSY \<in> b_flags ?v" using lk by (auto simp: locked_buf_def)
  have t: "?t = s\<lparr>bufs := (bufs s)[b := ?u]\<rparr>" by (simp add: set_data_def upd_buf_def)
  have nu: "\<not> unused_buf ?v" using b by (auto simp: unused_buf_def)
  have "cache_ok (disk s) ((bufs s)[b := ?u])"
  proof (rule cache_ok_upd [OF c b(1)])
    show "buf_ok (disk s) ?u" using c b by (auto simp: cache_ok_def buf_ok_def unused_buf_def)
    show "\<not> unused_buf ?u" using nu by (simp add: unused_buf_def)
    have "key_of ?u = key_of ?v" by (simp add: key_of_def)
    then show "key_of (bufs s ! j) \<noteq> key_of ?u" if "j < NBUF" "j \<noteq> b" for j
      using c b nu that unfolding cache_ok_def by metis
  qed simp_all
  then show "bio_inv ?t" using inv by (auto simp: t bio_inv_def running_def)
  have lkt: "locked_buf b' k' ?t \<longleftrightarrow> locked_buf b' k' s" for b' k'
    using b ln by (cases "b' = b") (auto simp: t locked_buf_def key_of_def)
  with lk show "locked_buf b k ?t" "busy ?t = busy s" by (simp_all add: busy_def)
  show "data_of b ?t = x" using b ln by (simp add: t data_of_def)
  show "disk ?t = disk s" "nobio ?t = nobio s" by (simp_all add: t nobio_def)
  show "other_locked b s ?t" using lkt by (auto simp: other_locked_def t data_of_def)
qed

lemma cache_ok_cong:
  assumes c: "cache_ok dk bs" and r: "ring cs ord" "set ord = {..<NBUF}"
    and same: "\<And>i. i < NBUF \<Longrightarrow> b_flags (cs ! i) = b_flags (bs ! i) \<and> b_dev (cs ! i) = b_dev (bs ! i)
      \<and> b_sector (cs ! i) = b_sector (bs ! i) \<and> b_data (cs ! i) = b_data (bs ! i)"
  shows "cache_ok dk cs"
  using c r same by (auto simp: cache_ok_def buf_ok_def unused_buf_def key_of_def)

text \<open>Unlocking a buffer whose contents are on the disk keeps the cache coherent.\<close>

lemma cache_ok_unlock:
  assumes c: "cache_ok dk bs" and b: "b < NBUF" "B_BUSY \<in> b_flags (bs ! b)"
    and same: "b_data (bs ! b) = dk (b_dev (bs ! b)) (b_sector (bs ! b))"
  shows "cache_ok dk (bs[b := (bs ! b)\<lparr>b_flags := b_flags (bs ! b) - {B_BUSY}\<rparr>])"
    (is "cache_ok dk (bs[b := ?u])")
proof (rule cache_ok_upd [OF c b(1)])
  have nu: "\<not> unused_buf (bs ! b)" using b by (auto simp: unused_buf_def)
  then have ok: "addr_ok (b_dev (bs ! b)) (b_sector (bs ! b))" "B_VALID \<in> b_flags (bs ! b)" "B_DIRTY \<notin> b_flags (bs ! b)"
    using c b by (auto simp: cache_ok_def buf_ok_def)
  show "buf_ok dk ?u" using ok same by (simp add: buf_ok_def)
  show "\<not> unused_buf ?u" using ok by (auto simp: unused_buf_def)
  have "key_of ?u = key_of (bs ! b)" by (simp add: key_of_def)
  then show "key_of (bs ! j) \<noteq> key_of ?u" if "j < NBUF" "j \<noteq> b" for j
    using c b nu that unfolding cache_ok_def by metis
qed simp_all

text \<open>The order of the ring, most recently released first.\<close>

definition lru :: "'a kbio_scheme \<Rightarrow> nat list \<Rightarrow> bool" where
  "lru s ord \<longleftrightarrow> ring (bufs s) ord \<and> set ord = {..<NBUF}"

lemma brelse_run:
  assumes inv: "bio_inv s" and lk: "locked_buf b k s"
  shows "brelse b s = Ret () (upd_buf b (\<lambda>u. u\<lparr>b_flags := b_flags u - {B_BUSY}\<rparr>)
    (s\<lparr>bufs := link_front b (unlink_buf b (bufs s))\<rparr>))"
proof -
  have h: "held s = {}" "no_sleeper (ChBuf b) (procs s)" using inv by (auto simp: bio_inv_def)
  moreover have "B_BUSY \<in> b_flags (bufs s ! b)" using lk by (simp add: locked_buf_def)
  ultimately show ?thesis by (simp add: brelse_def Let_def upd_buf_def wakeup_quiet held_restore)
qed

lemma brelse_spec:
  assumes inv: "bio_inv s" and lk: "locked_buf b (d, n) s" and same: "data_of b s = disk s d n"
  shows "returns (brelse b s) (\<lambda>_ t. bio_inv t \<and> busy t = busy s - {(d, n)} \<and> disk t = disk s
    \<and> nobio t = nobio s \<and> other_locked b s t \<and> (\<forall>ord. lru s ord \<longrightarrow> lru t (b # remove1 b ord)))"
proof -
  let ?bs = "link_front b (unlink_buf b (bufs s))"
  let ?u = "(?bs ! b)\<lparr>b_flags := b_flags (?bs ! b) - {B_BUSY}\<rparr>"
  let ?t = "s\<lparr>bufs := ?bs[b := ?u]\<rparr>"
  have c: "cache_ok (disk s) (bufs s)" using inv by (simp add: bio_inv_def)
  have ln: "length (bufs s) = NBUF + 1" by (rule bio_inv_length [OF inv])
  have ln': "length (unlink_buf b (bufs s)) = NBUF + 1" "length ?bs = NBUF + 1"
    using ln by (simp_all add: unlink_buf_def link_front_def Let_def)
  have b: "b < NBUF" "B_BUSY \<in> b_flags (bufs s ! b)" and k: "b_dev (bufs s ! b) = d" "b_sector (bufs s ! b) = n"
    using lk by (auto simp: locked_buf_def key_of_def)
  note keeps = link_front_keeps [OF ln'(1) b(1)] unlink_buf_keeps [OF ln b(1)]
  have touch: "ring ?bs (b # remove1 b ord)" "set (b # remove1 b ord) = {..<NBUF}"
    if "ring (bufs s) ord \<and> set ord = {..<NBUF}" for ord
  proof -
    have so: "set ord = {..<NBUF}" "distinct ord" using that by (auto simp: ring_def)
    with b that show "ring ?bs (b # remove1 b ord)" by (intro ring_touch) auto
    show "set (b # remove1 b ord) = {..<NBUF}" using so b by (auto simp: set_remove1_eq)
  qed
  obtain ord where o: "ring (bufs s) ord \<and> set ord = {..<NBUF}" using c by (auto simp: cache_ok_def)
  have "cache_ok (disk s) ?bs" by (rule cache_ok_cong [OF c touch [OF o]]) (simp add: keeps)
  moreover have "b_data (?bs ! b) = disk s (b_dev (?bs ! b)) (b_sector (?bs ! b))"
    using k same by (simp add: keeps data_of_def)
  moreover have "B_BUSY \<in> b_flags (?bs ! b)" using b by (simp add: keeps)
  ultimately have c': "cache_ok (disk s) (?bs[b := ?u])"
    using b by (intro cache_ok_unlock)
  then have "bio_inv ?t" using inv by (auto simp: bio_inv_def running_def)
  have lkt: "locked_buf b' k' ?t \<longleftrightarrow> b' \<noteq> b \<and> locked_buf b' k' s" for b' k'
    using b ln' by (cases "b' = b") (auto simp: locked_buf_def key_of_def keeps)
  have one: "b' = b" if "locked_buf b' (d, n) s" for b'
    by (rule locked_unique [OF inv that lk])
  have "busy ?t = busy s - {(d, n)}"
  proof -
    have "(\<exists>b'. b' \<noteq> b \<and> locked_buf b' k' s) \<longleftrightarrow> (\<exists>b'. locked_buf b' k' s) \<and> k' \<noteq> (d, n)" for k'
      using one lk by (metis locked_buf_def)
    then show ?thesis unfolding busy_def lkt by blast
  qed
  moreover have "other_locked b s ?t" using lkt by (auto simp: other_locked_def data_of_def keeps)
  moreover have "lru ?t (b # remove1 b ord)" if "lru s ord" for ord
  proof -
    have t: "ring ?bs (b # remove1 b ord)" "set (b # remove1 b ord) = {..<NBUF}"
      using touch that unfolding lru_def by blast+
    show ?thesis unfolding lru_def using ring_upd [OF t(1), of ?u b] t(2) by simp
  qed
  moreover have "disk ?t = disk s" "nobio ?t = nobio s" by (simp_all add: nobio_def)
  moreover have "brelse b s = Ret () ?t" by (simp add: brelse_run [OF inv lk] upd_buf_def)
  ultimately show ?thesis
    using \<open>bio_inv ?t\<close> by simp
qed


section \<open>Start-up\<close>

text \<open>The cache as the loader leaves it: static storage, all zero.\<close>

definition bss_buf :: buf where
  "bss_buf = \<lparr>b_flags = {}, b_dev = 0, b_sector = 0, b_prev = 0, b_next = 0, b_qnext = None,
     b_data = replicate BSIZE 0\<rparr>"

definition quiet :: "'a kbio_scheme \<Rightarrow> bool" where
  "quiet s \<longleftrightarrow> idequeue s = None \<and> \<not> ide_err s \<and> havedisk1 s \<and> held s = {} \<and> running s
     \<and> (\<forall>i. no_sleeper (ChBuf i) (procs s)) \<and> (\<forall>d n. length (disk s d n) = BSIZE)"

abbreviation binit_step :: "nat \<Rightarrow> buf list \<Rightarrow> buf list" where
  "binit_step b bs \<equiv> link_front b (bs[b := (bs ! b)\<lparr>b_dev := 0xffffffff\<rparr>])"

lemma binit_fold:
  assumes "ring h []" "\<forall>i<NBUF. b_flags (h ! i) = {}" "m \<le> NBUF"
  shows "ring (fold binit_step [0..<m] h) (rev [0..<m])
    \<and> (\<forall>i<NBUF. b_flags (fold binit_step [0..<m] h ! i) = {})
    \<and> (\<forall>i<m. b_dev (fold binit_step [0..<m] h ! i) = 0xffffffff)"
  using assms(3)
proof (induction m)
  case 0
  then show ?case using assms by simp
next
  case (Suc m)
  let ?bs = "fold binit_step [0..<m] h"
  let ?cs = "?bs[m := (?bs ! m)\<lparr>b_dev := 0xffffffff\<rparr>]"
  have r: "ring ?bs (rev [0..<m])" and f: "\<forall>i<NBUF. b_flags (?bs ! i) = {}"
    and d: "\<forall>i<m. b_dev (?bs ! i) = 0xffffffff" using Suc by simp_all
  have m: "m < NBUF" "length ?bs = NBUF + 1" "length ?cs = NBUF + 1" using Suc.prems r by (auto simp: ring_def)
  have "ring ?cs (rev [0..<m])" using r by (rule ring_upd) simp_all
  then have "ring (link_front m ?cs) (m # rev [0..<m])" using m by (intro ring_link_front) auto
  then show ?case using f d m by (auto simp: link_front_keeps [OF m(3,1)] nth_upd less_Suc_eq)
qed

lemma binit_ok:
  assumes "bufs s = replicate (NBUF + 1) bss_buf" "quiet s"
  shows "bio_inv (binit s)" "lru (binit s) (rev [0..<NBUF])" "busy (binit s) = {}" "disk (binit s) = disk s"
    "nobio (binit s) = nobio s" "\<forall>i<NBUF. unused_buf (bufs (binit s) ! i)"
proof -
  let ?h = "(bufs s)[NBUF := (bufs s ! NBUF)\<lparr>b_prev := NBUF, b_next := NBUF\<rparr>]"
  have len: "length (bufs s) = NBUF + 1" unfolding assms(1) by (rule length_replicate)
  have nth: "bufs s ! i = bss_buf" if "i < NBUF + 1" for i
    unfolding assms(1) using that by (rule nth_replicate)
  have "ring ?h []" using len by (simp add: ring_def nth_upd)
  moreover have f: "\<forall>i<NBUF. b_flags (?h ! i) = {}" using len nth by (simp add: nth_upd bss_buf_def)
  ultimately have r: "ring (fold binit_step [0..<NBUF] ?h) (rev [0..<NBUF])"
    and f: "\<forall>i<NBUF. b_flags (fold binit_step [0..<NBUF] ?h ! i) = {}"
    and d: "\<forall>i<NBUF. b_dev (fold binit_step [0..<NBUF] ?h ! i) = 0xffffffff"
    using binit_fold [of ?h NBUF] by auto
  have b: "binit s = s\<lparr>bufs := fold binit_step [0..<NBUF] ?h\<rparr>" by (simp add: binit_def Let_def)
  show "\<forall>i<NBUF. unused_buf (bufs (binit s) ! i)" using f d by (simp add: b unused_buf_def)
  then have "cache_ok (disk s) (bufs (binit s))"
    using r by (auto simp: cache_ok_def b buf_ok_def intro!: exI [of _ "rev [0..<NBUF]"])
  then show "bio_inv (binit s)" using assms(2) by (auto simp: bio_inv_def quiet_def b running_def)
  show "lru (binit s) (rev [0..<NBUF])" using r by (auto simp: lru_def b)
  show "busy (binit s) = {}" using f by (auto simp: busy_def locked_buf_def b)
  show "disk (binit s) = disk s" "nobio (binit s) = nobio s" by (simp_all add: b nobio_def)
qed

section \<open>The contract of the block store\<close>

text \<open>The locked buffers of a state: which sector each holds, and its contents.\<close>

type_synonym held_bufs = "nat \<rightharpoonup> (uint \<times> uint) \<times> byte list"

definition bview :: "'a kbio_scheme \<Rightarrow> held_bufs" where
  "bview s b = (if locked_buf b (key_of (bufs s ! b)) s then Some (key_of (bufs s ! b), data_of b s) else None)"

definition keys :: "held_bufs \<Rightarrow> (uint \<times> uint) set" where
  "keys m = {k. \<exists>b x. m b = Some (k, x)}"

lemma keys_empty [simp]: "keys Map.empty = {}"
  by (simp add: keys_def)

lemma keys_upd: "m b = None \<Longrightarrow> keys (m(b \<mapsto> (k, x))) = insert k (keys m)"
  by (auto simp: keys_def) (metis option.distinct(1))

lemma keys_upd_same: "m b = Some (k, y) \<Longrightarrow> keys (m(b \<mapsto> (k, x))) = keys m"
  unfolding keys_def fun_upd_apply by (intro Collect_cong) (metis option.inject prod.inject)

lemma bview_Some: "bview s b = Some (k, x) \<longleftrightarrow> locked_buf b k s \<and> x = data_of b s"
  by (auto simp: bview_def locked_buf_def)

lemma bview_None: "bview s b = None \<longleftrightarrow> (\<forall>k. \<not> locked_buf b k s)"
  by (auto simp: bview_def locked_buf_def)

lemma busy_keys: "busy s = keys (bview s)"
  by (auto simp: busy_def keys_def bview_Some)

lemma bview_other:
  assumes "other_locked b s t" "b' \<noteq> b"
  shows "bview t b' = bview s b'"
proof -
  have l: "locked_buf b' k t = locked_buf b' k s" for k using assms unfolding other_locked_def by blast
  have d: "data_of b' t = data_of b' s" using assms by (simp add: other_locked_def)
  show ?thesis
  proof (cases "bview s b'")
    case None
    then show ?thesis using l by (metis bview_None)
  next
    case (Some y)
    then obtain k x where "bview s b' = Some (k, x)" by (cases y) auto
    then show ?thesis using l d by (metis bview_Some)
  qed
qed

lemma bview_locked:
  assumes "locked_buf b k t" "other_locked b s t"
  shows "bview t = (bview s)(b \<mapsto> (k, data_of b t))"
proof
  show "bview t b' = ((bview s)(b \<mapsto> (k, data_of b t))) b'" for b'
    using assms bview_other [OF assms(2)] by (cases "b' = b") (simp_all add: bview_Some)
qed

lemma bview_unlocked:
  assumes "\<forall>k. \<not> locked_buf b k t" "other_locked b s t"
  shows "bview t = (bview s)(b := None)"
proof
  show "bview t b' = ((bview s)(b := None)) b'" for b'
    using assms bview_other [OF assms(2)] by (cases "b' = b") (simp_all add: bview_None)
qed

lemma bread_fresh:
  assumes "bio_inv s" "addr_ok d n" "(d, n) \<notin> busy s" "card (busy s) < NBUF"
  shows "returns (bread d n s) (\<lambda>b t. bview s b = None)"
proof -
  obtain b u where g: "bget d n s = Ret b (s\<lparr>bufs := (bufs s)[b := u]\<rparr>)" and gb: "got_buf d n s b u"
    using bget_spec [OF assms] by blast
  have "bview s b = None" using gb by (simp add: got_buf_def bview_None locked_buf_def)
  with bread_spec [OF assms] g show ?thesis
    by (auto simp: returns_def bread_def outcome_simps)
qed

lemma brelse_unlocks:
  assumes inv: "bio_inv s" and l: "locked_buf b k s" and r: "brelse b s = Ret () t"
  shows "\<not> locked_buf b k' t"
proof -
  let ?bs = "link_front b (unlink_buf b (bufs s))"
  have t: "t = upd_buf b (\<lambda>u. u\<lparr>b_flags := b_flags u - {B_BUSY}\<rparr>) (s\<lparr>bufs := ?bs\<rparr>)"
    using r by (simp add: brelse_run [OF inv l])
  have "length ?bs = NBUF + 1" using bio_inv_length [OF inv] by (simp add: unlink_buf_def link_front_def Let_def)
  then show ?thesis using locked_bound [OF l] by (simp add: t upd_buf_def locked_buf_def)
qed

lemma bread_view:
  assumes "bio_inv s" "addr_ok d n" "(d, n) \<notin> keys (bview s)" "card (keys (bview s)) < NBUF"
  shows "returns (bread d n s) (\<lambda>b t. bio_inv t \<and> bview s b = None
    \<and> bview t = (bview s)(b \<mapsto> ((d, n), disk s d n)) \<and> disk t = disk s \<and> nobio t = nobio s)"
  using bread_spec [OF assms [folded busy_keys]] bread_fresh [OF assms [folded busy_keys]]
  by (auto simp: returns_def bview_None intro!: bview_locked [THEN trans])

lemma set_data_view:
  assumes "bio_inv s" "bview s b = Some (k, x)"
  shows "bio_inv (set_data b y s) \<and> bview (set_data b y s) = (bview s)(b \<mapsto> (k, y))
    \<and> disk (set_data b y s) = disk s \<and> nobio (set_data b y s) = nobio s"
proof -
  have l: "locked_buf b k s" using assms(2) by (simp add: bview_Some)
  note sp = set_data_spec [OF assms(1) l, of y]
  show ?thesis using sp(1,5,6) bview_locked [OF sp(2,7)] sp(3) by simp
qed

lemma bwrite_view:
  assumes "bio_inv s" "bview s b = Some ((d, n), x)" "length x = BSIZE"
  shows "returns (bwrite b s) (\<lambda>_ t. bio_inv t \<and> bview t = bview s
    \<and> disk t = (disk s)(d := (disk s d)(n := x)) \<and> nobio t = nobio s)"
proof -
  have l: "locked_buf b (d, n) s" "x = data_of b s" using assms(2) by (simp_all add: bview_Some)
  have "bview t = bview s" if "locked_buf b (d, n) t" "other_locked b s t" "data_of b t = data_of b s" for t
    using bview_locked [OF that(1,2)] assms(2) that(3) l by (simp add: fun_upd_idem)
  then show ?thesis using bwrite_spec [OF assms(1) l(1)] assms(3) l(2)
    by (fastforce simp: returns_def)
qed

lemma brelse_view:
  assumes "bio_inv s" "bview s b = Some ((d, n), disk s d n)"
  shows "returns (brelse b s) (\<lambda>_ t. bio_inv t \<and> bview t = (bview s)(b := None)
    \<and> disk t = disk s \<and> nobio t = nobio s)"
proof -
  have l: "locked_buf b (d, n) s" "data_of b s = disk s d n" using assms(2) by (simp_all add: bview_Some)
  have "bview t = (bview s)(b := None)"
    if "busy t = busy s - {(d, n)}" "other_locked b s t" "bio_inv t" "brelse b s = Ret () t" for t
    using bview_unlocked [OF _ that(2)] brelse_unlocks [OF assms(1) l(1) that(4)] by blast
  then show ?thesis using brelse_spec [OF assms(1) l]
    by (auto simp: returns_def)
qed

text \<open>What a client of the cache relies on.  \<open>view\<close> is the set of locked buffers, \<open>dsk\<close> the disk, \<open>rest\<close> the
  part of the state that the store leaves alone.\<close>

locale block_store =
  fixes rd :: "uint \<Rightarrow> uint \<Rightarrow> 's \<Rightarrow> (nat, 's) outcome"
    and wr rl :: "nat \<Rightarrow> 's \<Rightarrow> (unit, 's) outcome"
    and dat :: "nat \<Rightarrow> 's \<Rightarrow> byte list"
    and put :: "nat \<Rightarrow> byte list \<Rightarrow> 's \<Rightarrow> 's"
    and ok :: "'s \<Rightarrow> bool"
    and addr :: "uint \<Rightarrow> uint \<Rightarrow> bool"
    and view :: "'s \<Rightarrow> held_bufs"
    and dsk :: "'s \<Rightarrow> uint \<Rightarrow> uint \<Rightarrow> byte list"
    and rest :: "'s \<Rightarrow> 'r"
    and lim :: nat
  assumes rd_law: "ok s \<Longrightarrow> addr d n \<Longrightarrow> (d, n) \<notin> keys (view s) \<Longrightarrow> card (keys (view s)) < lim \<Longrightarrow>
      returns (rd d n s) (\<lambda>b t. ok t \<and> view s b = None \<and> view t = (view s)(b \<mapsto> ((d, n), dsk s d n))
        \<and> dsk t = dsk s \<and> rest t = rest s)"
    and put_law: "ok s \<Longrightarrow> view s b = Some (k, x) \<Longrightarrow>
      ok (put b y s) \<and> view (put b y s) = (view s)(b \<mapsto> (k, y)) \<and> dsk (put b y s) = dsk s
        \<and> rest (put b y s) = rest s"
    and wr_law: "ok s \<Longrightarrow> view s b = Some ((d, n), x) \<Longrightarrow> length x = BSIZE \<Longrightarrow>
      returns (wr b s) (\<lambda>_ t. ok t \<and> view t = view s \<and> dsk t = (dsk s)(d := (dsk s d)(n := x))
        \<and> rest t = rest s)"
    and rl_law: "ok s \<Longrightarrow> view s b = Some ((d, n), dsk s d n) \<Longrightarrow>
      returns (rl b s) (\<lambda>_ t. ok t \<and> view t = (view s)(b := None) \<and> dsk t = dsk s \<and> rest t = rest s)"
    and dat_law: "view s b = Some (k, x) \<Longrightarrow> dat b s = x"
    and len_law: "ok s \<Longrightarrow> length (dsk s d n) = BSIZE"
begin

text \<open>Rules for code that reads a block, and then releases it or writes it back.\<close>

lemma rd_bind:
  assumes "ok s" "addr d n" "(d, n) \<notin> keys (view s)" "card (keys (view s)) < lim"
    and "\<And>b t. ok t \<Longrightarrow> view s b = None \<Longrightarrow> view t = (view s)(b \<mapsto> ((d, n), dsk s d n)) \<Longrightarrow>
      dat b t = dsk s d n \<Longrightarrow> dsk t = dsk s \<Longrightarrow> rest t = rest s \<Longrightarrow> returns (f b t) Q"
  shows "returns (and_then (rd d n s) f) Q"
proof (rule returns_bind [OF rd_law [OF assms(1-4)]])
  fix b t
  assume t: "ok t \<and> view s b = None \<and> view t = (view s)(b \<mapsto> ((d, n), dsk s d n)) \<and> dsk t = dsk s \<and> rest t = rest s"
  then have "dat b t = dsk s d n" by (intro dat_law [of t b "(d, n)"]) simp
  with t show "returns (f b t) Q" using assms(5) by blast
qed

lemma rl_bind:
  assumes "ok t" "view s b = None" "view t = (view s)(b \<mapsto> ((d, n), dsk t d n))"
    and "\<And>u. ok u \<Longrightarrow> view u = view s \<Longrightarrow> dsk u = dsk t \<Longrightarrow> rest u = rest t \<Longrightarrow> returns (f () u) Q"
  shows "returns (and_then (rl b t) f) Q"
proof -
  have v: "view t b = Some ((d, n), dsk t d n)" using assms(3) by simp
  have w: "(view t)(b := None) = view s" using assms(2,3) by (simp add: fun_upd_idem)
  show ?thesis
    by (rule returns_bind [OF rl_law [OF assms(1) v, unfolded w]]) (use assms(4) in auto)
qed

lemma wr_rl_bind:
  assumes "ok t" "view s b = None" "view t = (view s)(b \<mapsto> ((d, n), x))" "length y = BSIZE"
    and f: "\<And>u. ok u \<Longrightarrow> view u = view s \<Longrightarrow> dsk u = (dsk t)(d := (dsk t d)(n := y)) \<Longrightarrow> rest u = rest t \<Longrightarrow>
      returns (f () u) Q"
  shows "returns (and_then (wr b (put b y t)) (\<lambda>_ u. and_then (rl b u) f)) Q"
proof -
  have v: "view t b = Some ((d, n), x)" using assms(3) by simp
  note p = put_law [OF assms(1) v, of y]
  have "returns (wr b (put b y t)) (\<lambda>_ u. ok u \<and> view u = (view s)(b \<mapsto> ((d, n), y))
      \<and> dsk u = (dsk t)(d := (dsk t d)(n := y)) \<and> rest u = rest t)"
    using wr_law [of "put b y t" b d n y] p assms(3,4) by simp
  then show ?thesis
    by (rule returns_bind, elim conjE, intro rl_bind [where s = s and d = d and n = n]) (simp_all add: assms(2) f)
qed

text \<open>Read-only and read-modify-write access to one block.\<close>

lemma peek:
  assumes "ok s" "addr d n" "(d, n) \<notin> keys (view s)" "card (keys (view s)) < lim"
  shows "returns (and_then (rd d n s) (\<lambda>b t. and_then (rl b t) (\<lambda>_ u. Ret (g (dat b t)) u)))
    (\<lambda>x u. x = g (dsk s d n) \<and> ok u \<and> view u = view s \<and> dsk u = dsk s \<and> rest u = rest s)"
  by (rule rd_bind [OF assms], rule rl_bind [where s = s and d = d and n = n]) simp_all

lemma modify:
  assumes "ok s" "addr d n" "(d, n) \<notin> keys (view s)" "card (keys (view s)) < lim"
    and "length (g (dsk s d n)) = BSIZE"
  shows "returns (and_then (rd d n s) (\<lambda>b t. and_then (wr b (put b (g (dat b t)) t)) (\<lambda>_ u. rl b u)))
    (\<lambda>_ u. ok u \<and> view u = view s \<and> dsk u = (dsk s)(d := (dsk s d)(n := g (dsk s d n))) \<and> rest u = rest s)"
  using rd_bind [OF assms(1-4), of "\<lambda>b t. and_then (wr b (put b (g (dat b t)) t)) (\<lambda>_ u. and_then (rl b u) Ret)"]
    wr_rl_bind [where s = s and d = d and n = n and f = Ret] assms(5) by simp

end

interpretation bs: block_store bread bwrite brelse data_of set_data bio_inv addr_ok bview disk nobio NBUF
proof
  show "data_of b s = x" if "bview s b = Some (k, x)" for s :: "'a kbio_scheme" and b k x
    using that by (simp add: bview_Some)
  show "length (disk s d n) = BSIZE" if "bio_inv s" for s :: "'a kbio_scheme" and d n
    using that by (simp add: bio_inv_def)
qed (fact bread_view set_data_view bwrite_view brelse_view)+

section \<open>The properties of the cache\<close>

text \<open>A process that runs in the kernel, for examples.\<close>

definition zero_tf :: trapframe where
  "zero_tf = \<lparr>tf_edi = 0, tf_esi = 0, tf_ebp = 0, tf_oesp = 0, tf_ebx = 0, tf_edx = 0, tf_ecx = 0, tf_eax = 0, tf_gs = 0, tf_fs = 0, tf_es = 0,
     tf_ds = 0, tf_trapno = 0, tf_err = 0, tf_eip = 0, tf_cs = 0, tf_eflags = 0, tf_esp = 0, tf_ss = 0\<rparr>"

definition zero_context :: kcontext where
  "zero_context = \<lparr>ctx_edi = 0, ctx_esi = 0, ctx_ebx = 0, ctx_ebp = 0, ctx_eip = 0\<rparr>"

definition zero_proc :: proc where
  "zero_proc = \<lparr>p_sz = 0, p_pgdir = 0, p_kstack = 0, p_state = UNUSED, p_pid = 0, p_parent = None, p_tf = zero_tf,
     p_context = zero_context, p_chan = ChNull, p_killed = False, p_ofile = replicate NOFILE None, p_cwd = None,
     p_name = replicate 16 0\<rparr>"

definition boot_bio :: kbio where
  "boot_bio = binit \<lparr>held = {}, procs = [zero_proc\<lparr>p_state := RUNNING, p_pid := 1\<rparr>], cur = Some 0, nextpid = 2,
     initproc = Some 0, ticks = 0, bufs = replicate (NBUF + 1) bss_buf, idequeue = None, havedisk1 = True,
     ide_sel = (0, 0), ide_err = False, disk = (\<lambda>_ _. replicate BSIZE 0)\<rparr>"

lemma boot_bio:
  "bio_inv boot_bio" "lru boot_bio (rev [0..<NBUF])" "busy boot_bio = {}" "disk boot_bio = (\<lambda>_ _. replicate BSIZE 0)"
  "\<forall>i<NBUF. unused_buf (bufs boot_bio ! i)"
proof -
  let ?s = "\<lparr>held = {}, procs = [zero_proc\<lparr>p_state := RUNNING, p_pid := 1\<rparr>], cur = Some 0, nextpid = 2,
     initproc = Some 0, ticks = 0, bufs = replicate (NBUF + 1) bss_buf, idequeue = None, havedisk1 = True,
     ide_sel = (0, 0), ide_err = False, disk = (\<lambda>_ _. replicate BSIZE 0)\<rparr> :: kbio"
  have b: "bufs ?s = replicate (NBUF + 1) bss_buf" by (simp only: kbio.select_convs)
  have q: "quiet ?s" by (simp add: quiet_def running_def no_sleeper_def zero_proc_def)
  show "bio_inv boot_bio" "lru boot_bio (rev [0..<NBUF])" "busy boot_bio = {}"
    "\<forall>i<NBUF. unused_buf (bufs boot_bio ! i)"
    unfolding boot_bio_def using binit_ok [OF b q] by blast+
  show "disk boot_bio = (\<lambda>_ _. replicate BSIZE 0)"
    unfolding boot_bio_def binit_ok(4) [OF b q] by (simp only: kbio.select_convs)
qed

lemma addr_ok_1: "addr_ok 1 n \<longleftrightarrow> n < 0x10000000"
  by (simp add: addr_ok_def)

text \<open>C12: Writing through the cache.  With no buffer locked, reading a sector, overwriting the buffer,
  \<open>bwrite\<close> and \<open>brelse\<close> succeed, and a later \<open>bread\<close> of any sector returns a buffer that holds what was
  written if it is the same sector and the old contents of the disk otherwise.\<close>

theorem bio_write_read:
  assumes inv: "bio_inv s" and idle: "busy s = {}" and len: "length x = BSIZE"
    and a: "addr_ok d n" "addr_ok d' n'"
  shows "returns
    (and_then (and_then (bread d n s) (\<lambda>b t. and_then (bwrite b (set_data b x t)) (\<lambda>_ u. brelse b u)))
      (\<lambda>_ u. bread d' n' u))
    (\<lambda>b t. data_of b t = (if (d', n') = (d, n) then x else disk s d' n') \<and> busy t = {(d', n')})"
proof -
  have v: "keys (bview s) = {}" using idle by (simp add: busy_keys)
  then have w: "returns (and_then (bread d n s) (\<lambda>b t. and_then (bwrite b (set_data b x t)) (\<lambda>_ u. brelse b u)))
    (\<lambda>_ u. bio_inv u \<and> bview u = bview s \<and> disk u = (disk s)(d := (disk s d)(n := x)) \<and> nobio u = nobio s)"
    using bs.modify [OF inv a(1), of "\<lambda>_. x"] len by (simp add: NBUF_def)
  show ?thesis
  proof (rule returns_bind [OF w], clarify)
    fix u assume u: "bio_inv u" "bview u = bview s" "disk u = (disk s)(d := (disk s d)(n := x))"
    then have "returns (bread d' n' u) (\<lambda>b t. data_of b t = disk u d' n' \<and> busy t = insert (d', n') (busy u))"
      using bread_spec [OF u(1) a(2)] v by (auto simp: busy_keys NBUF_def elim: returns_mono)
    then show "returns (bread d' n' u) (\<lambda>b t. data_of b t = (if (d', n') = (d, n) then x else disk s d' n')
        \<and> busy t = {(d', n')})"
      using u v by (auto simp: busy_keys elim!: returns_mono)
  qed
qed

theorem bio_write_read_witness:
  "returns (and_then (and_then (bread 1 7 boot_bio) (\<lambda>b t. and_then (bwrite b (set_data b (replicate BSIZE 5) t))
      (\<lambda>_ u. brelse b u))) (\<lambda>_ u. bread 1 7 u))
    (\<lambda>b t. data_of b t = (if (1 :: uint, 7 :: uint) = (1, 7) then replicate BSIZE 5 else disk boot_bio 1 7)
      \<and> busy t = {(1, 7)})"
  by (rule bio_write_read) (simp_all add: boot_bio addr_ok_1)

lemma lru_walks:
  assumes "lru s ord"
  shows "walk b_next P (bufs s) (Suc NBUF) (nx (bufs s) NBUF) = Some (find (\<lambda>i. P (bufs s ! i)) ord)"
    "walk b_prev P (bufs s) (Suc NBUF) (pv (bufs s) NBUF) = Some (find (\<lambda>i. P (bufs s ! i)) (rev ord))"
proof -
  have o: "ring (bufs s) ord" "set ord = {..<NBUF}" using assms by (simp_all add: lru_def)
  then have "length ord = NBUF" by (metis card_lessThan distinct_card ring_def)
  then show "walk b_next P (bufs s) (Suc NBUF) (nx (bufs s) NBUF) = Some (find (\<lambda>i. P (bufs s ! i)) ord)"
    using o by (intro walk_seg) (auto simp: ring_def)
  show "walk b_prev P (bufs s) (Suc NBUF) (pv (bufs s) NBUF) = Some (find (\<lambda>i. P (bufs s ! i)) (rev ord))"
    using o \<open>length ord = NBUF\<close> by (intro walk_seg) (auto simp: ring_def)
qed

lemma key_unique:
  assumes "bio_inv s" "i < NBUF" "j < NBUF" "\<not> unused_buf (bufs s ! i)" "key_of (bufs s ! i) = key_of (bufs s ! j)"
  shows "i = j"
  using assms unfolding bio_inv_def cache_ok_def by blast

lemma find_locked:
  assumes inv: "bio_inv s" and l: "lru s ord" and b: "locked_buf b (d, n) s"
  shows "find (\<lambda>i. b_dev (bufs s ! i) = d \<and> b_sector (bufs s ! i) = n) ord = Some b"
proof -
  let ?P = "\<lambda>i. b_dev (bufs s ! i) = d \<and> b_sector (bufs s ! i) = n"
  have P: "?P b" "b \<in> set ord" using b l by (auto simp: locked_buf_def key_of_def lru_def)
  then have "find ?P ord \<noteq> None" unfolding find_None_iff by blast
  then obtain c where c: "find ?P ord = Some c" by blast
  have so: "set ord = {..<NBUF}" using l by (simp add: lru_def)
  have "c < NBUF" "key_of (bufs s ! c) = (d, n)"
    using find_Some_in [OF c] so by (simp_all add: key_of_def)
  moreover have "\<not> unused_buf (bufs s ! b)" using b by (auto simp: locked_buf_def unused_buf_def)
  ultimately have "b = c" using b key_unique [OF inv, of b c] by (simp add: locked_buf_def)
  with c show ?thesis by simp
qed

lemma bget_busy:
  assumes inv: "bio_inv s" and l: "lru s ord" and b: "locked_buf b (d, n) s"
  shows "\<exists>t. bget d n s = Sleep (ChBuf b) t"
proof -
  obtain p where p: "cur s = Some p" "p < length (procs s)" and h: "held s = {}"
    using inv by (auto simp: bio_inv_def running_def)
  have "B_BUSY \<in> b_flags (bufs s ! b)" using b by (simp add: locked_buf_def)
  then show ?thesis
    using find_locked [OF assms] h p
    by (simp add: bget_def lru_walks(1) [OF l] sleep_def sleep_enter_run del: walk.simps)
qed

lemma no_free_buf:
  assumes inv: "bio_inv s" and card: "card (busy s) = NBUF" and i: "i < NBUF"
  shows "B_BUSY \<in> b_flags (bufs s ! i)"
proof (rule ccontr)
  assume n: "B_BUSY \<notin> b_flags (bufs s ! i)"
  let ?k = "\<lambda>j. key_of (bufs s ! j)"
  have "busy s \<subseteq> ?k ` ({..<NBUF} - {i})" using n unfolding busy_def locked_buf_def by blast
  then have "card (busy s) \<le> card ({..<NBUF} - {i})" by (intro surj_card_le) auto
  with card i show False by (simp add: NBUF_def)
qed

lemma bget_full:
  assumes inv: "bio_inv s" and l: "lru s ord" and nb: "(d, n) \<notin> busy s" and card: "card (busy s) = NBUF"
  shows "bget d n s = Panic ''bget: no buffers''"
proof -
  have h: "held s = {}" using inv by (auto simp: bio_inv_def)
  have bz: "B_BUSY \<in> b_flags (bufs s ! i)" if "i < NBUF" for i using no_free_buf [OF inv card that] .
  have "find (\<lambda>i. b_dev (bufs s ! i) = d \<and> b_sector (bufs s ! i) = n) ord = None"
    using nb bz l by (auto simp: find_None_iff busy_def locked_buf_def key_of_def lru_def)
  moreover have "find (\<lambda>i. B_BUSY \<notin> b_flags (bufs s ! i)) (rev ord) = None"
    using bz l by (auto simp: find_None_iff lru_def)
  ultimately show ?thesis
    using h by (simp add: bget_def lru_walks [OF l] del: walk.simps)
qed

lemma bget_victim:
  assumes inv: "bio_inv s" and l: "lru s ord" and r: "bget d n s = Ret b t"
  shows "if \<exists>i<NBUF. key_of (bufs s ! i) = (d, n) then key_of (bufs s ! b) = (d, n)
    else Some b = find (\<lambda>i. B_BUSY \<notin> b_flags (bufs s ! i)) (rev ord)"
proof -
  have h: "held s = {}" using inv by (auto simp: bio_inv_def)
  let ?f = "find (\<lambda>i. b_dev (bufs s ! i) = d \<and> b_sector (bufs s ! i) = n) ord"
  show ?thesis
  proof (cases ?f)
    case None
    then have "\<not> (\<exists>i<NBUF. key_of (bufs s ! i) = (d, n))"
      using l by (auto simp: find_None_iff lru_def key_of_def)
    then show ?thesis using r None h
      by (auto simp: bget_def lru_walks [OF l] outcome_simps simp del: walk.simps split: option.splits)
  next
    case (Some c)
    then have "key_of (bufs s ! c) = (d, n)" "c < NBUF"
      using l find_Some_in [OF Some] by (auto simp: lru_def key_of_def)
    moreover have "b = c" using r Some h
      by (auto simp: bget_def lru_walks [OF l] sleep_def outcome_simps simp del: walk.simps split: if_splits)
    ultimately show ?thesis by auto
  qed
qed

text \<open>C20: \<open>bget\<close> on every branch.  The block is locked: the caller sleeps on its buffer.  Every buffer is
  locked for other blocks: panic.  Otherwise: a buffer of the block, now locked; the buffer of the cached
  copy when there is one, else the least recently released of the buffers that are not locked.\<close>

theorem bget_cases:
  assumes inv: "bio_inv s" and a: "addr_ok d n" and l: "lru s ord"
  shows "((d, n) \<in> busy s \<longrightarrow> (\<exists>b t. locked_buf b (d, n) s \<and> bget d n s = Sleep (ChBuf b) t))
    \<and> ((d, n) \<notin> busy s \<and> card (busy s) = NBUF \<longrightarrow> bget d n s = Panic ''bget: no buffers'')
    \<and> ((d, n) \<notin> busy s \<and> card (busy s) < NBUF \<longrightarrow>
        returns (bget d n s) (\<lambda>b t. locked_buf b (d, n) t
          \<and> (if \<exists>i<NBUF. key_of (bufs s ! i) = (d, n) then key_of (bufs s ! b) = (d, n)
             else Some b = find (\<lambda>i. B_BUSY \<notin> b_flags (bufs s ! i)) (rev ord))))"
proof (intro conjI impI)
  show "\<exists>b t. locked_buf b (d, n) s \<and> bget d n s = Sleep (ChBuf b) t" if "(d, n) \<in> busy s"
    using that bget_busy [OF inv l] by (auto simp: busy_def)
  show "bget d n s = Panic ''bget: no buffers''" if "(d, n) \<notin> busy s \<and> card (busy s) = NBUF"
    using that bget_full [OF inv l] by blast
  assume "(d, n) \<notin> busy s \<and> card (busy s) < NBUF"
  then obtain b u where g: "bget d n s = Ret b (s\<lparr>bufs := (bufs s)[b := u]\<rparr>)" "got_buf d n s b u"
    using bget_spec [OF inv a] by blast
  then have "locked_buf b (d, n) (s\<lparr>bufs := (bufs s)[b := u]\<rparr>)"
    using bio_inv_length [OF inv] by (simp add: got_buf_def locked_buf_def)
  with bget_victim [OF inv l g(1)] g(1) show "returns (bget d n s) (\<lambda>b t. locked_buf b (d, n) t
      \<and> (if \<exists>i<NBUF. key_of (bufs s ! i) = (d, n) then key_of (bufs s ! b) = (d, n)
         else Some b = find (\<lambda>i. B_BUSY \<notin> b_flags (bufs s ! i)) (rev ord)))" by simp
qed

theorem bget_cases_witness:
  "returns (bget 1 7 boot_bio) (\<lambda>b t. locked_buf b (1, 7) t
     \<and> (if \<exists>i<NBUF. key_of (bufs boot_bio ! i) = (1, 7) then key_of (bufs boot_bio ! b) = (1, 7)
        else Some b = find (\<lambda>i. B_BUSY \<notin> b_flags (bufs boot_bio ! i)) (rev (rev [0..<NBUF]))))"
  using bget_cases [OF boot_bio(1) _ boot_bio(2), of 1 7] by (simp add: boot_bio addr_ok_1 NBUF_def)

text \<open>C19: \<open>brelse\<close> implements move-to-front.  Releasing a buffer whose contents are on the disk unlocks exactly
  its sector, leaves the disk and the other locked buffers alone, and makes the buffer the first of the
  doubly linked ring, the others in their old order.\<close>

theorem brelse_move_to_front:
  assumes "bio_inv s" "lru s ord" "locked_buf b (d, n) s" "data_of b s = disk s d n"
  shows "returns (brelse b s) (\<lambda>_ t. bio_inv t \<and> lru t (b # remove1 b ord) \<and> busy t = busy s - {(d, n)}
    \<and> disk t = disk s \<and> nobio t = nobio s \<and> other_locked b s t)"
  using brelse_spec [OF assms(1,3,4)] assms(2) by (auto elim: returns_mono)

theorem brelse_move_to_front_witness:
  "returns (bread 1 7 boot_bio) (\<lambda>b t. \<exists>ord. lru t ord \<and>
     returns (brelse b t) (\<lambda>_ u. bio_inv u \<and> lru u (b # remove1 b ord) \<and> busy u = busy t - {(1, 7)}
       \<and> disk u = disk t \<and> nobio u = nobio t \<and> other_locked b t u))"
proof (rule returns_mono)
  show "returns (bread 1 7 boot_bio) (\<lambda>b t. bio_inv t \<and> locked_buf b (1, 7) t \<and> data_of b t = disk boot_bio 1 7
    \<and> busy t = insert (1, 7) (busy boot_bio) \<and> disk t = disk boot_bio \<and> nobio t = nobio boot_bio
    \<and> other_locked b boot_bio t)"
    by (rule bread_spec) (simp_all add: boot_bio addr_ok_1 NBUF_def)
next
  fix b t
  assume t: "bio_inv t \<and> locked_buf b (1, 7) t \<and> data_of b t = disk boot_bio 1 7
    \<and> busy t = insert (1, 7) (busy boot_bio) \<and> disk t = disk boot_bio \<and> nobio t = nobio boot_bio
    \<and> other_locked b boot_bio t"
  then obtain ord where o: "lru t ord" by (auto simp: bio_inv_def cache_ok_def lru_def)
  have d: "data_of b t = disk t 1 7" using t by simp
  show "\<exists>ord. lru t ord \<and> returns (brelse b t) (\<lambda>_ u. bio_inv u \<and> lru u (b # remove1 b ord)
      \<and> busy u = busy t - {(1, 7)} \<and> disk u = disk t \<and> nobio u = nobio t \<and> other_locked b t u)"
    using o brelse_move_to_front [OF _ o _ d] t by blast
qed

end
