(* ===== verification/CString.thy ===== *)
theory CString
  imports Layout
begin

text \<open>
  The string and memory routines of \<^verbatim>\<open>src/5/xv6/string.c\<close> (kernel) and
  \<^verbatim>\<open>src/5/xv6/ulib.c\<close> (user library).

  A C string is the list of bytes a pointer leads to; it ends at its first zero byte, and the end
  of the list stands for the terminating zero (\<open>peek0\<close>).  \<open>cstr\<close> is the string proper.
  \<open>memmove\<close> works on one array with a source and a destination offset, since what it promises is
  about overlapping ranges.
\<close>

definition peek0 :: "byte list \<Rightarrow> byte" where
  "peek0 s = (case s of [] \<Rightarrow> 0 | c # _ \<Rightarrow> c)"

definition cstr :: "byte list \<Rightarrow> byte list" where
  "cstr s = takeWhile (\<lambda>c. c \<noteq> 0) s"

definition bytes_of :: "string \<Rightarrow> byte list" where
  "bytes_of s = map of_char s"

lemma peek0_simps [simp]: "peek0 [] = 0" "peek0 (c # s) = c"
  by (simp_all add: peek0_def)

lemma cstr_simps [simp]: "cstr [] = []" "cstr (c # s) = (if c = 0 then [] else c # cstr s)"
  by (simp_all add: cstr_def)

section \<open>Kernel: string.c\<close>

subsection \<open>Memory\<close>

definition memset_out :: "byte \<Rightarrow> nat \<Rightarrow> byte list" where
  "memset_out c n = replicate n c"

fun memcmp :: "byte list \<Rightarrow> byte list \<Rightarrow> nat \<Rightarrow> int" where
  "memcmp s1 s2 0 = 0"
| "memcmp s1 s2 (Suc n) =
     (if s1 ! 0 \<noteq> s2 ! 0 then uint (s1 ! 0) - uint (s2 ! 0)
      else memcmp (tl s1) (tl s2) n)"

fun copy_up :: "byte list \<Rightarrow> nat \<Rightarrow> nat \<Rightarrow> nat \<Rightarrow> byte list" where
  "copy_up m d s 0 = m"
| "copy_up m d s (Suc n) = copy_up (m[d := m ! s]) (Suc d) (Suc s) n"

fun copy_down :: "byte list \<Rightarrow> nat \<Rightarrow> nat \<Rightarrow> nat \<Rightarrow> byte list" where
  "copy_down m d s 0 = m"
| "copy_down m d s (Suc n) = copy_down (m[d - 1 := m ! (s - 1)]) (d - 1) (s - 1) n"

definition memmove :: "byte list \<Rightarrow> nat \<Rightarrow> nat \<Rightarrow> nat \<Rightarrow> byte list" where
  "memmove m dst src n =
     (if src < dst \<and> dst < src + n then copy_down m (dst + n) (src + n) n
      else copy_up m dst src n)"

definition memcpy :: "byte list \<Rightarrow> nat \<Rightarrow> nat \<Rightarrow> nat \<Rightarrow> byte list" where
  "memcpy m dst src n = memmove m dst src n"

subsection \<open>Strings\<close>

fun strncmp :: "byte list \<Rightarrow> byte list \<Rightarrow> nat \<Rightarrow> int" where
  "strncmp p q 0 = 0"
| "strncmp p q (Suc n) =
     (if peek0 p \<noteq> 0 \<and> peek0 p = peek0 q then strncmp (tl p) (tl q) n
      else uint (peek0 p) - uint (peek0 q))"

text \<open>The bytes \<open>strncpy(s, t, n)\<close> writes at \<open>s\<close>: the string, then zeroes up to \<open>n\<close> bytes.\<close>

fun strncpy_out :: "byte list \<Rightarrow> nat \<Rightarrow> byte list" where
  "strncpy_out t 0 = []"
| "strncpy_out t (Suc n) =
     (if peek0 t \<noteq> 0 then peek0 t # strncpy_out (tl t) n else 0 # replicate n 0)"

definition strncpy :: "byte list \<Rightarrow> byte list \<Rightarrow> nat \<Rightarrow> byte list" where
  "strncpy s t n = put_at s 0 (strncpy_out t n)"

text \<open>\<open>safestrcpy_out t m\<close> is what the loop of \<open>safestrcpy\<close> writes when it may copy \<open>m\<close> bytes,
  with the final \<^verbatim>\<open>*s = 0\<close>.  After copying a zero byte \<^verbatim>\<open>s\<close> has moved past it, so a second
  zero follows.\<close>

fun safestrcpy_out :: "byte list \<Rightarrow> nat \<Rightarrow> byte list" where
  "safestrcpy_out t 0 = [0]"
| "safestrcpy_out t (Suc m) =
     (if peek0 t \<noteq> 0 then peek0 t # safestrcpy_out (tl t) m else [0, 0])"

definition safestrcpy :: "byte list \<Rightarrow> byte list \<Rightarrow> int \<Rightarrow> byte list" where
  "safestrcpy s t n = (if n \<le> 0 then s else put_at s 0 (safestrcpy_out t (nat n - 1)))"

fun strlen :: "byte list \<Rightarrow> nat" where
  "strlen [] = 0"
| "strlen (c # s) = (if c = 0 then 0 else Suc (strlen s))"

section \<open>User library: ulib.c\<close>

fun strcpy_out :: "byte list \<Rightarrow> byte list" where
  "strcpy_out [] = [0]"
| "strcpy_out (c # t) = (if c = 0 then [0] else c # strcpy_out t)"

definition strcpy :: "byte list \<Rightarrow> byte list \<Rightarrow> byte list" where
  "strcpy s t = put_at s 0 (strcpy_out t)"

function strcmp :: "byte list \<Rightarrow> byte list \<Rightarrow> int" where
  "strcmp p q =
     (if peek0 p \<noteq> 0 \<and> peek0 p = peek0 q then strcmp (tl p) (tl q)
      else uint (peek0 p) - uint (peek0 q))"
  by pat_completeness auto
termination
  by (relation "measure (\<lambda>(p, q). length p)") (auto simp: peek0_def split: list.splits)

declare strcmp.simps [simp del]

fun strchr :: "byte list \<Rightarrow> byte \<Rightarrow> nat option" where
  "strchr [] c = None"
| "strchr (x # s) c = (if x = 0 then None else if x = c then Some 0 else map_option Suc (strchr s c))"

text \<open>\<open>gets\<close> reads single bytes; the argument is what successive reads of descriptor 0 return
  (the list ends where a read returns less than 1).  The result is what is left in the buffer.\<close>

fun gets_loop :: "byte list \<Rightarrow> nat \<Rightarrow> nat \<Rightarrow> byte list" where
  "gets_loop inp i mx =
     (if i + 1 < mx then
        (case inp of [] \<Rightarrow> []
         | c # inp' \<Rightarrow> if c = 10 \<or> c = 13 then [c] else c # gets_loop inp' (i + 1) mx)
      else [])"

definition gets :: "byte list \<Rightarrow> nat \<Rightarrow> byte list" where
  "gets inp mx = gets_loop inp 0 mx @ [0]"

fun atoi_loop :: "byte list \<Rightarrow> uint \<Rightarrow> uint" where
  "atoi_loop [] n = n"
| "atoi_loop (c # s) n = (if 48 \<le> c \<and> c \<le> 57 then atoi_loop s (n * 10 + ucast c - 48) else n)"

definition atoi :: "byte list \<Rightarrow> uint" where
  "atoi s = atoi_loop s 0"

definition user_memmove :: "byte list \<Rightarrow> nat \<Rightarrow> nat \<Rightarrow> int \<Rightarrow> byte list" where
  "user_memmove m dst src n = copy_up m dst src (nat n)"

section \<open>Lemmas\<close>

lemma length_copy_up [simp]: "length (copy_up m d s n) = length m"
  by (induction m d s n rule: copy_up.induct) auto

lemma length_copy_down [simp]: "length (copy_down m d s n) = length m"
  by (induction m d s n rule: copy_down.induct) auto

lemma nth_copy_up:
  assumes "d + n \<le> length m" "s + n \<le> length m" "d \<le> s \<or> s + n \<le> d" "i < length m"
  shows "copy_up m d s n ! i = (if d \<le> i \<and> i < d + n then m ! (s + (i - d)) else m ! i)"
  using assms
proof (induction m d s n rule: copy_up.induct)
  case (2 m d s n)
  then have "copy_up (m[d := m ! s]) (Suc d) (Suc s) n ! i
      = (if Suc d \<le> i \<and> i < Suc d + n then m[d := m ! s] ! (Suc s + (i - Suc d)) else m[d := m ! s] ! i)"
    by auto
  then show ?case using "2.prems"
    by (auto simp: nth_list_update intro!: arg_cong [where f = "(!) m"])
qed auto

lemma nth_copy_down:
  assumes "n \<le> d" "d \<le> length m" "n \<le> s" "s \<le> d" "i < length m"
  shows "copy_down m d s n ! i = (if d - n \<le> i \<and> i < d then m ! (i - (d - s)) else m ! i)"
  using assms
proof (induction m d s n rule: copy_down.induct)
  case (2 m d s n)
  then have "copy_down (m[d - 1 := m ! (s - 1)]) (d - 1) (s - 1) n ! i
      = (if d - 1 - n \<le> i \<and> i < d - 1 then m[d - 1 := m ! (s - 1)] ! (i - (d - 1 - (s - 1)))
         else m[d - 1 := m ! (s - 1)] ! i)"
    by auto
  then show ?case using "2.prems" by (auto simp: nth_list_update)
qed simp

lemma copy_up_disjoint:
  assumes "d + n \<le> length m" "s + n \<le> length m" "d \<le> s \<or> s + n \<le> d"
  shows "copy_up m d s n = put_at m d (chunk m s n)"
  using assms by (intro nth_equalityI) (auto simp: nth_put_at nth_chunk nth_copy_up)

lemma copy_down_overlap:
  assumes "d + n \<le> length m" "s \<le> d"
  shows "copy_down m (d + n) (s + n) n = put_at m d (chunk m s n)"
  using assms
  by (intro nth_equalityI) (auto simp: nth_put_at nth_chunk nth_copy_down intro!: arg_cong [where f = "(!) m"])

lemma strncmp_eq_0_iff: "strncmp p q n = 0 \<longleftrightarrow> take n (cstr p) = take n (cstr q)"
proof (induction p q n rule: strncmp.induct)
  case (2 p q n)
  then show ?case by (cases p; cases q) (auto simp: word_uint_eq_iff)
qed simp

lemma length_strncpy_out [simp]: "length (strncpy_out t n) = n"
  by (induction t n rule: strncpy_out.induct) auto

lemma strncpy_out_eq:
  "strncpy_out t n = take n (cstr t) @ replicate (n - length (cstr t)) 0"
proof (induction t n rule: strncpy_out.induct)
  case (2 t n)
  then show ?case by (cases t) auto
qed simp

lemma cstr_nonzero: "0 \<notin> set (cstr t)"
  by (auto simp: cstr_def dest: set_takeWhileD)

lemma cstr_append_nonzero: "0 \<notin> set xs \<Longrightarrow> cstr (xs @ ys) = xs @ cstr ys"
  by (induction xs) auto

lemma cstr_replicate_0 [simp]: "cstr (replicate n 0) = []"
  by (cases n) auto

lemma cstr_strncpy_out: "cstr (strncpy_out t n) = take n (cstr t)"
proof -
  have "0 \<notin> set (take n (cstr t))"
    using cstr_nonzero in_set_takeD by metis
  then show ?thesis by (simp add: strncpy_out_eq cstr_append_nonzero)
qed

lemma cstr_safestrcpy_out: "cstr (safestrcpy_out t m) = take m (cstr t)"
proof (induction t m rule: safestrcpy_out.induct)
  case (2 t m)
  then show ?case by (cases t) auto
qed simp

lemma length_safestrcpy_out: "length (safestrcpy_out t m) \<le> Suc m"
  by (induction t m rule: safestrcpy_out.induct) auto

lemma safestrcpy_out_has_nul: "0 \<in> set (safestrcpy_out t m)"
  by (induction t m rule: safestrcpy_out.induct) auto

lemma cstr_put_prefix: "0 \<in> set ys \<Longrightarrow> cstr (put_at xs 0 ys) = cstr ys"
proof -
  have "0 \<in> set ys \<Longrightarrow> cstr (ys @ zs) = cstr ys" for zs
    by (induction ys) auto
  then show "0 \<in> set ys \<Longrightarrow> ?thesis" by (simp add: put_at_def)
qed

lemma strlen_cstr: "strlen s = length (cstr s)"
  by (induction s) auto

section \<open>Properties\<close>

text \<open>C26: kernel \<open>memmove\<close> copies the source range as it was before the call, whether or not the two
  ranges overlap, and changes nothing else.\<close>

theorem memmove_correct:
  assumes "dst + n \<le> length m" "src + n \<le> length m"
  shows "memmove m dst src n = put_at m dst (chunk m src n)"
  using assms by (auto simp: memmove_def copy_up_disjoint copy_down_overlap)

theorem memmove_correct_witness:
  "memmove [1, 2, 3, 4, 5] 1 0 3 = put_at [1, 2, 3, 4, 5] 1 (chunk [1, 2, 3, 4, 5] 0 3)"
  by (rule memmove_correct) simp_all

end
