(* ===== verification/Blocks.thy ===== *)
theory Blocks
  imports Bio CString
begin

text \<open>
  The block layer of \<^verbatim>\<open>src/5/xv6/fs.c\<close>: the superblock and the free-block bitmap (readsb, bzero,
  balloc, bfree).

  The bitmap of a device is read as the set \<open>used\<close> of its marked blocks; \<open>balloc\<close> and \<open>bfree\<close> are shown to
  add and remove one element of it.  The locale \<open>block_alloc\<close> is the contract the file layer uses, on
  devices with a sound geometry (\<open>vol_ok\<close>).
\<close>

section \<open>The operations\<close>

definition readsb :: "uint \<Rightarrow> 'a kbio_scheme \<Rightarrow> (superblock, 'a kbio_scheme) outcome" where
  "readsb dev s =
     and_then (bread dev 1 s) (\<lambda>bp s.
     let sb = dec_sb (chunk (data_of bp s) 0 12) in
     and_then (brelse bp s) (\<lambda>_ s. Ret sb s))"

definition bzero :: "uint \<Rightarrow> uint \<Rightarrow> 'a kbio_scheme \<Rightarrow> (unit, 'a kbio_scheme) outcome" where
  "bzero dev bno s =
     and_then (bread dev bno s) (\<lambda>bp s.
     and_then (bwrite bp (set_data bp (put_at (data_of bp s) 0 (memset_out 0 BSIZE)) s)) (\<lambda>_ s.
     brelse bp s))"

definition bit_mask :: "nat \<Rightarrow> byte" where
  "bit_mask bi = push_bit (bi mod 8) 1"

definition bit_marked :: "byte list \<Rightarrow> nat \<Rightarrow> bool" where
  "bit_marked d bi \<longleftrightarrow> (d ! (bi div 8)) AND bit_mask bi \<noteq> 0"

definition mark_bit :: "byte list \<Rightarrow> nat \<Rightarrow> byte list" where
  "mark_bit d bi = d[bi div 8 := (d ! (bi div 8)) OR bit_mask bi]"

definition clear_bit :: "byte list \<Rightarrow> nat \<Rightarrow> byte list" where
  "clear_bit d bi = d[bi div 8 := (d ! (bi div 8)) AND NOT (bit_mask bi)]"

function balloc_loop :: "uint \<Rightarrow> superblock \<Rightarrow> nat \<Rightarrow> 'a kbio_scheme \<Rightarrow> (uint, 'a kbio_scheme) outcome" where
  "balloc_loop dev sb b s =
     (if b < unat (sb_size sb) then
        and_then (bread dev (BBLOCK (of_nat b) (sb_ninodes sb)) s) (\<lambda>bp s.
        case find (\<lambda>bi. \<not> bit_marked (data_of bp s) bi) [0..<BPB] of
          Some bi \<Rightarrow>
            and_then (bwrite bp (set_data bp (mark_bit (data_of bp s) bi) s)) (\<lambda>_ s.
            and_then (brelse bp s) (\<lambda>_ s. Ret (of_nat (b + bi)) s))
        | None \<Rightarrow> and_then (brelse bp s) (\<lambda>_ s. balloc_loop dev sb (b + BPB) s))
      else Panic ''balloc: out of blocks'')"
  by pat_completeness auto
termination
  by (relation "measure (\<lambda>(dev, sb, b, s). unat (sb_size sb) - b)") (auto simp: BPB_def BSIZE_def)

declare balloc_loop.simps [simp del]

definition balloc :: "uint \<Rightarrow> 'a kbio_scheme \<Rightarrow> (uint, 'a kbio_scheme) outcome" where
  "balloc dev s = and_then (readsb dev s) (\<lambda>sb s. balloc_loop dev sb 0 s)"

definition bfree :: "uint \<Rightarrow> uint \<Rightarrow> 'a kbio_scheme \<Rightarrow> (unit, 'a kbio_scheme) outcome" where
  "bfree dev b s =
     and_then (bzero dev b s) (\<lambda>_ s.
     and_then (readsb dev s) (\<lambda>sb s.
     and_then (bread dev (BBLOCK b (sb_ninodes sb)) s) (\<lambda>bp s.
     let bi = unat (b mod of_nat BPB) in
     if \<not> bit_marked (data_of bp s) bi then Panic ''freeing free block''
     else and_then (bwrite bp (set_data bp (clear_bit (data_of bp s) bi) s)) (\<lambda>_ s. brelse bp s))))"

section \<open>Bits of a bitmap block\<close>

lemma bit_marked_iff: "bit_marked d i \<longleftrightarrow> bit (d ! (i div 8)) (i mod 8)"
  by (auto simp: bit_marked_def bit_mask_def and_exp_eq_0_iff_not_bit push_bit_eq_mult)

lemma div_mod_8_eq: "(i :: nat) div 8 = j div 8 \<Longrightarrow> i mod 8 = j mod 8 \<longleftrightarrow> i = j"
  by (metis div_mult_mod_eq)

lemma bit_mask_bit: "n < 8 \<Longrightarrow> bit (bit_mask i) n \<longleftrightarrow> n = i mod 8"
  by (auto simp: bit_mask_def bit_simps)

lemma mark_bit_marked:
  "i div 8 < length d \<Longrightarrow> bit_marked (mark_bit d i) j \<longleftrightarrow> j = i \<or> bit_marked d j"
  using div_mod_8_eq [of i j]
  by (cases "i div 8 = j div 8") (auto simp: bit_marked_iff mark_bit_def bit_or_iff bit_mask_bit)

lemma clear_bit_marked:
  "i div 8 < length d \<Longrightarrow> bit_marked (clear_bit d i) j \<longleftrightarrow> j \<noteq> i \<and> bit_marked d j"
  using div_mod_8_eq [of i j]
  by (cases "i div 8 = j div 8") (auto simp: bit_marked_iff clear_bit_def bit_and_iff bit_not_iff bit_mask_bit)

lemma length_mark_bit [simp]: "length (mark_bit d i) = length d"
  and length_clear_bit [simp]: "length (clear_bit d i) = length d"
  by (simp_all add: mark_bit_def clear_bit_def)

section \<open>Geometry of a volume\<close>

definition sb_of :: "(uint \<Rightarrow> byte list) \<Rightarrow> superblock" where
  "sb_of D = dec_sb (chunk (D 1) 0 12)"

definition bm_start :: "superblock \<Rightarrow> nat" where
  "bm_start sb = unat (sb_ninodes sb) div IPB + 3"

definition data_start :: "superblock \<Rightarrow> nat" where
  "data_start sb = bm_start sb + (unat (sb_size sb) + BPB - 1) div BPB"

definition used :: "(uint \<Rightarrow> byte list) \<Rightarrow> uint \<Rightarrow> bool" where
  "used D b \<longleftrightarrow> bit_marked (D (BBLOCK b (sb_ninodes (sb_of D)))) (unat b mod BPB)"

definition zero_block :: "byte list" where
  "zero_block = replicate BSIZE 0"

text \<open>A sound volume: the blocks of the metadata are marked, and every free block is zero.\<close>

definition vol_ok :: "(uint \<Rightarrow> byte list) \<Rightarrow> bool" where
  "vol_ok D \<longleftrightarrow> (let sb = sb_of D in
     unat (sb_size sb) \<le> 2 ^ 24 \<and> data_start sb \<le> unat (sb_size sb)
     \<and> (\<forall>b. length (D b) = BSIZE)
     \<and> (\<forall>b. unat b < data_start sb \<longrightarrow> used D b)
     \<and> (\<forall>b. b < sb_size sb \<longrightarrow> \<not> used D b \<longrightarrow> D b = zero_block))"

lemma unat_BBLOCK: "unat (BBLOCK b n) = unat b div BPB + unat n div IPB + 3"
proof -
  have b: "unat b div 4096 < 2 ^ 20" and n: "unat n div 8 < 2 ^ 29"
    using unat_lt [of b] unat_lt [of n] by (simp_all add: div_less_iff_less_mult)
  then have u: "unat (b div 4096) = unat b div 4096" "unat (n div 8) = unat n div 8"
    by (simp_all add: unat_div)
  have "unat (b div 4096 + n div 8 + 3) = unat b div 4096 + unat n div 8 + 3"
    using b n by (simp add: unat_word_ariths u)
  then show ?thesis by (simp add: BBLOCK_def BPB_def IPB_def BSIZE_def)
qed

lemma BBLOCK_eq_iff: "BBLOCK b n = BBLOCK c n \<longleftrightarrow> unat b div BPB = unat c div BPB"
  by (metis (no_types, lifting) add_right_cancel unat_BBLOCK word_unat_eq_iff)

lemma BBLOCK_range:
  assumes "b < sb_size sb"
  shows "bm_start sb \<le> unat (BBLOCK b (sb_ninodes sb))" "unat (BBLOCK b (sb_ninodes sb)) < data_start sb"
proof -
  have "unat b < unat (sb_size sb)" using assms by (simp add: word_less_nat_alt)
  then have "unat b div BPB < (unat (sb_size sb) + BPB - 1) div BPB"
    by (simp add: BPB_def BSIZE_def)
  then show "bm_start sb \<le> unat (BBLOCK b (sb_ninodes sb))" "unat (BBLOCK b (sb_ninodes sb)) < data_start sb"
    by (simp_all add: unat_BBLOCK bm_start_def data_start_def)
qed

section \<open>What the operations do\<close>

text \<open>A state in which no metadata block of \<open>dev\<close> is locked and a buffer is left.\<close>

definition meta_idle :: "uint \<Rightarrow> 'a kbio_scheme \<Rightarrow> bool" where
  "meta_idle dev s \<longleftrightarrow> bio_inv s \<and> dev \<le> 1 \<and> card (keys (bview s)) < NBUF
     \<and> (\<forall>c. (dev, c) \<in> keys (bview s) \<longrightarrow> data_start (sb_of (disk s dev)) \<le> unat c)"

text \<open>The volume on \<open>dev\<close> now is \<open>D\<close>; nothing else changed outside the buffer cache.\<close>

definition bio_after :: "'a kbio_scheme \<Rightarrow> uint \<Rightarrow> (uint \<Rightarrow> byte list) \<Rightarrow> 'a kbio_scheme \<Rightarrow> bool" where
  "bio_after s dev D t \<longleftrightarrow> bio_inv t \<and> bview t = bview s \<and> nobio t = nobio s \<and> disk t = (disk s)(dev := D)"

lemma bio_after_trans:
  "bio_after s dev D t \<Longrightarrow> bio_after t dev D' u \<Longrightarrow> bio_after s dev D' u"
  by (simp add: bio_after_def)

lemma bio_after_id: "bio_inv s \<Longrightarrow> bio_after s dev (disk s dev) s"
  by (simp add: bio_after_def)

lemma meta_idle_after:
  "meta_idle dev s \<Longrightarrow> bio_after s dev D t \<Longrightarrow> sb_of D = sb_of (disk s dev) \<Longrightarrow> meta_idle dev t"
  by (simp add: meta_idle_def bio_after_def)

lemma meta_idle_addr:
  assumes "meta_idle dev s" "vol_ok (disk s dev)" "c < sb_size (sb_of (disk s dev))"
  shows "addr_ok dev c"
proof -
  have "unat c < 2 ^ 24" using assms by (simp add: vol_ok_def Let_def word_less_nat_alt)
  then show ?thesis using assms(1) by (simp add: addr_ok_def meta_idle_def word_less_nat_alt)
qed

lemma meta_idle_meta:
  assumes m: "meta_idle dev s" and v: "vol_ok (disk s dev)" and c: "unat c < data_start (sb_of (disk s dev))"
  shows "addr_ok dev c" "(dev, c) \<notin> keys (bview s)" "c < sb_size (sb_of (disk s dev))"
proof -
  show *: "c < sb_size (sb_of (disk s dev))" using v c by (simp add: vol_ok_def Let_def word_less_nat_alt)
  show "addr_ok dev c" by (rule meta_idle_addr [OF m v *])
  show "(dev, c) \<notin> keys (bview s)" using m c by (auto simp: meta_idle_def)
qed

lemma readsb_raw:
  assumes "bio_inv s" "addr_ok dev 1" "(dev, 1) \<notin> keys (bview s)" "card (keys (bview s)) < NBUF"
  shows "returns (readsb dev s) (\<lambda>sb t. sb = sb_of (disk s dev) \<and> bio_after s dev (disk s dev) t)"
  using bs.peek [OF assms, of "\<lambda>d. dec_sb (chunk d 0 12)"]
  by (simp add: readsb_def sb_of_def bio_after_def Let_def conj_commute conj_left_commute)

lemma sb_block_meta: "unat (1 :: uint) < data_start sb"
  by (simp add: data_start_def bm_start_def)

lemma readsb_spec:
  assumes m: "meta_idle dev s" and v: "vol_ok (disk s dev)"
  shows "returns (readsb dev s) (\<lambda>sb t. sb = sb_of (disk s dev) \<and> bio_after s dev (disk s dev) t)"
  using meta_idle_meta [OF m v sb_block_meta] m by (intro readsb_raw) (simp_all add: meta_idle_def)

lemma length_zero_block [simp]: "length zero_block = BSIZE"
  by (simp add: zero_block_def)

lemma bzero_spec:
  assumes m: "meta_idle dev s" and v: "vol_ok (disk s dev)" and b: "b < sb_size (sb_of (disk s dev))"
    and nl: "(dev, b) \<notin> keys (bview s)"
  shows "returns (bzero dev b s) (\<lambda>_ t. bio_after s dev ((disk s dev)(b := zero_block)) t)"
proof -
  have i: "bio_inv s" "card (keys (bview s)) < NBUF" using m by (simp_all add: meta_idle_def)
  have l: "length (disk s dev b) = BSIZE" using v by (simp add: vol_ok_def Let_def)
  have z: "put_at (disk s dev b) 0 (memset_out 0 BSIZE) = zero_block"
    using l by (simp add: memset_out_def zero_block_def put_at_0_all)
  show ?thesis
    using bs.modify [OF i(1) meta_idle_addr [OF m v b] nl i(2), of "\<lambda>d. put_at d 0 (memset_out 0 BSIZE)"]
    by (simp add: bzero_def z bio_after_def conj_commute conj_left_commute)
qed

definition bm_block :: "(uint \<Rightarrow> byte list) \<Rightarrow> uint \<Rightarrow> uint" where
  "bm_block D b = BBLOCK b (sb_ninodes (sb_of D))"

definition allocated :: "(uint \<Rightarrow> byte list) \<Rightarrow> uint \<Rightarrow> uint \<Rightarrow> byte list" where
  "allocated D b = D(bm_block D b := mark_bit (D (bm_block D b)) (unat b mod BPB))"

definition freed :: "(uint \<Rightarrow> byte list) \<Rightarrow> uint \<Rightarrow> uint \<Rightarrow> byte list" where
  "freed D b = D(b := zero_block, bm_block D b := clear_bit (D (bm_block D b)) (unat b mod BPB))"

lemma of_nat_small: "n \<le> unat (f :: uint) \<Longrightarrow> unat (of_nat n :: uint) = n"
  using unat_lt [of f] by (simp add: unat_of_nat)

text \<open>One chunk of the bitmap: what the search for a clear bit finds is the lowest free block.\<close>

lemma mod_base:
  fixes b j m :: nat
  assumes "b mod m = 0" "j < m"
  shows "(b + j) mod m = j" "(b + j) div m = b div m"
proof -
  obtain q where "b = m * q" using assms(1) by (auto simp: mod_eq_0_iff_dvd dvd_def)
  with assms(2) show "(b + j) mod m = j" "(b + j) div m = b div m" by simp_all
qed

lemma used_in_chunk:
  assumes base: "unat w mod BPB = 0" and c: "unat c = unat w + j" "j < BPB"
  shows "used D c \<longleftrightarrow> bit_marked (D (bm_block D w)) j" "bm_block D c = bm_block D w"
proof -
  show *: "bm_block D c = bm_block D w"
    unfolding bm_block_def BBLOCK_eq_iff c(1) by (rule mod_base(2) [OF base c(2)])
  show "used D c \<longleftrightarrow> bit_marked (D (bm_block D w)) j"
    unfolding used_def bm_block_def [symmetric] * c(1) mod_base(1) [OF base c(2)] ..
qed

lemma word_offset:
  assumes "\<not> c < w" "unat c < unat w + k"
  obtains j where "unat c = unat w + j" "j < k"
  using assms by (intro that [of "unat c - unat w"]) (simp_all add: word_less_nat_alt)

lemma scan_found:
  assumes base: "unat w mod BPB = 0" and low: "\<forall>c<w. used D c" and f: "\<not> used D f"
    and r: "find (\<lambda>bi. \<not> bit_marked (D (bm_block D w)) bi) [0..<BPB] = Some bi"
  shows "\<exists>x. x = w + of_nat bi \<and> x \<le> f \<and> \<not> used D x \<and> (\<forall>c<x. used D c) \<and> bm_block D x = bm_block D w
    \<and> unat x mod BPB = bi"
proof -
  have bi: "bi < BPB" "\<not> bit_marked (D (bm_block D w)) bi" "\<forall>j<bi. bit_marked (D (bm_block D w)) j"
    using r by (auto simp: find_Some_iff)
  have "\<not> f < w" using low f by blast
  then have wf: "unat w \<le> unat f" by (simp add: word_less_nat_alt)
  have le: "unat w + bi \<le> unat f"
  proof (rule ccontr)
    assume "\<not> unat w + bi \<le> unat f"
    then have "\<not> f < w" "unat f < unat w + bi" using wf by (simp_all add: word_less_nat_alt)
    then obtain j where j: "unat f = unat w + j" "j < bi" by (rule word_offset)
    then have "j < BPB" using bi(1) by simp
    then show False using used_in_chunk(1) [OF base j(1), of D] bi(3) j(2) f by blast
  qed
  define x :: uint where "x = of_nat (unat w + bi)"
  have u: "unat x = unat w + bi" unfolding x_def by (rule of_nat_small [OF le])
  have "used D c" if "c < x" for c
  proof (cases "c < w")
    case False
    moreover have "unat c < unat w + bi" using that u by (simp add: word_less_nat_alt)
    ultimately obtain j where j: "unat c = unat w + j" "j < bi" by (rule word_offset)
    then have "j < BPB" using bi(1) by simp
    then show ?thesis using used_in_chunk(1) [OF base j(1), of D] bi(3) j(2) by blast
  qed (use low in simp)
  moreover have "x = w + of_nat bi" by (simp add: x_def)
  moreover have "x \<le> f" using le u by (simp add: word_le_nat_alt)
  ultimately show ?thesis
    using used_in_chunk [OF base u bi(1)] bi(2) u mod_base(1) [OF base bi(1)] by auto
qed

lemma scan_none:
  assumes base: "unat w mod BPB = 0" and low: "\<forall>c<w. used D c"
    and r: "find (\<lambda>bi. \<not> bit_marked (D (bm_block D w)) bi) [0..<BPB] = None"
    and c: "unat c < unat w + BPB"
  shows "used D c"
proof (cases "c < w")
  case False
  then obtain j where j: "unat c = unat w + j" "j < BPB" using c by (rule word_offset)
  then show ?thesis using used_in_chunk(1) [OF base j] r by (auto simp: find_None_iff)
qed (use low in simp)

lemma bm_block_meta:
  assumes "b < sb_size (sb_of D)"
  shows "bm_start (sb_of D) \<le> unat (bm_block D b)" "unat (bm_block D b) < data_start (sb_of D)"
  using BBLOCK_range [OF assms] by (simp_all add: bm_block_def)

lemma balloc_loop_spec:
  assumes m: "meta_idle dev s" and D: "disk s dev = D" and v: "vol_ok D"
    and b: "b mod BPB = 0" "b \<le> unat f" and low: "\<forall>c. unat c < b \<longrightarrow> used D c"
    and f: "unat f div BPB * BPB < unat (sb_size (sb_of D))" "\<not> used D f"
  shows "returns (balloc_loop dev (sb_of D) b s) (\<lambda>r t. r \<le> f \<and> \<not> used D r \<and> (\<forall>c<r. used D c)
    \<and> bio_after s dev (allocated D r) t)"
  using m D b low
proof (induction "unat f - b" arbitrary: b s rule: less_induct)
  case less
  note m = \<open>meta_idle dev s\<close> and D = \<open>disk s dev = D\<close> and b = \<open>b mod BPB = 0\<close> \<open>b \<le> unat f\<close>
    and low = \<open>\<forall>c. unat c < b \<longrightarrow> used D c\<close>
  define w :: uint where "w = of_nat b"
  have w: "unat w = b" unfolding w_def by (rule of_nat_small [OF b(2)])
  have lo: "\<forall>c<w. used D c" using low by (simp add: word_less_nat_alt w)
  have "b div BPB * BPB \<le> unat f div BPB * BPB" using b(2) by (simp add: div_le_mono)
  moreover have "b div BPB * BPB = b" using b(1) by (metis add.right_neutral div_mult_mod_eq)
  ultimately have bsz: "b < unat (sb_size (sb_of D))" using f(1) by linarith
  then have wsz: "w < sb_size (sb_of D)" using w by (simp add: word_less_nat_alt)
  have i: "bio_inv s" "card (keys (bview s)) < NBUF" using m by (simp_all add: meta_idle_def)
  have a: "addr_ok dev (bm_block D w)" "(dev, bm_block D w) \<notin> keys (bview s)"
    using meta_idle_meta [OF m] v D bm_block_meta(2) [OF wsz] by simp_all
  have bm: "BBLOCK (of_nat b) (sb_ninodes (sb_of D)) = bm_block D w" by (simp add: bm_block_def w_def)
  have len: "length (D (bm_block D w)) = BSIZE" using v by (simp add: vol_ok_def Let_def)
  let ?P = "\<lambda>bi. \<not> bit_marked (D (bm_block D w)) bi"
  let ?Q = "\<lambda>r t. r \<le> f \<and> \<not> used D r \<and> (\<forall>c<r. used D c) \<and> bio_after s dev (allocated D r) t"
  show ?case
  proof (subst balloc_loop.simps, simp only: bsz if_True bm, rule bs.rd_bind [OF i(1) a i(2)])
    fix bp t
    assume t: "bio_inv t" "bview s bp = None" "bview t = (bview s)(bp \<mapsto> ((dev, bm_block D w), disk s dev (bm_block D w)))"
      "data_of bp t = disk s dev (bm_block D w)" "disk t = disk s" "nobio t = nobio s"
    show "returns (case find (\<lambda>bi. \<not> bit_marked (data_of bp t) bi) [0..<BPB] of
          None \<Rightarrow> and_then (brelse bp t) (\<lambda>_. balloc_loop dev (sb_of D) (b + BPB))
        | Some bi \<Rightarrow> and_then (bwrite bp (set_data bp (mark_bit (data_of bp t) bi) t)) (\<lambda>_ s.
            and_then (brelse bp s) (\<lambda>_. Ret (of_nat (b + bi))))) ?Q"
    proof (cases "find ?P [0..<BPB]")
      case (Some bi)
      obtain x where x: "x = w + of_nat bi" "x \<le> f" "\<not> used D x" "\<forall>c<x. used D c" "bm_block D x = bm_block D w"
        "unat x mod BPB = bi" using scan_found [OF _ lo f(2) Some] w b(1) by auto
      have "returns (and_then (bwrite bp (set_data bp (mark_bit (D (bm_block D w)) bi) t)) (\<lambda>_ s.
            and_then (brelse bp s) (\<lambda>_. Ret (of_nat (b + bi))))) ?Q"
      proof (rule bs.wr_rl_bind [OF t(1,2,3)])
        show "length (mark_bit (D (bm_block D w)) bi) = BSIZE" using len by simp
        fix u assume u: "bio_inv u" "bview u = bview s" "nobio u = nobio t"
          "disk u = (disk t)(dev := (disk t dev)(bm_block D w := mark_bit (D (bm_block D w)) bi))"
        have "of_nat (b + bi) = x" by (simp add: x(1) w_def)
        moreover have "bio_after s dev (allocated D x) u"
          using u t D x by (simp add: bio_after_def allocated_def)
        ultimately show "returns (Ret (of_nat (b + bi)) u) ?Q" using x by simp
      qed
      then show ?thesis using Some t(4) D by simp
    next
      case None
      have "used D c" if "unat c < b + BPB" for c
        using scan_none [OF _ lo None] that w b(1) by simp
      then have low': "\<forall>c. unat c < b + BPB \<longrightarrow> used D c" by blast
      have b': "(b + BPB) mod BPB = 0" "b + BPB \<le> unat f" using b(1) low' f(2) by (simp, meson not_le)
      have "returns (and_then (brelse bp t) (\<lambda>_. balloc_loop dev (sb_of D) (b + BPB))) ?Q"
      proof (rule bs.rl_bind [OF t(1,2)])
        show "bview t = (bview s)(bp \<mapsto> ((dev, bm_block D w), disk t dev (bm_block D w)))" using t by simp
        fix u assume u: "bio_inv u" "bview u = bview s" "disk u = disk t" "nobio u = nobio t"
        then have "bio_after s dev D u" using t D by (simp add: bio_after_def fun_upd_idem)
        moreover have "meta_idle dev u" using m u t by (simp add: meta_idle_def)
        moreover have "returns (balloc_loop dev (sb_of D) (b + BPB) u) (\<lambda>r t. r \<le> f \<and> \<not> used D r
            \<and> (\<forall>c<r. used D c) \<and> bio_after u dev (allocated D r) t)"
          using b' low' u t D \<open>meta_idle dev u\<close> by (intro less.hyps) (auto simp: BPB_def BSIZE_def)
        ultimately show "returns (balloc_loop dev (sb_of D) (b + BPB) u) ?Q"
          by (auto elim!: returns_mono intro: bio_after_trans)
      qed
      then show ?thesis using None t(4) D by simp
    qed
  qed
qed

lemma balloc_spec:
  assumes m: "meta_idle dev s" and v: "vol_ok (disk s dev)"
    and f: "unat f div BPB * BPB < unat (sb_size (sb_of (disk s dev)))" "\<not> used (disk s dev) f"
  shows "returns (balloc dev s) (\<lambda>r t. r \<le> f \<and> \<not> used (disk s dev) r \<and> (\<forall>c<r. used (disk s dev) c)
    \<and> bio_after s dev (allocated (disk s dev) r) t)"
proof (unfold balloc_def, rule returns_bind [OF readsb_spec [OF m v]], elim conjE)
  fix sb t assume t: "sb = sb_of (disk s dev)" "bio_after s dev (disk s dev) t"
  have m': "meta_idle dev t" "disk t dev = disk s dev"
    using meta_idle_after [OF m t(2)] t(2) by (simp_all add: bio_after_def)
  show "returns (balloc_loop dev sb 0 t) (\<lambda>r u. r \<le> f \<and> \<not> used (disk s dev) r \<and> (\<forall>c<r. used (disk s dev) c)
      \<and> bio_after s dev (allocated (disk s dev) r) u)"
    using balloc_loop_spec [OF m' v _ _ _ f, of 0] t(1) bio_after_trans [OF t(2)]
    by (auto elim!: returns_mono)
qed

text \<open>The second half of \<open>bfree\<close>: clearing the mark.\<close>

lemma clear_mark_spec:
  fixes b :: uint
  assumes i: "bio_inv w" "card (keys (bview w)) < NBUF" and a: "addr_ok dev k" "(dev, k) \<notin> keys (bview w)"
    and mk: "bit_marked (disk w dev k) (unat b mod BPB)" and len: "length (disk w dev k) = BSIZE"
  shows "returns (and_then (bread dev k w) (\<lambda>bp s.
      let bi = unat (b mod of_nat BPB) in
      if \<not> bit_marked (data_of bp s) bi then Panic ''freeing free block''
      else and_then (bwrite bp (set_data bp (clear_bit (data_of bp s) bi) s)) (\<lambda>_. brelse bp)))
    (\<lambda>_. bio_after w dev ((disk w dev)(k := clear_bit (disk w dev k) (unat b mod BPB))))"
    (is "returns _ ?Q")
proof (rule bs.rd_bind [OF i(1) a i(2)])
  fix bp y
  assume y: "bio_inv y" "bview w bp = None" "bview y = (bview w)(bp \<mapsto> ((dev, k), disk w dev k))"
    "data_of bp y = disk w dev k" "disk y = disk w" "nobio y = nobio w"
  have bi: "unat (b mod of_nat BPB) = unat b mod BPB" by (simp add: unat_mod BPB_def BSIZE_def)
  have "returns (and_then (bwrite bp (set_data bp (clear_bit (disk w dev k) (unat b mod BPB)) y))
      (\<lambda>_ u. and_then (brelse bp u) Ret)) ?Q"
    by (rule bs.wr_rl_bind [OF y(1,2,3)]) (use len y in \<open>simp_all add: bio_after_def\<close>)
  then show "returns (let bi = unat (b mod of_nat BPB) in
      if \<not> bit_marked (data_of bp y) bi then Panic ''freeing free block''
      else and_then (bwrite bp (set_data bp (clear_bit (data_of bp y) bi) y)) (\<lambda>_. brelse bp)) ?Q"
    using mk y(4) by (simp add: bi Let_def)
qed

lemma bfree_spec:
  assumes m: "meta_idle dev s" and D: "disk s dev = D" and v: "vol_ok D"
    and b: "b < sb_size (sb_of D)" "data_start (sb_of D) \<le> unat b" and u: "used D b"
    and nl: "(dev, b) \<notin> keys (bview s)"
  shows "returns (bfree dev b s) (\<lambda>_ t. bio_after s dev (freed D b) t)"
proof (unfold bfree_def, rule returns_bind [OF bzero_spec [OF m _ _ nl]])
  let ?D = "D(b := zero_block)" and ?k = "bm_block D b"
  have b1: "b \<noteq> 1" and bm: "?k \<noteq> b" using b(2) sb_block_meta [of "sb_of D"] bm_block_meta(2) [OF b(1)] by auto
  show "vol_ok (disk s dev)" "b < sb_size (sb_of (disk s dev))" using v b D by simp_all
  fix t assume t: "bio_after s dev ((disk s dev)(b := zero_block)) t"
  have sb: "sb_of ?D = sb_of D" using b1 by (simp add: sb_of_def)
  note meta = meta_idle_meta [OF m, unfolded D, OF v]
  have rs: "returns (readsb dev t) (\<lambda>x w. x = sb_of D \<and> bio_after s dev ?D w)"
    using readsb_raw [of t dev] meta [OF sb_block_meta] m t D sb
    by (simp add: bio_after_def meta_idle_def)
  show "returns (and_then (readsb dev t) (\<lambda>sb s. and_then (bread dev (BBLOCK b (sb_ninodes sb)) s) (\<lambda>bp s.
      let bi = unat (b mod of_nat BPB) in
      if \<not> bit_marked (data_of bp s) bi then Panic ''freeing free block''
      else and_then (bwrite bp (set_data bp (clear_bit (data_of bp s) bi) s)) (\<lambda>_. brelse bp))))
    (\<lambda>_. bio_after s dev (freed D b))"
  proof (rule returns_bind [OF rs], elim conjE)
    fix x w assume x: "x = sb_of D" and w: "bio_after s dev ?D w"
    have k: "BBLOCK b (sb_ninodes x) = ?k" by (simp add: bm_block_def x)
    have dw: "disk w dev ?k = D ?k" "disk w dev = ?D" using w bm by (simp_all add: bio_after_def)
    have pre: "bio_inv w" "card (keys (bview w)) < NBUF" "addr_ok dev ?k" "(dev, ?k) \<notin> keys (bview w)"
      "bit_marked (disk w dev ?k) (unat b mod BPB)" "length (disk w dev ?k) = BSIZE"
      using w m meta [OF bm_block_meta(2) [OF b(1)]] u v dw
      by (simp_all add: bio_after_def meta_idle_def used_def bm_block_def vol_ok_def Let_def)
    show "returns (and_then (bread dev (BBLOCK b (sb_ninodes x)) w) (\<lambda>bp s.
      let bi = unat (b mod of_nat BPB) in
      if \<not> bit_marked (data_of bp s) bi then Panic ''freeing free block''
      else and_then (bwrite bp (set_data bp (clear_bit (data_of bp s) bi) s)) (\<lambda>_. brelse bp)))
      (\<lambda>_. bio_after s dev (freed D b))"
      unfolding k using clear_mark_spec [OF pre] bio_after_trans [OF w] dw
      by (auto elim!: returns_mono simp: freed_def)
  qed
qed

section \<open>Effect on the set of used blocks\<close>

text \<open>The contract of a block allocator, on the contents of a volume.\<close>

locale block_alloc =
  fixes good :: "'d \<Rightarrow> bool" and free_in :: "'d \<Rightarrow> 'b \<Rightarrow> bool" and owned_in :: "'d \<Rightarrow> 'b \<Rightarrow> bool"
    and al :: "'d \<Rightarrow> 'b \<Rightarrow> 'd" and fr :: "'d \<Rightarrow> 'b \<Rightarrow> 'd"
  assumes al_good: "good D \<Longrightarrow> free_in D b \<Longrightarrow> good (al D b)"
    and al_owned: "good D \<Longrightarrow> free_in D b \<Longrightarrow> owned_in (al D b) c \<longleftrightarrow> c = b \<or> owned_in D c"
    and al_free: "good D \<Longrightarrow> free_in D b \<Longrightarrow> free_in (al D b) c \<longleftrightarrow> c \<noteq> b \<and> free_in D c"
    and fr_good: "good D \<Longrightarrow> owned_in D b \<Longrightarrow> good (fr D b)"
    and fr_owned: "good D \<Longrightarrow> owned_in D b \<Longrightarrow> owned_in (fr D b) c \<longleftrightarrow> c \<noteq> b \<and> owned_in D c"
    and fr_free: "good D \<Longrightarrow> owned_in D b \<Longrightarrow> free_in (fr D b) c \<longleftrightarrow> c = b \<or> free_in D c"
begin

text \<open>Blocks allocated one after the other are different; freeing a set of owned blocks one after the other
  makes exactly them free.\<close>

lemma al_twice: "good D \<Longrightarrow> free_in D b \<Longrightarrow> free_in (al D b) c \<Longrightarrow> c \<noteq> b"
  by (simp add: al_free)

lemma fr_all:
  "good D \<Longrightarrow> distinct bs \<Longrightarrow> \<forall>b\<in>set bs. owned_in D b \<Longrightarrow>
    good (fold (\<lambda>b D. fr D b) bs D)
    \<and> (\<forall>c. owned_in (fold (\<lambda>b D. fr D b) bs D) c \<longleftrightarrow> c \<notin> set bs \<and> owned_in D c)
    \<and> (\<forall>c. free_in (fold (\<lambda>b D. fr D b) bs D) c \<longleftrightarrow> c \<in> set bs \<or> free_in D c)"
proof (induction bs arbitrary: D)
  case (Cons b bs)
  then have "good (fr D b)" "\<forall>c\<in>set bs. owned_in (fr D b) c" by (auto simp: fr_good fr_owned)
  with Cons show ?case by (auto simp: fr_owned fr_free)
qed simp

end

definition vol_free :: "(uint \<Rightarrow> byte list) \<Rightarrow> uint \<Rightarrow> bool" where
  "vol_free D b \<longleftrightarrow> b < sb_size (sb_of D) \<and> \<not> used D b"

definition vol_owned :: "(uint \<Rightarrow> byte list) \<Rightarrow> uint \<Rightarrow> bool" where
  "vol_owned D b \<longleftrightarrow> b < sb_size (sb_of D) \<and> used D b \<and> data_start (sb_of D) \<le> unat b"

lemma sb_of_allocated [simp]: "sb_of (allocated D b) = sb_of D"
proof -
  have "bm_block D b \<noteq> 1" by (auto simp: bm_block_def word_unat_eq_iff unat_BBLOCK)
  then show ?thesis by (simp add: allocated_def sb_of_def)
qed

lemma bm_block_allocated [simp]: "bm_block (allocated D b) c = bm_block D c"
  by (simp add: bm_block_def)

lemma used_allocated:
  assumes "length (D (bm_block D b)) = BSIZE"
  shows "used (allocated D b) c \<longleftrightarrow> c = b \<or> used D c"
proof -
  have l: "unat b mod BPB div 8 < length (D (bm_block D b))"
    using assms by (simp add: BPB_def div_less_iff_less_mult BSIZE_def)
  have e: "unat c mod BPB = unat b mod BPB \<longleftrightarrow> c = b" if "bm_block D c = bm_block D b"
    using that unfolding bm_block_def BBLOCK_eq_iff by (metis div_mult_mod_eq word_unat_eq_iff)
  show ?thesis
  proof (cases "bm_block D c = bm_block D b")
    case True
    then show ?thesis using mark_bit_marked [OF l] e
      by (simp add: used_def allocated_def bm_block_def [symmetric] sb_of_allocated [unfolded allocated_def])
  next
    case False
    then have "c \<noteq> b" by auto
    with False show ?thesis
      by (simp add: used_def allocated_def bm_block_def [symmetric] sb_of_allocated [unfolded allocated_def])
  qed
qed

lemma vol_ok_facts:
  assumes "vol_ok D"
  shows "length (D b) = BSIZE" "unat b < data_start (sb_of D) \<Longrightarrow> used D b"
    "vol_free D b \<Longrightarrow> D b = zero_block" "vol_free D b \<Longrightarrow> data_start (sb_of D) \<le> unat b"
    "b < sb_size (sb_of D) \<Longrightarrow> unat b < 2 ^ 24" "unat b < data_start (sb_of D) \<Longrightarrow> b < sb_size (sb_of D)"
  using assms by (auto simp: vol_ok_def Let_def vol_free_def word_less_nat_alt not_le [symmetric])

lemma allocated_other:
  assumes "b < sb_size (sb_of D)" "unat c < bm_start (sb_of D) \<or> data_start (sb_of D) \<le> unat c"
  shows "allocated D b c = D c"
  using bm_block_meta [OF assms(1)] assms(2) by (auto simp: allocated_def)

lemma vol_ok_allocated:
  assumes v: "vol_ok D" and b: "vol_free D b"
  shows "vol_ok (allocated D b)"
proof -
  have u: "used (allocated D b) c \<longleftrightarrow> c = b \<or> used D c" for c
    by (rule used_allocated) (rule vol_ok_facts(1) [OF v])
  have bs: "b < sb_size (sb_of D)" using b by (simp add: vol_free_def)
  have "allocated D b c = zero_block" if "c < sb_size (sb_of D)" "\<not> used D c" for c
  proof -
    have "vol_free D c" using that by (simp add: vol_free_def)
    then show ?thesis using allocated_other [OF bs] vol_ok_facts(3,4) [OF v] by simp
  qed
  moreover have "length (allocated D b c) = BSIZE" for c
    using vol_ok_facts(1) [OF v] by (simp add: allocated_def)
  ultimately show ?thesis using v by (simp add: vol_ok_def Let_def u)
qed

lemma sb_of_freed:
  assumes "data_start (sb_of D) \<le> unat b"
  shows "sb_of (freed D b) = sb_of D"
proof -
  have "bm_block D b \<noteq> 1" by (auto simp: bm_block_def word_unat_eq_iff unat_BBLOCK)
  moreover have "b \<noteq> 1" using assms sb_block_meta [of "sb_of D"] by auto
  ultimately show ?thesis by (simp add: freed_def sb_of_def)
qed

lemma used_freed:
  assumes v: "vol_ok D" and b: "vol_owned D b" and c: "c < sb_size (sb_of D)"
  shows "used (freed D b) c \<longleftrightarrow> c \<noteq> b \<and> used D c"
proof -
  have bs: "data_start (sb_of D) \<le> unat b" using b by (simp add: vol_owned_def)
  note sb = sb_of_freed [OF bs]
  have l: "unat b mod BPB div 8 < length (D (bm_block D b))"
    using vol_ok_facts(1) [OF v] by (simp add: BPB_def div_less_iff_less_mult BSIZE_def)
  have e: "unat c mod BPB = unat b mod BPB \<longleftrightarrow> c = b" if "bm_block D c = bm_block D b"
    using that unfolding bm_block_def BBLOCK_eq_iff by (metis div_mult_mod_eq word_unat_eq_iff)
  have nb: "bm_block D c \<noteq> b" using bm_block_meta(2) [OF c] bs by auto
  have "used (freed D b) c \<longleftrightarrow> bit_marked (freed D b (bm_block D c)) (unat c mod BPB)"
    by (simp add: used_def sb bm_block_def)
  also have "\<dots> \<longleftrightarrow> c \<noteq> b \<and> bit_marked (D (bm_block D c)) (unat c mod BPB)"
    using clear_bit_marked [OF l] e nb by (cases "bm_block D c = bm_block D b") (auto simp: freed_def)
  finally show ?thesis by (simp add: used_def bm_block_def)
qed

lemma freed_other:
  assumes "vol_owned D b" "c \<noteq> b" "unat c < bm_start (sb_of D) \<or> data_start (sb_of D) \<le> unat c"
  shows "freed D b c = D c"
  using bm_block_meta [of b D] assms by (auto simp: freed_def vol_owned_def)

lemma vol_ok_freed:
  assumes v: "vol_ok D" and b: "vol_owned D b"
  shows "vol_ok (freed D b)"
proof -
  have bs: "data_start (sb_of D) \<le> unat b" "b < sb_size (sb_of D)" using b by (simp_all add: vol_owned_def)
  note sb = sb_of_freed [OF bs(1)] and u = used_freed [OF v b]
  have bm: "bm_block D b \<noteq> b" using bm_block_meta(2) [OF bs(2)] bs(1) by auto
  have "freed D b c = zero_block" if "c < sb_size (sb_of D)" "\<not> used (freed D b) c" for c
  proof (cases "c = b")
    case True
    then show ?thesis using bm by (simp add: freed_def)
  next
    case False
    then have "vol_free D c" using that u by (simp add: vol_free_def)
    then show ?thesis using freed_other [OF b False] vol_ok_facts(3,4) [OF v] by simp
  qed
  moreover have "length (freed D b c) = BSIZE" for c
    using vol_ok_facts(1) [OF v] by (simp add: freed_def)
  moreover have "used (freed D b) c" if "unat c < data_start (sb_of D)" for c
    using that u vol_ok_facts(2,6) [OF v that] bs by auto
  ultimately show ?thesis using v by (simp add: vol_ok_def Let_def sb)
qed

interpretation al: block_alloc vol_ok vol_free vol_owned allocated freed
proof
  show "vol_ok (allocated D b)" if "vol_ok D" "vol_free D b" for D b by (rule vol_ok_allocated [OF that])
  show "vol_owned (allocated D b) c \<longleftrightarrow> c = b \<or> vol_owned D c" if "vol_ok D" "vol_free D b" for D b c
    using that used_allocated [of D b c] vol_ok_facts(1,4) [OF that(1)] by (auto simp: vol_owned_def vol_free_def)
  show "vol_free (allocated D b) c \<longleftrightarrow> c \<noteq> b \<and> vol_free D c" if "vol_ok D" "vol_free D b" for D b c
    using that used_allocated [of D b c] vol_ok_facts(1) [OF that(1)] by (auto simp: vol_free_def)
  show "vol_ok (freed D b)" if "vol_ok D" "vol_owned D b" for D b by (rule vol_ok_freed [OF that])
  show "vol_owned (freed D b) c \<longleftrightarrow> c \<noteq> b \<and> vol_owned D c" if "vol_ok D" "vol_owned D b" for D b c
    using that used_freed [OF that, of c] sb_of_freed [of D b] by (auto simp: vol_owned_def)
  show "vol_free (freed D b) c \<longleftrightarrow> c = b \<or> vol_free D c" if "vol_ok D" "vol_owned D b" for D b c
    using that used_freed [OF that, of c] sb_of_freed [of D b] by (auto simp: vol_owned_def vol_free_def)
qed

lemma clear_mark:
  assumes "\<not> bit_marked d i"
  shows "clear_bit (mark_bit d i) i = d"
proof (cases "i div 8 < length d")
  case True
  let ?x = "d ! (i div 8)"
  have "(?x OR bit_mask i) AND NOT (bit_mask i) = ?x"
  proof (rule bit_eqI)
    fix n assume "possible_bit TYPE(8 word) n"
    then have "n < 8" by simp
    then show "bit ((?x OR bit_mask i) AND NOT (bit_mask i)) n \<longleftrightarrow> bit ?x n"
      using assms by (auto simp: bit_marked_iff bit_and_iff bit_or_iff bit_not_iff bit_mask_bit)
  qed
  with True show ?thesis by (simp add: clear_bit_def mark_bit_def)
qed (simp add: clear_bit_def mark_bit_def list_update_beyond)

lemma freed_allocated:
  assumes v: "vol_ok D" and b: "vol_free D b"
  shows "freed (allocated D b) b = D"
proof
  fix c
  have "b < sb_size (sb_of D)" "data_start (sb_of D) \<le> unat b" "D b = zero_block"
    using b vol_ok_facts(3,4) [OF v b] by (simp_all add: vol_free_def)
  then have "bm_block D b \<noteq> b" using bm_block_meta(2) [of b D] by auto
  moreover have "\<not> bit_marked (D (bm_block D b)) (unat b mod BPB)"
    using b by (simp add: vol_free_def used_def bm_block_def)
  ultimately show "freed (allocated D b) b c = D c"
    using \<open>D b = zero_block\<close> clear_mark by (simp add: freed_def) (simp add: allocated_def)
qed

lemma chunk_base_less: "b < n \<Longrightarrow> b div BPB * BPB < (n :: nat)"
  by (metis div_times_less_eq_dividend le_less_trans)

section \<open>A small volume\<close>

text \<open>Sixteen blocks: superblock, two blocks of inodes, the bitmap in block 4, and data from block 5 on.\<close>

definition demo_vol :: "uint \<Rightarrow> byte list" where
  "demo_vol b = (if b = 1 then enc_sb \<lparr>sb_size = 16, sb_nblocks = 11, sb_ninodes = 8\<rparr> @ replicate 500 0
     else if b = 4 then 0x1f # replicate 511 0 else zero_block)"

definition demo_bio :: kbio where
  "demo_bio = boot_bio\<lparr>disk := \<lambda>_. demo_vol\<rparr>"

lemma demo_sb: "sb_of demo_vol = \<lparr>sb_size = 16, sb_nblocks = 11, sb_ninodes = 8\<rparr>"
proof -
  have l: "length (enc_sb sb) = 12" for sb by (rule sb.length_enc) (simp add: sb_ok_def)
  have "chunk (demo_vol 1) 0 12 = enc_sb \<lparr>sb_size = 16, sb_nblocks = 11, sb_ninodes = 8\<rparr>"
    by (simp add: demo_vol_def chunk_def l)
  then show ?thesis by (simp add: sb_of_def sb.dec_enc sb_ok_def)
qed

lemma demo_bm: "b < 16 \<Longrightarrow> bm_block demo_vol b = 4"
proof -
  assume "b < 16"
  then have "unat b < 16" by (simp add: word_less_nat_alt)
  then show ?thesis
    by (simp add: bm_block_def word_unat_eq_iff unat_BBLOCK demo_sb BPB_def IPB_def BSIZE_def)
qed

lemma demo_used: "b < 16 \<Longrightarrow> used demo_vol b \<longleftrightarrow> b < 5"
proof -
  assume b: "b < 16"
  then have u: "unat b < 16" by (simp add: word_less_nat_alt)
  have "used demo_vol b \<longleftrightarrow> bit_marked (demo_vol 4) (unat b)"
    using demo_bm [OF b] u by (simp add: used_def bm_block_def BPB_def BSIZE_def)
  also have "\<dots> \<longleftrightarrow> unat b < 5"
  proof -
    have m: "(0x1f :: byte) = mask 5" by (simp add: mask_eq_exp_minus_1)
    show ?thesis
    proof (cases "unat b < 8")
      case True
      then show ?thesis by (simp add: demo_vol_def bit_marked_iff m bit_mask_iff)
    next
      case False
      then have "unat b div 8 = Suc 0" using u by simp
      moreover have "(x # replicate 511 0) ! Suc 0 = (0 :: byte)" for x by simp
      ultimately show ?thesis using False by (simp add: demo_vol_def bit_marked_iff)
    qed
  qed
  finally show ?thesis by (simp add: word_less_nat_alt)
qed

lemma demo_data_start: "data_start (sb_of demo_vol) = 5"
  by (simp add: data_start_def bm_start_def demo_sb BPB_def IPB_def BSIZE_def)

lemma demo_vol_ok: "vol_ok demo_vol"
proof -
  have len: "length (enc_sb sb) = 12" for sb by (rule sb.length_enc) (simp add: sb_ok_def)
  have "length (demo_vol b) = BSIZE" for b by (simp add: demo_vol_def len BSIZE_def)
  moreover have "used demo_vol b" if "unat b < 5" for b
  proof -
    have "b < 5" using that by (simp add: word_less_nat_alt)
    moreover have "b < 16" using that by (simp add: word_less_nat_alt)
    ultimately show ?thesis using demo_used by blast
  qed
  moreover have "demo_vol b = zero_block" if "b < 16" "\<not> used demo_vol b" for b
    using that demo_used [of b] by (auto simp: demo_vol_def)
  ultimately show ?thesis by (simp add: vol_ok_def demo_data_start) (simp add: demo_sb Let_def)
qed

lemma bview_none: "busy s = {} \<Longrightarrow> bview s = Map.empty"
  by (rule ext) (auto simp: bview_None busy_def)

lemma boot_idle:
  assumes "\<forall>b. length (D b) = BSIZE"
  shows "meta_idle 1 (boot_bio\<lparr>disk := \<lambda>_. D\<rparr>)"
proof -
  let ?s = "boot_bio\<lparr>disk := \<lambda>_. D\<rparr>"
  have "cache_ok (\<lambda>_. D) (bufs boot_bio)"
    using boot_bio(2,5) by (auto simp: cache_ok_def buf_ok_def lru_def)
  then have "bio_inv ?s" using boot_bio(1) assms by (simp add: bio_inv_def running_def)
  moreover have "busy ?s = {}" using boot_bio(3) by (simp add: busy_def locked_buf_def)
  ultimately show ?thesis by (simp add: meta_idle_def bview_none NBUF_def)
qed

lemma demo_idle: "meta_idle 1 demo_bio" "disk demo_bio 1 = demo_vol"
  unfolding demo_bio_def by (rule boot_idle) (simp_all add: vol_ok_facts(1) [OF demo_vol_ok])

section \<open>Properties\<close>

text \<open>C11: \<open>balloc\<close> returns the lowest free block of the volume and marks exactly that block.  If some block is
  free, it returns (it does not panic, and the scan ends); the result was free, every block below it was
  in use, the used blocks afterwards are the old ones and the result, the volume stays sound, and no block
  outside the bitmap changes.\<close>

theorem balloc_lowest_free:
  assumes "meta_idle dev s" "vol_ok (disk s dev)" "vol_free (disk s dev) f"
  shows "returns (balloc dev s) (\<lambda>b t. vol_free (disk s dev) b \<and> (\<forall>c<b. used (disk s dev) c)
    \<and> (\<forall>c. used (disk t dev) c \<longleftrightarrow> c = b \<or> used (disk s dev) c) \<and> vol_ok (disk t dev)
    \<and> (\<forall>c. unat c < bm_start (sb_of (disk s dev)) \<or> data_start (sb_of (disk s dev)) \<le> unat c \<longrightarrow>
         disk t dev c = disk s dev c)
    \<and> nobio t = nobio s \<and> bview t = bview s)"
proof -
  let ?D = "disk s dev"
  have f: "unat f div BPB * BPB < unat (sb_size (sb_of ?D))" "\<not> used ?D f"
    using assms(3) by (auto simp: vol_free_def word_less_nat_alt chunk_base_less)
  show ?thesis
  proof (rule returns_mono [OF balloc_spec [OF assms(1,2) f]], elim conjE)
    fix b t assume b: "b \<le> f" "\<not> used ?D b" "\<forall>c<b. used ?D c" and t: "bio_after s dev (allocated ?D b) t"
    have fb: "vol_free ?D b" using b assms(3) by (auto simp: vol_free_def)
    then have bs: "b < sb_size (sb_of ?D)" by (simp add: vol_free_def)
    have d: "disk t dev = allocated ?D b" "nobio t = nobio s" "bview t = bview s" using t by (simp_all add: bio_after_def)
    show "vol_free ?D b \<and> (\<forall>c<b. used ?D c) \<and> (\<forall>c. used (disk t dev) c \<longleftrightarrow> c = b \<or> used ?D c) \<and> vol_ok (disk t dev)
        \<and> (\<forall>c. unat c < bm_start (sb_of ?D) \<or> data_start (sb_of ?D) \<le> unat c \<longrightarrow> disk t dev c = ?D c)
        \<and> nobio t = nobio s \<and> bview t = bview s"
      using fb b(3) d used_allocated [OF vol_ok_facts(1) [OF assms(2)]] al.al_good [OF assms(2) fb]
        allocated_other [OF bs] by simp
  qed
qed

theorem balloc_lowest_free_witness:
  "returns (balloc 1 demo_bio) (\<lambda>b t. vol_free (disk demo_bio 1) b \<and> (\<forall>c<b. used (disk demo_bio 1) c)
    \<and> (\<forall>c. used (disk t 1) c \<longleftrightarrow> c = b \<or> used (disk demo_bio 1) c) \<and> vol_ok (disk t 1)
    \<and> (\<forall>c. unat c < bm_start (sb_of (disk demo_bio 1)) \<or> data_start (sb_of (disk demo_bio 1)) \<le> unat c \<longrightarrow>
         disk t 1 c = disk demo_bio 1 c)
    \<and> nobio t = nobio demo_bio \<and> bview t = bview demo_bio)"
  by (rule balloc_lowest_free [of _ _ 9])
    (simp_all add: demo_idle demo_vol_ok vol_free_def demo_used, simp add: demo_sb)

text \<open>C16: allocation followed by release is the identity.  \<open>balloc\<close> and then \<open>bfree\<close> of its result succeed and
  leave every block of the disk as it was: the mark is cleared and the block is zero again.\<close>

theorem balloc_bfree_roundtrip:
  assumes m: "meta_idle dev s" and v: "vol_ok (disk s dev)" and f: "vol_free (disk s dev) f"
    and nl: "\<forall>b. vol_free (disk s dev) b \<longrightarrow> (dev, b) \<notin> keys (bview s)"
  shows "returns (and_then (balloc dev s) (\<lambda>b t. bfree dev b t))
    (\<lambda>_ t. disk t = disk s \<and> bview t = bview s \<and> nobio t = nobio s)"
proof -
  let ?D = "disk s dev"
  have f': "unat f div BPB * BPB < unat (sb_size (sb_of ?D))" "\<not> used ?D f"
    using f by (auto simp: vol_free_def word_less_nat_alt chunk_base_less)
  show ?thesis
  proof (rule returns_bind [OF balloc_spec [OF m v f']], elim conjE)
    fix b t assume b: "b \<le> f" "\<not> used ?D b" and t: "bio_after s dev (allocated ?D b) t"
    have fb: "vol_free ?D b" using b f by (auto simp: vol_free_def)
    then have o: "vol_owned (allocated ?D b) b" using al.al_owned [OF v fb] by blast
    have mt: "meta_idle dev t" using meta_idle_after [OF m t] by simp
    have pre: "disk t dev = allocated ?D b" "(dev, b) \<notin> keys (bview t)"
      using t nl fb by (auto simp: bio_after_def)
    have "returns (bfree dev b t) (\<lambda>_. bio_after t dev (freed (allocated ?D b) b))"
      using o by (intro bfree_spec [OF mt pre(1) al.al_good [OF v fb] _ _ _ pre(2)]) (simp_all add: vol_owned_def)
    then show "returns (bfree dev b t) (\<lambda>_ u. disk u = disk s \<and> bview u = bview s \<and> nobio u = nobio s)"
      using t by (auto elim!: returns_mono simp: bio_after_def freed_allocated [OF v fb])
  qed
qed

theorem balloc_bfree_roundtrip_witness:
  "returns (and_then (balloc 1 demo_bio) (\<lambda>b t. bfree 1 b t))
    (\<lambda>_ t. disk t = disk demo_bio \<and> bview t = bview demo_bio \<and> nobio t = nobio demo_bio)"
proof (rule balloc_bfree_roundtrip [of _ _ 9])
  show "\<forall>b. vol_free (disk demo_bio 1) b \<longrightarrow> (1, b) \<notin> keys (bview demo_bio)"
    using boot_bio(3) by (simp add: bview_none busy_def locked_buf_def demo_bio_def)
qed (simp_all add: demo_idle demo_vol_ok vol_free_def demo_used, simp add: demo_sb)

text \<open>C34: \<open>balloc\<close> does not stop at the end of the volume.  When every block of the volume is in use and the last
  bitmap block has a clear bit beyond the end, it returns a block number that is not on the volume.\<close>

theorem balloc_past_end:
  assumes "meta_idle dev s" "vol_ok (disk s dev)" "\<forall>b < sb_size (sb_of (disk s dev)). used (disk s dev) b"
    and "unat f div BPB * BPB < unat (sb_size (sb_of (disk s dev)))" "\<not> used (disk s dev) f"
  shows "returns (balloc dev s) (\<lambda>b t. sb_size (sb_of (disk s dev)) \<le> b \<and> b \<le> f)"
  using balloc_spec [OF assms(1,2,4,5)] assms(3) by (auto elim!: returns_mono simp: not_less [symmetric])

definition full_vol :: "uint \<Rightarrow> byte list" where
  "full_vol = demo_vol(4 := 0xff # 0xff # replicate 510 0)"

lemma full_sb: "sb_of full_vol = sb_of demo_vol"
  by (simp add: sb_of_def full_vol_def)

lemma full_used: "unat b < 4096 \<Longrightarrow> used full_vol b \<longleftrightarrow> unat b < 16"
proof -
  assume b: "unat b < 4096"
  have "bm_block full_vol b = 4" using b
    by (simp add: bm_block_def word_unat_eq_iff unat_BBLOCK full_sb demo_sb BPB_def IPB_def BSIZE_def)
  then have u: "used full_vol b \<longleftrightarrow> bit ((0xff # 0xff # replicate 510 0) ! (unat b div 8) :: byte) (unat b mod 8)"
    using b by (simp add: used_def bm_block_def bit_marked_iff full_vol_def BPB_def BSIZE_def)
  have m: "(0xff :: byte) = mask 8" by (simp add: mask_eq_exp_minus_1)
  consider "unat b div 8 = 0" | "unat b div 8 = 1" | k where "unat b div 8 = Suc (Suc k)" "k < 510"
    using b by (cases "unat b div 8"; cases "unat b div 8 - 1") auto
  then show ?thesis
    by cases (use u in \<open>auto simp: m bit_mask_iff\<close>)
qed

lemma full_vol_ok: "vol_ok full_vol"
proof -
  have "used full_vol b" if "unat b < 16" for b using that by (simp add: full_used)
  moreover have "length (full_vol b) = BSIZE" for b
    using vol_ok_facts(1) [OF demo_vol_ok] by (simp add: full_vol_def BSIZE_def)
  moreover have "data_start (sb_of full_vol) = 5" using demo_data_start by (simp add: full_sb)
  ultimately show ?thesis by (simp add: vol_ok_def full_sb) (auto simp: demo_sb Let_def word_less_nat_alt)
qed

theorem balloc_past_end_witness:
  "returns (balloc 1 (boot_bio\<lparr>disk := \<lambda>_. full_vol\<rparr>)) (\<lambda>b t. sb_size (sb_of full_vol) \<le> b \<and> b \<le> 16)"
proof -
  let ?s = "boot_bio\<lparr>disk := \<lambda>_. full_vol\<rparr>"
  have "meta_idle 1 ?s" by (rule boot_idle) (use full_vol_ok in \<open>simp_all add: vol_ok_facts\<close>)
  moreover have "\<forall>b < sb_size (sb_of full_vol). used full_vol b"
    by (auto simp: full_sb demo_sb full_used word_less_nat_alt)
  moreover have "\<not> used full_vol 16" by (simp add: full_used)
  moreover have "unat (16 :: uint) div BPB * BPB < unat (sb_size (sb_of full_vol))"
    by (simp add: full_sb demo_sb BPB_def BSIZE_def)
  ultimately show ?thesis using balloc_past_end [of 1 ?s 16] full_vol_ok by simp
qed

end
