(* ===== verification/Inode.thy ===== *)
theory Inode
  imports Blocks
begin

text \<open>
  The inode layer of \<^verbatim>\<open>src/5/xv6/fs.c\<close> and \<^verbatim>\<open>src/5/xv6/file.h\<close>: the inode cache (iget, idup,
  ilock, iunlock, iput), inodes on disk (ialloc, iupdate), the map from file blocks to disk blocks (bmap,
  with the extent format of \<open>T_EXTENT\<close> files), itrunc, stati, readi and writei.

  An inode pointer is an index into the cache \<open>icache\<close>; a null pointer is \<open>None\<close>.  The device switch is an
  argument of readi and writei.  Return values are 32-bit words, \<^verbatim>\<open>-1\<close> for errors; bytes copied to the
  caller's buffer are returned with the value.  The reference count \<^verbatim>\<open>ref\<close> of a cached inode is an integer without a bound;
  in the code it is an \<^verbatim>\<open>int\<close>, which holds more references than the tables of the kernel have room for.
\<close>

section \<open>State\<close>

definition NINODE :: nat where "NINODE = 50"
definition NDEV :: int where "NDEV = 10"

datatype iflag = I_BUSY | I_VALID

record inode =
  i_dev :: uint
  i_inum :: uint
  i_ref :: int
  i_flags :: "iflag set"
  i_type :: ushort
  i_major :: ushort
  i_minor :: ushort
  i_nlink :: ushort
  i_size :: uint
  i_addrs :: "uint list"

record kfs = kbio +
  icache :: "inode list"

record stat =
  st_type :: ushort
  st_dev :: uint
  st_ino :: uint
  st_nlink :: ushort
  st_size :: uint
  st_addrs :: "uint list"

record 's devsw =
  dev_read :: "(nat \<Rightarrow> uint \<Rightarrow> 's \<Rightarrow> (uint \<times> byte list, 's) outcome) option"
  dev_write :: "(nat \<Rightarrow> byte list \<Rightarrow> uint \<Rightarrow> 's \<Rightarrow> (uint, 's) outcome) option"

definition upd_inode :: "nat \<Rightarrow> (inode \<Rightarrow> inode) \<Rightarrow> 'a kfs_scheme \<Rightarrow> 'a kfs_scheme" where
  "upd_inode ip f s = s\<lparr>icache := (icache s)[ip := f (icache s ! ip)]\<rparr>"

section \<open>The inode cache\<close>

fun iget_scan :: "uint \<Rightarrow> uint \<Rightarrow> inode list \<Rightarrow> nat \<Rightarrow> nat option \<Rightarrow> nat + nat option" where
  "iget_scan dev inum [] i slot = Inr slot"
| "iget_scan dev inum (x # xs) i slot =
     (if i_ref x > 0 \<and> i_dev x = dev \<and> i_inum x = inum then Inl i
      else iget_scan dev inum xs (i + 1) (if slot = None \<and> i_ref x = 0 then Some i else slot))"

definition iget :: "uint \<Rightarrow> uint \<Rightarrow> 'a kfs_scheme \<Rightarrow> (nat, 'a kfs_scheme) outcome" where
  "iget dev inum s =
     and_then (lk_acquire LIcache s) (\<lambda>_ s.
     case iget_scan dev inum (icache s) 0 None of
       Inl ip \<Rightarrow> and_then (lk_release LIcache (upd_inode ip (\<lambda>x. x\<lparr>i_ref := i_ref x + 1\<rparr>) s)) (\<lambda>_ s. Ret ip s)
     | Inr None \<Rightarrow> Panic ''iget: no inodes''
     | Inr (Some ip) \<Rightarrow>
         and_then (lk_release LIcache
           (upd_inode ip (\<lambda>x. x\<lparr>i_dev := dev, i_inum := inum, i_ref := 1, i_flags := {}\<rparr>) s))
           (\<lambda>_ s. Ret ip s))"

definition idup :: "nat \<Rightarrow> 'a kfs_scheme \<Rightarrow> (nat, 'a kfs_scheme) outcome" where
  "idup ip s =
     and_then (lk_acquire LIcache s) (\<lambda>_ s.
     and_then (lk_release LIcache (upd_inode ip (\<lambda>x. x\<lparr>i_ref := i_ref x + 1\<rparr>) s)) (\<lambda>_ s. Ret ip s))"

definition dinode_of :: "inode \<Rightarrow> dinode" where
  "dinode_of x = \<lparr>d_type = i_type x, d_major = i_major x, d_minor = i_minor x, d_nlink = i_nlink x,
     d_size = i_size x, d_addrs = i_addrs x\<rparr>"

definition with_dinode :: "dinode \<Rightarrow> inode \<Rightarrow> inode" where
  "with_dinode d x = x\<lparr>i_type := d_type d, i_major := d_major d, i_minor := d_minor d, i_nlink := d_nlink d,
     i_size := d_size d, i_addrs := d_addrs d\<rparr>"

definition inode_slot :: "uint \<Rightarrow> nat" where
  "inode_slot inum = unat (inum mod of_nat IPB)"

definition iupdate :: "nat \<Rightarrow> 'a kfs_scheme \<Rightarrow> (unit, 'a kfs_scheme) outcome" where
  "iupdate ip s =
     and_then (bread (i_dev (icache s ! ip)) (IBLOCK (i_inum (icache s ! ip))) s) (\<lambda>bp s.
     let x = icache s ! ip in
     and_then (bwrite bp (set_data bp (put_dinode (data_of bp s) (inode_slot (i_inum x)) (dinode_of x)) s)) (\<lambda>_ s.
     brelse bp s))"

function ialloc_loop :: "uint \<Rightarrow> ushort \<Rightarrow> superblock \<Rightarrow> nat \<Rightarrow> 'a kfs_scheme \<Rightarrow> (nat, 'a kfs_scheme) outcome" where
  "ialloc_loop dev ty sb inum s =
     (if inum < unat (sb_ninodes sb) then
        and_then (bread dev (IBLOCK (of_nat inum)) s) (\<lambda>bp s.
        let k = inode_slot (of_nat inum) in
        if d_type (get_dinode (data_of bp s) k) = 0 then
          and_then (bwrite bp (set_data bp (put_dinode (data_of bp s) k (zero_dinode\<lparr>d_type := ty\<rparr>)) s)) (\<lambda>_ s.
          and_then (brelse bp s) (\<lambda>_ s. iget dev (of_nat inum) s))
        else and_then (brelse bp s) (\<lambda>_ s. ialloc_loop dev ty sb (inum + 1) s))
      else Panic ''ialloc: no inodes'')"
  by pat_completeness auto
termination
  by (relation "measure (\<lambda>(dev, ty, sb, inum, s). unat (sb_ninodes sb) - inum)") auto

declare ialloc_loop.simps [simp del]

definition ialloc :: "uint \<Rightarrow> ushort \<Rightarrow> 'a kfs_scheme \<Rightarrow> (nat, 'a kfs_scheme) outcome" where
  "ialloc dev ty s = and_then (readsb dev s) (\<lambda>sb s. ialloc_loop dev ty sb 1 s)"

definition ilock :: "nat option \<Rightarrow> 'a kfs_scheme \<Rightarrow> (unit, 'a kfs_scheme) outcome" where
  "ilock oip s =
     (case oip of None \<Rightarrow> Panic ''ilock''
      | Some ip \<Rightarrow>
        if i_ref (icache s ! ip) < 1 then Panic ''ilock''
        else and_then (lk_acquire LIcache s) (\<lambda>_ s.
          if I_BUSY \<in> i_flags (icache s ! ip) then sleep (ChInode ip) LIcache s
          else and_then (lk_release LIcache (upd_inode ip (\<lambda>x. x\<lparr>i_flags := insert I_BUSY (i_flags x)\<rparr>) s)) (\<lambda>_ s.
            if I_VALID \<in> i_flags (icache s ! ip) then Ret () s
            else
              let x = icache s ! ip in
              and_then (bread (i_dev x) (IBLOCK (i_inum x)) s) (\<lambda>bp s.
              let s = upd_inode ip (with_dinode (get_dinode (data_of bp s) (inode_slot (i_inum x)))) s in
              and_then (brelse bp s) (\<lambda>_ s.
              let s = upd_inode ip (\<lambda>x. x\<lparr>i_flags := insert I_VALID (i_flags x)\<rparr>) s in
              if i_type (icache s ! ip) = 0 then Panic ''ilock: no type'' else Ret () s)))))"

definition iunlock :: "nat option \<Rightarrow> 'a kfs_scheme \<Rightarrow> (unit, 'a kfs_scheme) outcome" where
  "iunlock oip s =
     (case oip of None \<Rightarrow> Panic ''iunlock''
      | Some ip \<Rightarrow>
        if I_BUSY \<notin> i_flags (icache s ! ip) \<or> i_ref (icache s ! ip) < 1 then Panic ''iunlock''
        else and_then (lk_acquire LIcache s) (\<lambda>_ s.
          and_then (wakeup (ChInode ip) (upd_inode ip (\<lambda>x. x\<lparr>i_flags := i_flags x - {I_BUSY}\<rparr>) s)) (\<lambda>_ s.
          lk_release LIcache s)))"

section \<open>Block maps\<close>

text \<open>The scan of the extents: the address of block \<open>bn\<close> if an extent covers it, else the first free slot and
  the last extent that ends right before \<open>bn\<close>.\<close>

fun ext_scan :: "uint \<Rightarrow> uint list \<Rightarrow> nat list \<Rightarrow> nat option \<Rightarrow> nat option \<Rightarrow> uint + (nat option \<times> nat option)" where
  "ext_scan bn as [] fill nb = Inr (fill, nb)"
| "ext_scan bn as (i # is) fill nb =
     (let fill = (if fill = None \<and> as ! i = 0 then Some i else fill);
          len = as ! i AND 0xFF in
      if bn \<ge> as ! (i + 1) \<and> bn < len + as ! (i + 1) then Inl (drop_bit 8 (as ! i) + (bn - as ! (i + 1)))
      else ext_scan bn as is fill (if bn = len + as ! (i + 1) then Some i else nb))"

definition ext_slots :: "nat list" where
  "ext_slots = [0, 2, 4, 6, 8, 10]"

text \<open>A new extent of length one in a free slot.\<close>

definition bmap_fill :: "nat \<Rightarrow> uint \<Rightarrow> uint \<Rightarrow> nat option \<Rightarrow> 'a kfs_scheme \<Rightarrow> (uint, 'a kfs_scheme) outcome" where
  "bmap_fill ip bn addr fill s =
     (case fill of None \<Rightarrow> Panic ''bmap: out of range''
      | Some i \<Rightarrow> Ret addr (upd_inode ip (\<lambda>x. x\<lparr>i_addrs := (i_addrs x)[i := push_bit 8 addr + 1, i + 1 := bn]\<rparr>) s))"

definition bmap_extent :: "nat \<Rightarrow> uint \<Rightarrow> 'a kfs_scheme \<Rightarrow> (uint, 'a kfs_scheme) outcome" where
  "bmap_extent ip bn s =
     (let as = i_addrs (icache s ! ip) in
      case ext_scan bn as ext_slots None None of
        Inl a \<Rightarrow> Ret a s
      | Inr (fill, nb) \<Rightarrow>
          and_then (balloc (i_dev (icache s ! ip)) s) (\<lambda>addr s.
          case nb of
            None \<Rightarrow> bmap_fill ip bn addr fill s
          | Some i \<Rightarrow>
              if addr = drop_bit 8 (as ! i) + (as ! i AND 0xFF)
              then Ret addr (upd_inode ip (\<lambda>x. x\<lparr>i_addrs := (i_addrs x)[i := i_addrs x ! i + 1]\<rparr>) s)
              else bmap_fill ip bn addr fill s))"

text \<open>Direct entry \<open>i\<close> of the inode, allocated on demand.\<close>

definition bmap_direct :: "nat \<Rightarrow> nat \<Rightarrow> 'a kfs_scheme \<Rightarrow> (uint, 'a kfs_scheme) outcome" where
  "bmap_direct ip i s =
     (let addr = i_addrs (icache s ! ip) ! i in
      if addr = 0 then
        and_then (balloc (i_dev (icache s ! ip)) s) (\<lambda>addr s.
        Ret addr (upd_inode ip (\<lambda>x. x\<lparr>i_addrs := (i_addrs x)[i := addr]\<rparr>) s))
      else Ret addr s)"

definition bmap :: "nat \<Rightarrow> uint \<Rightarrow> 'a kfs_scheme \<Rightarrow> (uint, 'a kfs_scheme) outcome" where
  "bmap ip bn s =
     (if i_type (icache s ! ip) = T_EXTENT then bmap_extent ip bn s
      else if unat bn < NDIRECT then bmap_direct ip (unat bn) s
      else
        let k = unat bn - NDIRECT; dev = i_dev (icache s ! ip) in
        if k < NINDIRECT then
          and_then (bmap_direct ip NDIRECT s) (\<lambda>addr s.
          and_then (bread dev addr s) (\<lambda>bp s.
          let addr = get_uint (data_of bp s) k in
          if addr = 0 then
            and_then (balloc dev s) (\<lambda>addr s.
            and_then (bwrite bp (set_data bp (put_uint (data_of bp s) k addr) s)) (\<lambda>_ s.
            and_then (brelse bp s) (\<lambda>_ s. Ret addr s)))
          else and_then (brelse bp s) (\<lambda>_ s. Ret addr s)))
        else Panic ''bmap: out of range'')"

section \<open>Truncation and release\<close>

definition itrunc_extents :: "nat \<Rightarrow> 'a kfs_scheme \<Rightarrow> (unit, 'a kfs_scheme) outcome" where
  "itrunc_extents ip =
     for_each (\<lambda>i s.
       let x = icache s ! ip; a = i_addrs x ! i in
       and_then (for_each (\<lambda>j. bfree (i_dev x) (drop_bit 8 a + of_nat j)) [0..<unat (a AND 0xFF)] s) (\<lambda>_ s.
       Ret () (upd_inode ip (\<lambda>x. x\<lparr>i_addrs := (i_addrs x)[i := 0, i + 1 := 0]\<rparr>) s))) ext_slots"

definition itrunc_direct :: "nat \<Rightarrow> 'a kfs_scheme \<Rightarrow> (unit, 'a kfs_scheme) outcome" where
  "itrunc_direct ip =
     for_each (\<lambda>i s.
       let x = icache s ! ip in
       if i_addrs x ! i = 0 then Ret () s
       else and_then (bfree (i_dev x) (i_addrs x ! i) s) (\<lambda>_ s.
         Ret () (upd_inode ip (\<lambda>x. x\<lparr>i_addrs := (i_addrs x)[i := 0]\<rparr>) s))) [0..<NDIRECT]"

definition itrunc_indirect :: "nat \<Rightarrow> 'a kfs_scheme \<Rightarrow> (unit, 'a kfs_scheme) outcome" where
  "itrunc_indirect ip s =
     (let x = icache s ! ip in
      if i_addrs x ! NDIRECT = 0 then Ret () s
      else and_then (bread (i_dev x) (i_addrs x ! NDIRECT) s) (\<lambda>bp s.
        and_then (for_each (\<lambda>j s.
            let a = get_uint (data_of bp s) j in
            if a = 0 then Ret () s else bfree (i_dev x) a s) [0..<NINDIRECT] s) (\<lambda>_ s.
        and_then (brelse bp s) (\<lambda>_ s.
        and_then (bfree (i_dev x) (i_addrs x ! NDIRECT) s) (\<lambda>_ s.
        Ret () (upd_inode ip (\<lambda>x. x\<lparr>i_addrs := (i_addrs x)[NDIRECT := 0]\<rparr>) s))))))"

definition itrunc :: "nat \<Rightarrow> 'a kfs_scheme \<Rightarrow> (unit, 'a kfs_scheme) outcome" where
  "itrunc ip s =
     and_then
       (if i_type (icache s ! ip) = T_EXTENT then itrunc_extents ip s
        else and_then (itrunc_direct ip s) (\<lambda>_ s. itrunc_indirect ip s)) (\<lambda>_ s.
     iupdate ip (upd_inode ip (\<lambda>x. x\<lparr>i_size := 0\<rparr>) s))"

definition iput :: "nat \<Rightarrow> 'a kfs_scheme \<Rightarrow> (unit, 'a kfs_scheme) outcome" where
  "iput ip s =
     and_then (lk_acquire LIcache s) (\<lambda>_ s.
     and_then
       (if i_ref (icache s ! ip) = 1 \<and> I_VALID \<in> i_flags (icache s ! ip) \<and> i_nlink (icache s ! ip) = 0 then
          if I_BUSY \<in> i_flags (icache s ! ip) then Panic ''iput busy''
          else and_then (lk_release LIcache (upd_inode ip (\<lambda>x. x\<lparr>i_flags := insert I_BUSY (i_flags x)\<rparr>) s)) (\<lambda>_ s.
            and_then (itrunc ip s) (\<lambda>_ s.
            and_then (iupdate ip (upd_inode ip (\<lambda>x. x\<lparr>i_type := 0\<rparr>) s)) (\<lambda>_ s.
            and_then (lk_acquire LIcache s) (\<lambda>_ s.
            wakeup (ChInode ip) (upd_inode ip (\<lambda>x. x\<lparr>i_flags := {}\<rparr>) s)))))
        else Ret () s) (\<lambda>_ s.
     lk_release LIcache (upd_inode ip (\<lambda>x. x\<lparr>i_ref := i_ref x - 1\<rparr>) s)))"

definition iunlockput :: "nat option \<Rightarrow> 'a kfs_scheme \<Rightarrow> (unit, 'a kfs_scheme) outcome" where
  "iunlockput oip s = and_then (iunlock oip s) (\<lambda>_ s. iput (the oip) s)"

section \<open>Contents\<close>

definition stati :: "inode \<Rightarrow> stat" where
  "stati x = \<lparr>st_type = i_type x, st_dev = i_dev x, st_ino = i_inum x, st_nlink = i_nlink x,
     st_size = i_size x, st_addrs = i_addrs x\<rparr>"

definition major_ok :: "ushort \<Rightarrow> bool" where
  "major_ok m \<longleftrightarrow> 0 \<le> sint m \<and> sint m < NDEV"

function readi_loop :: "nat \<Rightarrow> nat \<Rightarrow> nat \<Rightarrow> uint \<Rightarrow> byte list \<Rightarrow> 'a kfs_scheme \<Rightarrow> (byte list, 'a kfs_scheme) outcome" where
  "readi_loop ip n tot off out s =
     (if tot < n then
        and_then (bmap ip (off div of_nat BSIZE) s) (\<lambda>a s.
        and_then (bread (i_dev (icache s ! ip)) a s) (\<lambda>bp s.
        let r = unat off mod BSIZE; m = min (n - tot) (BSIZE - r); out = out @ chunk (data_of bp s) r m in
        and_then (brelse bp s) (\<lambda>_ s. readi_loop ip n (tot + m) (off + of_nat m) out s)))
      else Ret out s)"
  by pat_completeness auto
termination
proof (relation "measure (\<lambda>(ip, n, tot, off, out, s). n - tot)", goal_cases)
  case (2 ip n tot off out s a s1 bp s2 x xa xb x' s3)
  have "unat off mod BSIZE < BSIZE" by (simp add: BSIZE_def)
  with 2 show ?case by simp
qed simp

declare readi_loop.simps [simp del]

definition readi :: "(nat \<Rightarrow> 'a kfs_scheme devsw) \<Rightarrow> nat \<Rightarrow> uint \<Rightarrow> uint \<Rightarrow> 'a kfs_scheme \<Rightarrow>
    (uint \<times> byte list, 'a kfs_scheme) outcome" where
  "readi dsw ip off n s =
     (let x = icache s ! ip in
      if i_type x = T_DEV then
        (if \<not> major_ok (i_major x) then Ret (-1, []) s
         else case dev_read (dsw (nat (sint (i_major x)))) of None \<Rightarrow> Ret (-1, []) s | Some f \<Rightarrow> f ip n s)
      else if off > i_size x \<or> off + n < off then Ret (-1, []) s
      else let n = (if off + n > i_size x then i_size x - off else n) in
        and_then (readi_loop ip (unat n) 0 off [] s) (\<lambda>out s. Ret (n, out) s))"

function writei_loop :: "nat \<Rightarrow> byte list \<Rightarrow> nat \<Rightarrow> nat \<Rightarrow> uint \<Rightarrow> 'a kfs_scheme \<Rightarrow> (uint, 'a kfs_scheme) outcome" where
  "writei_loop ip src n tot off s =
     (if tot < n then
        and_then (bmap ip (off div of_nat BSIZE) s) (\<lambda>a s.
        and_then (bread (i_dev (icache s ! ip)) a s) (\<lambda>bp s.
        let r = unat off mod BSIZE; m = min (n - tot) (BSIZE - r) in
        and_then (bwrite bp (set_data bp (put_at (data_of bp s) r (chunk src tot m)) s)) (\<lambda>_ s.
        and_then (brelse bp s) (\<lambda>_ s. writei_loop ip src n (tot + m) (off + of_nat m) s))))
      else Ret off s)"
  by pat_completeness auto
termination
proof (relation "measure (\<lambda>(ip, src, n, tot, off, s). n - tot)", goal_cases)
  case (2 ip src n tot off s a s1 bp s2 x xa x1 s3 x2 s4)
  have "unat off mod BSIZE < BSIZE" by (simp add: BSIZE_def)
  with 2 show ?case by simp
qed simp

declare writei_loop.simps [simp del]

definition writei :: "(nat \<Rightarrow> 'a kfs_scheme devsw) \<Rightarrow> nat \<Rightarrow> byte list \<Rightarrow> uint \<Rightarrow> uint \<Rightarrow> 'a kfs_scheme \<Rightarrow>
    (uint, 'a kfs_scheme) outcome" where
  "writei dsw ip src off n s =
     (let x = icache s ! ip in
      if i_type x = T_DEV then
        (if \<not> major_ok (i_major x) then Ret (-1) s
         else case dev_write (dsw (nat (sint (i_major x)))) of None \<Rightarrow> Ret (-1) s | Some f \<Rightarrow> f ip src n s)
      else if off > i_size x \<or> off + n < off then Ret (-1) s
      else let n = (if off + n > of_nat (MAXFILE * BSIZE) \<and> i_type x \<noteq> T_EXTENT
                    then of_nat (MAXFILE * BSIZE) - off else n) in
        and_then (writei_loop ip src (unat n) 0 off s) (\<lambda>off s.
        if n > 0 \<and> off > i_size (icache s ! ip)
        then and_then (iupdate ip (upd_inode ip (\<lambda>x. x\<lparr>i_size := off\<rparr>) s)) (\<lambda>_ s. Ret n s)
        else Ret n s))"

end
