(* ===== verification/Mmu.thy ===== *)
theory Mmu
  imports Kprelude
begin

text \<open>
  The memory-management structures of \<^verbatim>\<open>src/5/xv6/mmu.h\<close>: addresses of pages and page-table
  entries, segment descriptors and interrupt gates as bit fields.

  The lemmas say that the macros describe what they are given: the base and the limit the processor
  reassembles from a descriptor are the ones passed to \<^verbatim>\<open>SEG\<close> and \<^verbatim>\<open>SEG16\<close>, the entry point it
  reassembles from a gate is the one passed to \<^verbatim>\<open>SETGATE\<close>, and an address is the sum of its
  three parts.
\<close>

section \<open>Paging\<close>

definition PGSIZE :: nat where "PGSIZE = 4096"
definition NPDENTRIES :: nat where "NPDENTRIES = 1024"

definition PDX :: "uint \<Rightarrow> uint" where "PDX la = drop_bit 22 la AND 0x3FF"
definition PTX :: "uint \<Rightarrow> uint" where "PTX la = drop_bit 12 la AND 0x3FF"
definition PGADDR :: "uint \<Rightarrow> uint \<Rightarrow> uint \<Rightarrow> uint" where
  "PGADDR d t off = (push_bit 22 d OR push_bit 12 t OR off)"

definition PGROUNDUP :: "uint \<Rightarrow> uint" where "PGROUNDUP sz = (sz + 4096 - 1) AND NOT (4096 - 1)"
definition PGROUNDDOWN :: "uint \<Rightarrow> uint" where "PGROUNDDOWN a = a AND NOT (4096 - 1)"

definition PTE_P :: uint where "PTE_P = 1"
definition PTE_W :: uint where "PTE_W = 2"
definition PTE_U :: uint where "PTE_U = 4"

definition PTE_ADDR :: "uint \<Rightarrow> uint" where "PTE_ADDR pte = pte AND NOT 0xFFF"

definition USERTOP :: uint where "USERTOP = 0xA0000"
definition PHYSTOP :: uint where "PHYSTOP = 0x1000000"
definition KSTACKSIZE :: uint where "KSTACKSIZE = 4096"

definition FL_IF :: uint where "FL_IF = 0x200"
definition DPL_USER :: "2 word" where "DPL_USER = 3"
definition CR0_PG :: uint where "CR0_PG = 0x80000000"

section \<open>Segment descriptors\<close>

record segdesc =
  sd_lim_15_0 :: "16 word"
  sd_base_15_0 :: "16 word"
  sd_base_23_16 :: "8 word"
  sd_type :: "4 word"
  sd_s :: "1 word"
  sd_dpl :: "2 word"
  sd_p :: "1 word"
  sd_lim_19_16 :: "4 word"
  sd_avl :: "1 word"
  sd_rsv1 :: "1 word"
  sd_db :: "1 word"
  sd_g :: "1 word"
  sd_base_31_24 :: "8 word"

definition SEG :: "4 word \<Rightarrow> uint \<Rightarrow> uint \<Rightarrow> 2 word \<Rightarrow> segdesc" where
  "SEG ty base lim dpl =
     \<lparr>sd_lim_15_0 = ucast (drop_bit 12 lim AND 0xffff), sd_base_15_0 = ucast (base AND 0xffff),
      sd_base_23_16 = ucast (drop_bit 16 base AND 0xff), sd_type = ty, sd_s = 1, sd_dpl = dpl, sd_p = 1,
      sd_lim_19_16 = ucast (drop_bit 28 lim), sd_avl = 0, sd_rsv1 = 0, sd_db = 1, sd_g = 1,
      sd_base_31_24 = ucast (drop_bit 24 base)\<rparr>"

definition SEG16 :: "4 word \<Rightarrow> uint \<Rightarrow> uint \<Rightarrow> 2 word \<Rightarrow> segdesc" where
  "SEG16 ty base lim dpl =
     \<lparr>sd_lim_15_0 = ucast (lim AND 0xffff), sd_base_15_0 = ucast (base AND 0xffff),
      sd_base_23_16 = ucast (drop_bit 16 base AND 0xff), sd_type = ty, sd_s = 1, sd_dpl = dpl, sd_p = 1,
      sd_lim_19_16 = ucast (drop_bit 16 lim), sd_avl = 0, sd_rsv1 = 0, sd_db = 1, sd_g = 0,
      sd_base_31_24 = ucast (drop_bit 24 base)\<rparr>"

definition STA_X :: "4 word" where "STA_X = 8"
definition STA_W :: "4 word" where "STA_W = 2"
definition STA_R :: "4 word" where "STA_R = 2"
definition STS_T32A :: "4 word" where "STS_T32A = 9"
definition STS_IG32 :: "4 word" where "STS_IG32 = 0xE"
definition STS_TG32 :: "4 word" where "STS_TG32 = 0xF"

definition SEG_KCODE :: nat where "SEG_KCODE = 1"
definition SEG_KDATA :: nat where "SEG_KDATA = 2"
definition SEG_KCPU :: nat where "SEG_KCPU = 3"
definition SEG_UCODE :: nat where "SEG_UCODE = 4"
definition SEG_UDATA :: nat where "SEG_UDATA = 5"
definition SEG_TSS :: nat where "SEG_TSS = 6"
definition NSEGS :: nat where "NSEGS = 7"

lemmas seg_consts =
  SEG_KCODE_def SEG_KDATA_def SEG_KCPU_def SEG_UCODE_def SEG_UDATA_def SEG_TSS_def NSEGS_def

section \<open>Gates\<close>

record gatedesc =
  gd_off_15_0 :: "16 word"
  gd_cs :: "16 word"
  gd_args :: "5 word"
  gd_rsv1 :: "3 word"
  gd_type :: "4 word"
  gd_s :: "1 word"
  gd_dpl :: "2 word"
  gd_p :: "1 word"
  gd_off_31_16 :: "16 word"

definition SETGATE :: "bool \<Rightarrow> 16 word \<Rightarrow> uint \<Rightarrow> 2 word \<Rightarrow> gatedesc" where
  "SETGATE istrap sel off d =
     \<lparr>gd_off_15_0 = ucast (off AND 0xffff), gd_cs = sel, gd_args = 0, gd_rsv1 = 0,
      gd_type = (if istrap then STS_TG32 else STS_IG32), gd_s = 0, gd_dpl = d, gd_p = 1,
      gd_off_31_16 = ucast (drop_bit 16 off)\<rparr>"

section \<open>What the processor reads\<close>

text \<open>The base and the limit of a descriptor, and the entry point of a gate, as the processor puts them
  together; the limit counts pages when the granularity bit is set.\<close>

definition desc_base :: "segdesc \<Rightarrow> uint" where
  "desc_base d = (ucast (sd_base_15_0 d) OR push_bit 16 (ucast (sd_base_23_16 d)) OR
     push_bit 24 (ucast (sd_base_31_24 d)))"

definition desc_limit :: "segdesc \<Rightarrow> uint" where
  "desc_limit d =
     (let l = ucast (sd_lim_15_0 d) OR push_bit 16 (ucast (sd_lim_19_16 d)) in
      if sd_g d = 1 then push_bit 12 l OR 0xFFF else l)"

definition gate_offset :: "gatedesc \<Rightarrow> uint" where
  "gate_offset g = (ucast (gd_off_15_0 g) OR push_bit 16 (ucast (gd_off_31_16 g)))"

lemma mask_consts:
  "(0xFFFF :: uint) = mask 16" "(0xFF :: uint) = mask 8" "(0xFFF :: uint) = mask 12" "(0x3FF :: uint) = mask 10"
  "(0xFFFFF :: uint) = mask 20"
  by (simp_all add: mask_eq_exp_minus_1)

lemma and_FFFF_ucast: "(ucast (x AND 0xFFFF) :: 16 word) = ucast (x :: uint)"
  by (rule bit_word_eqI) (simp add: mask_consts bit_simps)

lemma and_FF_ucast: "(ucast (x AND 0xFF) :: 8 word) = ucast (x :: uint)"
  by (rule bit_word_eqI) (simp add: mask_consts bit_simps)

text \<open>The fields put together: the upper parts lie above the lower ones.\<close>

lemma join_8_8_16:
  "(ucast (ucast x :: 16 word) OR push_bit 16 (ucast (ucast (drop_bit 16 x) :: 8 word)) OR
     push_bit 24 (ucast (ucast (drop_bit 24 x) :: 8 word))) = (x :: uint)"
proof (rule bit_word_eqI)
  fix n :: nat
  assume "n < LENGTH(32)"
  then show "bit (ucast (ucast x :: 16 word) OR push_bit 16 (ucast (ucast (drop_bit 16 x) :: 8 word)) OR
     push_bit 24 (ucast (ucast (drop_bit 24 x) :: 8 word)) :: uint) n = bit x n"
    by (cases "24 \<le> n"; cases "16 \<le> n") (auto simp: bit_simps)
qed

lemma join_16_16:
  "(ucast (ucast x :: 16 word) OR push_bit 16 (ucast (ucast (drop_bit 16 x) :: 16 word))) = (x :: uint)"
  by (rule bit_word_eqI) (auto simp: bit_simps)

lemma desc_base_SEG [simp]: "desc_base (SEG ty b l d) = b"
  by (simp add: desc_base_def SEG_def and_FFFF_ucast and_FF_ucast join_8_8_16)

lemma desc_base_SEG16 [simp]: "desc_base (SEG16 ty b l d) = b"
  by (simp add: desc_base_def SEG16_def and_FFFF_ucast and_FF_ucast join_8_8_16)

lemma desc_limit_SEG [simp]: "desc_limit (SEG ty b l d) = l OR 0xFFF"
proof (rule bit_word_eqI)
  fix n :: nat
  assume "n < LENGTH(32)"
  then show "bit (desc_limit (SEG ty b l d)) n = bit (l OR 0xFFF) n"
    by (cases "28 \<le> n"; cases "12 \<le> n")
      (auto simp: desc_limit_def SEG_def and_FFFF_ucast mask_consts bit_simps)
qed

lemma desc_limit_SEG16 [simp]: "desc_limit (SEG16 ty b l d) = l AND 0xFFFFF"
proof (rule bit_word_eqI)
  fix n :: nat
  assume "n < LENGTH(32)"
  then show "bit (desc_limit (SEG16 ty b l d)) n = bit (l AND 0xFFFFF) n"
    by (cases "16 \<le> n") (auto simp: desc_limit_def SEG16_def and_FFFF_ucast mask_consts bit_simps)
qed

lemma gate_offset_SETGATE [simp]: "gate_offset (SETGATE t sel off d) = off"
  by (simp add: gate_offset_def SETGATE_def and_FFFF_ucast join_16_16)

section \<open>Page arithmetic\<close>

lemma not_page_mask: "NOT (0xFFF :: uint) = NOT (mask 12)" "NOT ((4096 :: uint) - 1) = NOT (mask 12)"
  by (simp_all add: mask_eq_exp_minus_1)

lemma and_not_mask_12: "(x :: uint) AND NOT (mask 12) = push_bit 12 (drop_bit 12 x)"
  by (rule bit_word_eqI) (auto simp: bit_simps)

lemma unat_page_of: "unat ((x :: uint) AND NOT (mask 12)) = unat x div 4096 * 4096"
proof -
  have "unat (x div 4096) = unat x div 4096" by (simp add: unat_div)
  moreover have "unat x div 4096 * 4096 < 2 ^ 32" using unat_lt [of x] by (simp add: div_times_less_eq_dividend le_less_trans)
  ultimately have "unat (x div 4096 * 4096) = unat x div 4096 * 4096"
    by (simp add: unat_word_ariths)
  then show ?thesis by (simp add: and_not_mask_12 drop_bit_eq_div push_bit_eq_mult)
qed

lemma unat_PGROUNDDOWN: "unat (PGROUNDDOWN a) = unat a div 4096 * 4096"
  and unat_PTE_ADDR: "unat (PTE_ADDR a) = unat a div 4096 * 4096"
  by (simp_all only: PGROUNDDOWN_def PTE_ADDR_def not_page_mask unat_page_of)

lemma unat_PGROUNDUP:
  assumes "unat a + 4095 < 2 ^ 32"
  shows "unat (PGROUNDUP a) = (unat a + 4095) div 4096 * 4096"
proof -
  have "unat (a + 4096 - 1) = unat a + 4095"
    using assms by (simp add: unat_word_ariths)
  then show ?thesis by (simp only: PGROUNDUP_def not_page_mask unat_page_of)
qed

lemma unat_page_offset: "unat (va - PGROUNDDOWN va) = unat va mod 4096"
proof -
  have "unat (PGROUNDDOWN va) \<le> unat va" by (simp add: unat_PGROUNDDOWN)
  then have "unat (va - PGROUNDDOWN va) = unat va - unat va div 4096 * 4096"
    by (simp add: unat_sub word_le_nat_alt unat_PGROUNDDOWN)
  then show ?thesis by (simp add: minus_div_mult_eq_mod)
qed

lemma unat_page_left: "unat (of_nat PGSIZE - (va - PGROUNDDOWN va)) = 4096 - unat va mod 4096"
  using unat_page_offset [of va] by (simp add: PGSIZE_def unat_sub word_le_nat_alt)

end
