(* ===== verification/Kalloc.thy ===== *)
theory Kalloc
  imports Inode Mmu
begin

text \<open>
  Physical memory and its page allocator: \<^verbatim>\<open>src/5/xv6/kalloc.c\<close>.

  The kernel runs with physical and kernel-virtual addresses equal, so memory is a map from 32-bit addresses to
  bytes (\<open>pmem\<close>).  The free list is threaded through the free pages themselves, as in the code: the first word of
  a free page is the address of the next one.  \<open>k_end\<close> is the linker's symbol \<^verbatim>\<open>end\<close>, a constant of the state.

  The locale \<open>page_pool\<close> is the contract of the allocator: the free pages form a stack, \<open>kalloc\<close> pops
  it and returns 0 exactly when it is empty, \<open>kfree\<close> pushes, and neither touches a page that is in use.
\<close>

section \<open>Memory\<close>

type_synonym mem = "uint \<Rightarrow> byte"

definition mem_read :: "mem \<Rightarrow> uint \<Rightarrow> nat \<Rightarrow> byte list" where
  "mem_read m a n = map (\<lambda>i. m (a + of_nat i)) [0..<n]"

definition mem_write :: "mem \<Rightarrow> uint \<Rightarrow> byte list \<Rightarrow> mem" where
  "mem_write m a bs = (\<lambda>x. if unat (x - a) < length bs then bs ! unat (x - a) else m x)"

definition mem_fill :: "mem \<Rightarrow> uint \<Rightarrow> byte \<Rightarrow> nat \<Rightarrow> mem" where
  "mem_fill m a c n = (\<lambda>x. if unat (x - a) < n then c else m x)"

definition rd_word :: "mem \<Rightarrow> uint \<Rightarrow> uint" where
  "rd_word m a = of_le32 (mem_read m a 4)"

definition wr_word :: "mem \<Rightarrow> uint \<Rightarrow> uint \<Rightarrow> mem" where
  "wr_word m a w = mem_write m a (le32 w)"

section \<open>The allocator\<close>

record kmem = kfs +
  pmem :: mem
  freelist :: uint
  k_end :: uint

definition kfree :: "uint \<Rightarrow> 'a kmem_scheme \<Rightarrow> (unit, 'a kmem_scheme) outcome" where
  "kfree v s =
     (if v mod of_nat PGSIZE \<noteq> 0 \<or> v < k_end s \<or> v \<ge> PHYSTOP then Panic ''kfree''
      else
        and_then (lk_acquire LKmem (s\<lparr>pmem := mem_fill (pmem s) v 1 PGSIZE\<rparr>)) (\<lambda>_ s.
        lk_release LKmem (s\<lparr>pmem := wr_word (pmem s) v (freelist s), freelist := v\<rparr>)))"

definition kalloc :: "'a kmem_scheme \<Rightarrow> (uint, 'a kmem_scheme) outcome" where
  "kalloc s =
     and_then (lk_acquire LKmem s) (\<lambda>_ s.
     let r = freelist s;
         s = (if r \<noteq> 0 then s\<lparr>freelist := rd_word (pmem s) r\<rparr> else s) in
     and_then (lk_release LKmem s) (\<lambda>_ s. Ret r s))"

lemma kfree_below_PHYSTOP: "kfree v s = Ret u t \<Longrightarrow> v < PHYSTOP"
  by (auto simp: kfree_def not_le split: if_splits)

function kinit_loop :: "uint \<Rightarrow> 'a kmem_scheme \<Rightarrow> (unit, 'a kmem_scheme) outcome" where
  "kinit_loop p s =
     (if p + of_nat PGSIZE \<le> PHYSTOP then and_then (kfree p s) (\<lambda>_ s. kinit_loop (p + of_nat PGSIZE) s)
      else Ret () s)"
  by pat_completeness auto
termination
proof (relation "measure (\<lambda>(p, s). unat PHYSTOP - unat p)", goal_cases)
  case (2 p s u t)
  then have "unat p < 0x1000000" using kfree_below_PHYSTOP [of p s] by (simp add: PHYSTOP_def word_less_nat_alt)
  then show ?case by (simp add: PGSIZE_def PHYSTOP_def unat_word_ariths)
qed simp

declare kinit_loop.simps [simp del]

definition kinit :: "'a kmem_scheme \<Rightarrow> (unit, 'a kmem_scheme) outcome" where
  "kinit s = kinit_loop (PGROUNDUP (k_end s)) s"

section \<open>Memory lemmas\<close>

lemma mem_write_read_same: "length bs < 2 ^ 32 \<Longrightarrow> n = length bs \<Longrightarrow> mem_read (mem_write m a bs) a n = bs"
  by (auto simp: mem_read_def mem_write_def unat_of_nat intro!: nth_equalityI)

lemma length_mem_read [simp]: "length (mem_read m a n) = n"
  by (simp add: mem_read_def)

lemma rd_wr_word_same [simp]: "rd_word (wr_word m a w) a = w"
  by (simp add: rd_word_def wr_word_def mem_write_read_same)

text \<open>Two accesses that lie in different aligned pages do not meet.\<close>

definition in_page :: "uint \<Rightarrow> uint \<Rightarrow> bool" where
  "in_page v a \<longleftrightarrow> unat v \<le> unat a \<and> unat a < unat v + PGSIZE"

definition same_page :: "mem \<Rightarrow> mem \<Rightarrow> uint \<Rightarrow> bool" where
  "same_page m m' v \<longleftrightarrow> (\<forall>a. in_page v a \<longrightarrow> m' a = m a)"

definition aligned :: "uint \<Rightarrow> bool" where
  "aligned v \<longleftrightarrow> v mod of_nat PGSIZE = 0"

lemma aligned_nat: "aligned v \<longleftrightarrow> unat v mod 4096 = 0"
proof -
  have "unat (v mod 4096) = unat v mod 4096" by (simp add: unat_mod)
  moreover have "v mod 4096 = 0 \<longleftrightarrow> unat (v mod 4096) = 0" by (simp add: unat_eq_0)
  ultimately show ?thesis by (simp add: aligned_def PGSIZE_def)
qed

lemma page_base:
  assumes "unat v mod 4096 = 0" and "unat v \<le> a" and "a < unat v + 4096"
  shows "unat v = a div 4096 * 4096"
proof -
  obtain k where k: "unat v = 4096 * k" using assms(1) by (metis dvd_def mod_0_imp_dvd)
  then have "a div 4096 = k" using assms(2,3) by (intro div_nat_eqI) auto
  then show ?thesis using k by simp
qed

lemma pages_disjoint: "aligned v \<Longrightarrow> aligned w \<Longrightarrow> in_page v a \<Longrightarrow> in_page w a \<Longrightarrow> v = w"
proof -
  assume a: "aligned v" "aligned w" "in_page v a" "in_page w a"
  then have "unat v = unat a div 4096 * 4096" "unat w = unat a div 4096 * 4096"
    by (auto simp: aligned_nat in_page_def PGSIZE_def intro!: page_base)
  then have "unat v = unat w" by simp
  then show ?thesis by (rule unsigned_word_eqI)
qed

text \<open>An aligned page does not wrap around the address space.\<close>

lemma aligned_top: "aligned v \<Longrightarrow> unat v + 4096 \<le> 2 ^ 32"
proof -
  assume "aligned v"
  then obtain k where k: "unat v = 4096 * k" by (metis aligned_nat dvd_def mod_0_imp_dvd)
  then show ?thesis using unat_lt [of v] by simp
qed

lemma offset_in_page: "aligned v \<Longrightarrow> unat (a - v) < PGSIZE \<longleftrightarrow> in_page v a"
proof -
  assume v: "aligned v"
  show ?thesis
  proof (cases "unat v \<le> unat a")
    case True
    then have "unat (a - v) = unat a - unat v" by (simp add: unat_sub word_le_nat_alt)
    then show ?thesis using True by (auto simp: in_page_def)
  next
    case False
    then have "unat (a - v) = 2 ^ 32 - (unat v - unat a)"
      using unat_lt [of v] by (simp add: unat_sub_if' word_le_nat_alt)
    then show ?thesis using False aligned_top [OF v] by (auto simp: in_page_def PGSIZE_def)
  qed
qed

lemma word_in_page: "aligned v \<Longrightarrow> i < PGSIZE \<Longrightarrow> in_page v (v + of_nat i)"
  by (simp add: offset_in_page [symmetric] unat_of_nat PGSIZE_def)

lemma same_page_read:
  "same_page m m' v \<Longrightarrow> aligned v \<Longrightarrow> n \<le> PGSIZE \<Longrightarrow> mem_read m' v n = mem_read m v n"
  by (simp add: mem_read_def same_page_def word_in_page)

lemma same_page_fill: "aligned v \<Longrightarrow> aligned w \<Longrightarrow> v \<noteq> w \<Longrightarrow> same_page m (mem_fill m v c PGSIZE) w"
  using pages_disjoint by (auto simp: same_page_def mem_fill_def offset_in_page)

lemma same_page_write:
  "aligned v \<Longrightarrow> aligned w \<Longrightarrow> v \<noteq> w \<Longrightarrow> length bs \<le> PGSIZE \<Longrightarrow> same_page m (mem_write m v bs) w"
proof -
  assume a: "aligned v" "aligned w" "v \<noteq> w" "length bs \<le> PGSIZE"
  have "\<not> unat (x - v) < length bs" if "in_page w x" for x
    using that a offset_in_page [of v x] pages_disjoint [of v w x] by auto
  then show ?thesis by (simp add: same_page_def mem_write_def)
qed

lemma same_page_trans: "same_page m m' v \<Longrightarrow> same_page m' m'' v \<Longrightarrow> same_page m m'' v"
  by (simp add: same_page_def)

lemma same_page_refl [simp]: "same_page m m v"
  by (simp add: same_page_def)

section \<open>The contract of the allocator\<close>

fun free_chain :: "mem \<Rightarrow> uint \<Rightarrow> uint list \<Rightarrow> bool" where
  "free_chain m p [] \<longleftrightarrow> p = 0"
| "free_chain m p (x # xs) \<longleftrightarrow> p = x \<and> x \<noteq> 0 \<and> free_chain m (rd_word m x) xs"

definition page_ok :: "'a kmem_scheme \<Rightarrow> uint \<Rightarrow> bool" where
  "page_ok s v \<longleftrightarrow> aligned v \<and> k_end s \<le> v \<and> v < PHYSTOP \<and> v \<noteq> 0"

definition pool_ok :: "'a kmem_scheme \<Rightarrow> uint list \<Rightarrow> bool" where
  "pool_ok s vs \<longleftrightarrow> free_chain (pmem s) (freelist s) vs \<and> distinct vs \<and> (\<forall>v \<in> set vs. page_ok s v)
     \<and> LKmem \<notin> held s"

text \<open>Everything but memory and the free list.\<close>

definition nomem :: "'a kmem_scheme \<Rightarrow> 'a kmem_scheme" where
  "nomem s = s\<lparr>pmem := \<lambda>_. 0, freelist := 0\<rparr>"

lemma free_chain_same:
  "(\<And>v. v \<in> set vs \<Longrightarrow> same_page m m' v) \<Longrightarrow> (\<And>v. v \<in> set vs \<Longrightarrow> aligned v) \<Longrightarrow>
    free_chain m' p vs = free_chain m p vs"
proof (induction vs arbitrary: p)
  case (Cons v vs)
  have "rd_word m' v = rd_word m v"
    using same_page_read [of m m' v 4] Cons.prems [of v] by (simp add: rd_word_def PGSIZE_def)
  then show ?case using Cons by simp
qed simp

lemma page_ok_nomem: "nomem t = nomem s \<Longrightarrow> page_ok t = page_ok s"
proof -
  assume "nomem t = nomem s"
  then have "k_end (nomem t) = k_end (nomem s)" by simp
  then show ?thesis by (simp add: page_ok_def fun_eq_iff nomem_def)
qed

locale page_pool =
  fixes alloc :: "'s \<Rightarrow> (uint, 's) outcome" and free :: "uint \<Rightarrow> 's \<Rightarrow> (unit, 's) outcome"
    and pool :: "'s \<Rightarrow> uint list \<Rightarrow> bool" and usable :: "'s \<Rightarrow> uint \<Rightarrow> bool" and ram :: "'s \<Rightarrow> mem"
    and rest :: "'s \<Rightarrow> 'r"
  assumes alloc_none: "pool s [] \<Longrightarrow> alloc s = Ret 0 s"
    and alloc_pop: "pool s (v # vs) \<Longrightarrow>
      returns (alloc s) (\<lambda>r t. r = v \<and> pool t vs \<and> ram t = ram s \<and> rest t = rest s)"
    and free_push: "pool s vs \<Longrightarrow> usable s v \<Longrightarrow> v \<notin> set vs \<Longrightarrow>
      returns (free v s) (\<lambda>_ t. pool t (v # vs) \<and> rest t = rest s \<and>
        (\<forall>w. aligned w \<longrightarrow> w \<noteq> v \<longrightarrow> same_page (ram s) (ram t) w))"
    and pool_distinct: "pool s vs \<Longrightarrow> distinct vs"
    and pool_usable: "pool s vs \<Longrightarrow> v \<in> set vs \<Longrightarrow> usable s v"
    and usable_rest: "rest t = rest s \<Longrightarrow> usable t = usable s"
    and usable_nonzero: "usable s v \<Longrightarrow> v \<noteq> 0"
begin

lemma alloc_zero_iff: "pool s vs \<Longrightarrow> returns (alloc s) (\<lambda>r t. (r = 0) = (vs = []))"
proof (cases vs)
  case (Cons v ws)
  assume p: "pool s vs"
  then have "v \<noteq> 0" using Cons pool_usable [OF p, of v] usable_nonzero by simp
  then show ?thesis using alloc_pop [of s v ws] p Cons by (auto elim!: returns_mono)
qed (simp add: alloc_none)

text \<open>A freed page is the next one allocated, and everything else is as before.\<close>

lemma free_alloc:
  assumes "pool s vs" and "usable s v" and "v \<notin> set vs"
  shows "returns (and_then (free v s) (\<lambda>_. alloc)) (\<lambda>r t. r = v \<and> pool t vs \<and> rest t = rest s \<and>
    (\<forall>w. aligned w \<longrightarrow> w \<noteq> v \<longrightarrow> same_page (ram s) (ram t) w))"
  by (rule returns_bind [OF free_push [OF assms]]) (auto elim!: returns_mono [OF alloc_pop])

end

interpretation pp: page_pool kalloc kfree pool_ok page_ok pmem nomem
proof
  fix s :: "'a kmem_scheme" and v vs
  show "pool_ok s [] \<Longrightarrow> kalloc s = Ret 0 s"
    by (simp add: pool_ok_def kalloc_def)
  show "pool_ok s (v # vs) \<Longrightarrow>
      returns (kalloc s) (\<lambda>r t. r = v \<and> pool_ok t vs \<and> pmem t = pmem s \<and> nomem t = nomem s)"
    by (auto simp: pool_ok_def kalloc_def nomem_def page_ok_def)
  show "distinct vs" if "pool_ok s vs" using that by (simp add: pool_ok_def)
  show "page_ok s v" if "pool_ok s vs" "v \<in> set vs" using that by (simp add: pool_ok_def)
  show "page_ok t = page_ok s" if "nomem t = nomem s" for t using that by (rule page_ok_nomem)
  show "v \<noteq> 0" if "page_ok s v" using that by (simp add: page_ok_def)
  assume p: "pool_ok s vs" and v: "page_ok s v" "v \<notin> set vs"
  let ?m = "wr_word (mem_fill (pmem s) v 1 PGSIZE) v (freelist s)"
  have al: "aligned w" if "w \<in> set vs" for w using that p by (simp add: pool_ok_def page_ok_def)
  have sp: "same_page (pmem s) ?m w" if "aligned w" "w \<noteq> v" for w
    using that v(1) same_page_trans [OF same_page_fill same_page_write, of v w]
    by (simp add: wr_word_def page_ok_def PGSIZE_def)
  have "free_chain ?m (freelist s) vs"
    using p al sp v(2) by (subst free_chain_same [of _ "pmem s"]) (auto simp: pool_ok_def)
  then show "returns (kfree v s) (\<lambda>_ t. pool_ok t (v # vs) \<and> nomem t = nomem s \<and>
      (\<forall>w. aligned w \<longrightarrow> w \<noteq> v \<longrightarrow> same_page (pmem s) (pmem t) w))"
    using p v sp by (auto simp: kfree_def pool_ok_def page_ok_def aligned_def nomem_def not_less not_le)
qed

section \<open>Histories of the allocator\<close>

text \<open>A history of the allocator, with the set of pages its clients hold: a page is allocated, a held page is
  freed, or a client writes to a page it holds.\<close>

inductive pool_run :: "'a kmem_scheme \<Rightarrow> uint set \<Rightarrow> 'a kmem_scheme \<Rightarrow> uint set \<Rightarrow> bool"
  for s0 :: "'a kmem_scheme" and U0 :: "uint set" where
  start: "pool_run s0 U0 s0 U0"
| take_page: "pool_run s0 U0 s U \<Longrightarrow> kalloc s = Ret v t \<Longrightarrow> pool_run s0 U0 t (if v = 0 then U else insert v U)"
| give_page: "pool_run s0 U0 s U \<Longrightarrow> v \<in> U \<Longrightarrow> kfree v s = Ret u t \<Longrightarrow> pool_run s0 U0 t (U - {v})"
| use_page: "pool_run s0 U0 s U \<Longrightarrow> v \<in> U \<Longrightarrow> in_page v a \<Longrightarrow> pool_run s0 U0 (s\<lparr>pmem := (pmem s)(a := b)\<rparr>) U"

definition pool_split :: "'a kmem_scheme \<Rightarrow> uint set \<Rightarrow> uint set \<Rightarrow> bool" where
  "pool_split s U P \<longleftrightarrow> (\<exists>vs. pool_ok s vs \<and> set vs \<inter> U = {} \<and> set vs \<union> U = P \<and> (\<forall>v \<in> U. page_ok s v))"

lemma pool_ok_write:
  assumes "pool_ok s vs" and "page_ok s v" and "v \<notin> set vs" and "in_page v a"
  shows "pool_ok (s\<lparr>pmem := (pmem s)(a := b)\<rparr>) vs"
proof -
  have "same_page (pmem s) ((pmem s)(a := b)) w \<and> aligned w" if "w \<in> set vs" for w
    using that assms pages_disjoint [of v w a] by (auto simp: same_page_def pool_ok_def page_ok_def)
  then have "free_chain ((pmem s)(a := b)) p vs = free_chain (pmem s) p vs" for p
    by (intro free_chain_same) auto
  then show ?thesis using assms(1) by (simp add: pool_ok_def page_ok_def)
qed

lemma pool_run_split: "pool_run s0 U0 t U \<Longrightarrow> pool_split s0 U0 P \<Longrightarrow> pool_split t U P"
proof (induction rule: pool_run.induct)
  case (take_page s U v t)
  then obtain vs where vs: "pool_ok s vs" "set vs \<inter> U = {}" "set vs \<union> U = P" "\<forall>v \<in> U. page_ok s v"
    by (auto simp: pool_split_def)
  show ?case
  proof (cases vs)
    case Nil
    then show ?thesis using vs take_page.hyps(2) pp.alloc_none [of s]
      by (auto simp: pool_split_def intro!: exI [of _ "[]"])
  next
    case (Cons w ws)
    then have t: "v = w" "pool_ok t ws" "nomem t = nomem s"
      using pp.alloc_pop [of s w ws] vs(1) take_page.hyps(2) by auto
    have w: "page_ok s w" "w \<notin> set ws" "w \<noteq> 0"
      using pp.pool_usable [OF vs(1), of w] pp.pool_distinct [OF vs(1)] pp.usable_nonzero [of s w] Cons by auto
    show ?thesis unfolding pool_split_def
      using t w vs Cons page_ok_nomem [OF t(3)] by (intro exI [of _ ws]) auto
  qed
next
  case (give_page s U v u t)
  then obtain vs where vs: "pool_ok s vs" "set vs \<inter> U = {}" "set vs \<union> U = P" "\<forall>v \<in> U. page_ok s v"
    by (auto simp: pool_split_def)
  then have "v \<notin> set vs" "page_ok s v" using give_page.hyps(2) by auto
  then have t: "pool_ok t (v # vs)" "nomem t = nomem s"
    using pp.free_push [OF vs(1), of v] give_page.hyps(3) by auto
  show ?case unfolding pool_split_def
    using t vs give_page.hyps(2) page_ok_nomem [OF t(2)] by (intro exI [of _ "v # vs"]) auto
next
  case (use_page s U v a b)
  then obtain vs where vs: "pool_ok s vs" "set vs \<inter> U = {}" "set vs \<union> U = P" "\<forall>v \<in> U. page_ok s v"
    by (auto simp: pool_split_def)
  then have "pool_ok (s\<lparr>pmem := (pmem s)(a := b)\<rparr>) vs"
    using use_page.hyps by (intro pool_ok_write [of s vs v]) auto
  then show ?case unfolding pool_split_def using vs by (intro exI [of _ vs]) (auto simp: page_ok_def)
qed

section \<open>Initialisation\<close>

definition pages_between :: "uint \<Rightarrow> uint \<Rightarrow> uint set" where
  "pages_between lo hi = {v. aligned v \<and> lo \<le> v \<and> v < hi}"

lemma next_page:
  assumes "aligned p" and "p < PHYSTOP"
  shows "aligned (p + of_nat PGSIZE)" "unat (p + of_nat PGSIZE) = unat p + 4096" "p + of_nat PGSIZE \<le> PHYSTOP"
proof -
  have p: "unat p < 0x1000000" using assms(2) by (simp add: PHYSTOP_def word_less_nat_alt)
  then show u: "unat (p + of_nat PGSIZE) = unat p + 4096" by (simp add: PGSIZE_def unat_word_ariths)
  then show "aligned (p + of_nat PGSIZE)" using assms(1) by (simp add: aligned_nat)
  obtain k where "unat p = 4096 * k" using assms(1) by (metis aligned_nat dvd_def mod_0_imp_dvd)
  then show "p + of_nat PGSIZE \<le> PHYSTOP" using u p by (simp add: word_le_nat_alt PHYSTOP_def)
qed

lemma pages_between_step:
  assumes "aligned p" and "p < PHYSTOP"
  shows "pages_between p PHYSTOP = insert p (pages_between (p + of_nat PGSIZE) PHYSTOP)"
proof -
  have "v = p \<or> p + of_nat PGSIZE \<le> v" if "aligned v" "p \<le> v" for v
    using that pages_disjoint [of p v v] assms next_page [OF assms]
    by (auto simp: in_page_def PGSIZE_def word_le_nat_alt)
  moreover have "p \<le> p + of_nat PGSIZE" "p \<noteq> p + of_nat PGSIZE"
    using next_page(2) [OF assms] by (auto simp: word_le_nat_alt)
  ultimately show ?thesis using assms by (auto simp: pages_between_def)
qed

lemma kinit_loop_spec:
  assumes "pool_ok s vs" and "aligned p" and "k_end s \<le> p" and "0 < p" and "p \<le> PHYSTOP"
    and "set vs \<inter> pages_between p PHYSTOP = {}"
  shows "returns (kinit_loop p s) (\<lambda>_ t. \<exists>ws. pool_ok t ws \<and> set ws = set vs \<union> pages_between p PHYSTOP \<and>
    nomem t = nomem s)"
  using assms
proof (induction "unat PHYSTOP - unat p" arbitrary: p s vs rule: less_induct)
  case less
  show ?case
  proof (cases "p < PHYSTOP")
    case True
    note n = next_page [OF less.prems(2) True]
    note st = pages_between_step [OF less.prems(2) True]
    have "page_ok s p" using less.prems True by (auto simp: page_ok_def)
    moreover have "p \<notin> set vs" using less.prems(6) st by auto
    ultimately have f: "returns (kfree p s) (\<lambda>_ t. pool_ok t (p # vs) \<and> nomem t = nomem s)"
      by (intro returns_mono [OF pp.free_push [OF less.prems(1)]]) auto
    have "returns (kinit_loop (p + of_nat PGSIZE) t) (\<lambda>_ t. \<exists>ws. pool_ok t ws \<and>
        set ws = set vs \<union> pages_between p PHYSTOP \<and> nomem t = nomem s)"
      if t: "pool_ok t (p # vs)" "nomem t = nomem s" for t
    proof -
      have "k_end t = k_end s" using arg_cong [OF t(2), of k_end] by (simp add: nomem_def)
      then have "returns (kinit_loop (p + of_nat PGSIZE) t) (\<lambda>_ u. \<exists>ws. pool_ok u ws \<and>
          set ws = set (p # vs) \<union> pages_between (p + of_nat PGSIZE) PHYSTOP \<and> nomem u = nomem t)"
        using less.prems n st True t(1)
        by (intro less.hyps) (auto simp: word_less_nat_alt word_le_nat_alt pages_between_def)
      then show ?thesis using t(2) st by (auto elim!: returns_mono)
    qed
    then show ?thesis
      using n(3) returns_bind [OF f, of "\<lambda>_. kinit_loop (p + of_nat PGSIZE)"]
      by (subst kinit_loop.simps) auto
  next
    case False
    then have p: "p = PHYSTOP" using less.prems(5) by simp
    then show ?thesis using less.prems(1)
      by (subst kinit_loop.simps) (auto simp: PHYSTOP_def PGSIZE_def pages_between_def)
  qed
qed

section \<open>Properties\<close>

text \<open>A machine whose allocator has not been initialised, the kernel image ending below \<^verbatim>\<open>0x108000\<close>.\<close>

definition bare_mem :: kmem where
  "bare_mem = \<lparr>held = {}, procs = replicate NPROC zero_proc, cur = None, nextpid = 1, initproc = None, ticks = 0,
     bufs = replicate (NBUF + 1) bss_buf, idequeue = None, havedisk1 = True, ide_sel = (0, 0), ide_err = False,
     disk = \<lambda>_ _. replicate BSIZE 0, icache = [], pmem = \<lambda>_. 0, freelist = 0, k_end = 0x107abc\<rparr>"

lemma bare_mem_simps [simp]: "held bare_mem = {}" "freelist bare_mem = 0" "k_end bare_mem = 0x107abc"
  by (simp_all add: bare_mem_def)

text \<open>C3: after any history of allocations, frees and writes to held pages, \<open>kalloc\<close> returns a page that no
  client holds; it returns 0 exactly when the clients hold every page of the pool.\<close>

theorem kalloc_fresh:
  assumes "pool_run s0 U0 t U" and "pool_split s0 U0 P"
  shows "returns (kalloc t) (\<lambda>v _. v \<notin> U \<and> (v = 0 \<longleftrightarrow> U = P) \<and> (v \<noteq> 0 \<longrightarrow> v \<in> P))"
proof -
  obtain vs where vs: "pool_ok t vs" "set vs \<inter> U = {}" "set vs \<union> U = P" "\<forall>v \<in> U. page_ok t v"
    using pool_run_split [OF assms] by (auto simp: pool_split_def)
  have z: "0 \<notin> U" using vs(4) pp.usable_nonzero by blast
  show ?thesis
  proof (cases vs)
    case Nil
    then show ?thesis using vs z pp.alloc_none [of t] by auto
  next
    case (Cons w ws)
    then have "w \<noteq> 0" using pp.pool_usable [OF vs(1), of w] pp.usable_nonzero by simp
    then show ?thesis using Cons vs by (intro returns_mono [OF pp.alloc_pop [of t w ws]]) auto
  qed
qed

theorem kalloc_fresh_witness:
  "\<exists>t. pool_run bare_mem {0x200000} t {} \<and> returns (kalloc t) (\<lambda>v _. v = 0x200000)"
proof -
  have ok: "page_ok bare_mem 0x200000" by (simp add: page_ok_def aligned_def PGSIZE_def PHYSTOP_def)
  have p: "pool_ok bare_mem []" by (simp add: pool_ok_def)
  have sp: "pool_split bare_mem {0x200000} {0x200000}"
    using ok p by (auto simp: pool_split_def intro!: exI [of _ "[]"])
  obtain u t where t: "kfree 0x200000 bare_mem = Ret u t"
    using pp.free_push [OF p ok] by (auto simp: returns_def)
  have r: "pool_run bare_mem {0x200000} t {}"
    using pool_run.give_page [OF pool_run.start [of bare_mem "{0x200000}"] _ t] by simp
  have "returns (kalloc t) (\<lambda>v _. v = 0x200000)"
    by (rule returns_mono [OF kalloc_fresh [OF r sp]]) auto
  with r show ?thesis by blast
qed

text \<open>C23: \<open>kinit\<close> returns, and afterwards the free list holds every page between the end of the kernel image
  and \<open>PHYSTOP\<close>, each of them once.\<close>

theorem kinit_all_pages:
  assumes "freelist s = 0" and "LKmem \<notin> held s" and "0 < k_end s" and "k_end s \<le> PHYSTOP"
  shows "returns (kinit s) (\<lambda>_ t. \<exists>vs. pool_ok t vs \<and> set vs = {v. aligned v \<and> k_end s \<le> v \<and> v < PHYSTOP})"
proof -
  let ?p = "PGROUNDUP (k_end s)"
  have e: "0 < unat (k_end s)" "unat (k_end s) \<le> 0x1000000"
    using assms(3,4) by (simp_all add: PHYSTOP_def word_less_nat_alt word_le_nat_alt)
  then have u: "unat ?p = (unat (k_end s) + 4095) div 4096 * 4096" by (intro unat_PGROUNDUP) simp
  have al: "aligned ?p" using u by (simp add: aligned_nat)
  have le: "k_end s \<le> ?p" unfolding word_le_nat_alt u by linarith
  have top: "?p \<le> PHYSTOP" using e unfolding word_le_nat_alt u by (simp add: PHYSTOP_def)
  have eq: "pages_between ?p PHYSTOP = {v. aligned v \<and> k_end s \<le> v \<and> v < PHYSTOP}"
  proof -
    have "?p \<le> v" if v: "aligned v" "k_end s \<le> v" for v
    proof -
      obtain k where k: "unat v = 4096 * k" using v(1) by (metis aligned_nat dvd_def mod_0_imp_dvd)
      have "unat (k_end s) \<le> 4096 * k" using v(2) k by (simp add: word_le_nat_alt)
      then have "(unat (k_end s) + 4095) div 4096 \<le> k" by linarith
      then show ?thesis using k by (simp add: word_le_nat_alt u)
    qed
    then show ?thesis using le by (auto simp: pages_between_def)
  qed
  have "returns (kinit_loop ?p s) (\<lambda>_ t. \<exists>ws. pool_ok t ws \<and> set ws = set [] \<union> pages_between ?p PHYSTOP \<and>
      nomem t = nomem s)"
    using assms(1,2) al le top e u by (intro kinit_loop_spec) (auto simp: pool_ok_def word_less_nat_alt)
  then show ?thesis unfolding kinit_def eq [symmetric] by (rule returns_mono) auto
qed

theorem kinit_all_pages_witness:
  "returns (kinit bare_mem) (\<lambda>_ t. \<exists>vs. pool_ok t vs \<and> 0x108000 \<in> set vs \<and> 0x107000 \<notin> set vs)"
  by (rule returns_mono [OF kinit_all_pages [of bare_mem]]) (auto simp: PHYSTOP_def aligned_def PGSIZE_def)

end
