(* ===== verification/Vm.thy ===== *)
theory Vm
  imports Kalloc CString
begin

text \<open>
  Virtual memory: \<^verbatim>\<open>src/5/xv6/vm.c\<close>.  Page directories and page tables are pages of \<open>pmem\<close> and are read and
  written there word by word; a page directory is named by its address.

  Addresses that the linker fixes are constants of the state: \<open>k_data\<close> (the symbol \<^verbatim>\<open>data\<close>), \<open>k_ts\<close> and
  \<open>k_cpu\<close> (\<^verbatim>\<open>&cpu->ts\<close>, \<^verbatim>\<open>&c->cpu\<close>).  The registers the code loads (cr3, cr0, gs, the task register)
  are fields.  \<open>translate\<close> is the address translation of the processor in kernel mode, which the kernel uses when it
  follows a pointer into user memory; a page that is not present is a page fault in the kernel, whose handler
  panics (\<^verbatim>\<open>trap.c\<close>).
\<close>

section \<open>State\<close>

record kvm = kmem +
  kpgdir :: uint
  cr3 :: uint
  cr0 :: uint
  gs_sel :: uint
  task_sel :: uint
  gdt :: "segdesc list"
  ts_ss0 :: ushort
  ts_esp0 :: uint
  k_data :: uint
  k_ts :: uint
  k_cpu :: uint

definition pde_addr :: "uint \<Rightarrow> uint \<Rightarrow> uint" where
  "pde_addr pgdir va = pgdir + 4 * PDX va"

section \<open>Segments\<close>

definition seginit :: "'a kvm_scheme \<Rightarrow> 'a kvm_scheme" where
  "seginit s =
     (let g = gdt s;
          g = g[SEG_KCODE := SEG (STA_X OR STA_R) 0 0xffffffff 0];
          g = g[SEG_KDATA := SEG STA_W 0 0xffffffff 0];
          g = g[SEG_UCODE := SEG (STA_X OR STA_R) 0 0xffffffff DPL_USER];
          g = g[SEG_UDATA := SEG STA_W 0 0xffffffff DPL_USER];
          g = g[SEG_KCPU := SEG STA_W (k_cpu s) 8 0] in
      s\<lparr>gdt := g, gs_sel := push_bit 3 (of_nat SEG_KCPU), cur := None\<rparr>)"

section \<open>Page tables\<close>

definition walkpgdir :: "uint \<Rightarrow> uint \<Rightarrow> bool \<Rightarrow> 'a kvm_scheme \<Rightarrow> (uint option, 'a kvm_scheme) outcome" where
  "walkpgdir pgdir va create s =
     (let pde = rd_word (pmem s) (pde_addr pgdir va) in
      if pde AND PTE_P \<noteq> 0 then Ret (Some (PTE_ADDR pde + 4 * PTX va)) s
      else if \<not> create then Ret None s
      else and_then (kalloc s) (\<lambda>pgtab s.
        if pgtab = 0 then Ret None s
        else
          let m = mem_fill (pmem s) pgtab 0 PGSIZE;
              m = wr_word m (pde_addr pgdir va) (pgtab OR PTE_P OR PTE_W OR PTE_U) in
          Ret (Some (pgtab + 4 * PTX va)) (s\<lparr>pmem := m\<rparr>)))"

text \<open>\<open>n\<close> is the number of pages after this one: \<^verbatim>\<open>a == last\<close> exactly when it is 0, both being page-aligned.\<close>

fun mappages_loop :: "nat \<Rightarrow> uint \<Rightarrow> uint \<Rightarrow> uint \<Rightarrow> uint \<Rightarrow> 'a kvm_scheme \<Rightarrow> (uint, 'a kvm_scheme) outcome" where
  "mappages_loop n pgdir a pa perm s =
     and_then (walkpgdir pgdir a True s) (\<lambda>pte s.
     case pte of None \<Rightarrow> Ret (-1) s
     | Some pte \<Rightarrow>
         if rd_word (pmem s) pte AND PTE_P \<noteq> 0 then Panic ''remap''
         else
           let s = s\<lparr>pmem := wr_word (pmem s) pte (pa OR perm OR PTE_P)\<rparr> in
           case n of 0 \<Rightarrow> Ret 0 s
           | Suc n \<Rightarrow> mappages_loop n pgdir (a + of_nat PGSIZE) (pa + of_nat PGSIZE) perm s)"

declare mappages_loop.simps [simp del]

definition mappages :: "uint \<Rightarrow> uint \<Rightarrow> uint \<Rightarrow> uint \<Rightarrow> uint \<Rightarrow> 'a kvm_scheme \<Rightarrow> (uint, 'a kvm_scheme) outcome" where
  "mappages pgdir la sz pa perm s =
     (let a = PGROUNDDOWN la; last = PGROUNDDOWN (la + sz - 1) in
      mappages_loop (unat ((last - a) div of_nat PGSIZE)) pgdir a pa perm s)"

definition kmap :: "uint \<Rightarrow> (uint \<times> uint \<times> uint) list" where
  "kmap data = [(USERTOP, 0x100000, PTE_W), (0x100000, data, 0), (data, PHYSTOP, PTE_W), (0xFE000000, 0, PTE_W)]"

fun setupkvm_loop :: "uint \<Rightarrow> (uint \<times> uint \<times> uint) list \<Rightarrow> 'a kvm_scheme \<Rightarrow> (uint, 'a kvm_scheme) outcome" where
  "setupkvm_loop pgdir [] s = Ret pgdir s"
| "setupkvm_loop pgdir ((p, e, perm) # ks) s =
     and_then (mappages pgdir p (e - p) p perm s) (\<lambda>r s.
     if sint r < 0 then Ret 0 s else setupkvm_loop pgdir ks s)"

definition setupkvm :: "'a kvm_scheme \<Rightarrow> (uint, 'a kvm_scheme) outcome" where
  "setupkvm s =
     and_then (kalloc s) (\<lambda>pgdir s.
     if pgdir = 0 then Ret 0 s
     else setupkvm_loop pgdir (kmap (k_data s)) (s\<lparr>pmem := mem_fill (pmem s) pgdir 0 PGSIZE\<rparr>))"

definition kvmalloc :: "'a kvm_scheme \<Rightarrow> (unit, 'a kvm_scheme) outcome" where
  "kvmalloc s = and_then (setupkvm s) (\<lambda>d s. Ret () (s\<lparr>kpgdir := d\<rparr>))"

definition switchkvm :: "'a kvm_scheme \<Rightarrow> 'a kvm_scheme" where
  "switchkvm s = s\<lparr>cr3 := kpgdir s\<rparr>"

definition vmenable :: "'a kvm_scheme \<Rightarrow> 'a kvm_scheme" where
  "vmenable s = (let s = switchkvm s in s\<lparr>cr0 := cr0 s OR CR0_PG\<rparr>)"

text \<open>The stack of the task state is that of the running process \<^verbatim>\<open>proc\<close>, whatever \<open>p\<close> is.\<close>

definition switchuvm :: "nat \<Rightarrow> 'a kvm_scheme \<Rightarrow> (unit, 'a kvm_scheme) outcome" where
  "switchuvm p s =
     (case cur s of None \<Rightarrow> Panic ''null proc''
      | Some c \<Rightarrow>
        let s = s\<lparr>gdt := (gdt s)[SEG_TSS := (SEG16 STS_T32A (k_ts s) (104 - 1) 0)\<lparr>sd_s := 0\<rparr>],
                  ts_ss0 := push_bit 3 (of_nat SEG_KDATA), ts_esp0 := p_kstack (procs s ! c) + KSTACKSIZE,
                  task_sel := push_bit 3 (of_nat SEG_TSS)\<rparr> in
        if p_pgdir (procs s ! p) = 0 then Panic ''switchuvm: no pgdir''
        else Ret () (s\<lparr>cr3 := p_pgdir (procs s ! p)\<rparr>))"

section \<open>User memory\<close>

text \<open>The page that \<open>kalloc\<close> returns is used unchecked, and so is the result of \<open>mappages\<close>.\<close>

definition inituvm :: "uint \<Rightarrow> byte list \<Rightarrow> 'a kvm_scheme \<Rightarrow> (unit, 'a kvm_scheme) outcome" where
  "inituvm pgdir init s =
     (if length init \<ge> PGSIZE then Panic ''inituvm: more than a page''
      else and_then (kalloc s) (\<lambda>mem s.
        and_then (mappages pgdir 0 (of_nat PGSIZE) mem (PTE_W OR PTE_U)
          (s\<lparr>pmem := mem_fill (pmem s) mem 0 PGSIZE\<rparr>)) (\<lambda>_ s.
        Ret () (s\<lparr>pmem := mem_write (pmem s) mem init\<rparr>))))"

text \<open>The counter of \<open>loaduvm\<close> cannot wrap: \<open>readi\<close> comes up short at the end of the file long before.\<close>

function loaduvm_loop :: "(nat \<Rightarrow> 'a kvm_scheme devsw) \<Rightarrow> uint \<Rightarrow> uint \<Rightarrow> nat \<Rightarrow> uint \<Rightarrow> nat \<Rightarrow> nat \<Rightarrow>
    'a kvm_scheme \<Rightarrow> (uint, 'a kvm_scheme) outcome" where
  "loaduvm_loop dsw pgdir addr ip offset sz i s =
     (if i < sz then
        and_then (walkpgdir pgdir (addr + of_nat i) False s) (\<lambda>pte s.
        case pte of None \<Rightarrow> Panic ''loaduvm: address should exist''
        | Some pte \<Rightarrow>
            let pa = PTE_ADDR (rd_word (pmem s) pte); n = min (sz - i) PGSIZE in
            and_then (readi dsw ip (offset + of_nat i) (of_nat n) s) (\<lambda>(r, d) s.
            let s = s\<lparr>pmem := mem_write (pmem s) pa d\<rparr> in
            if r \<noteq> of_nat n then Ret (-1) s else loaduvm_loop dsw pgdir addr ip offset sz (i + PGSIZE) s))
      else Ret 0 s)"
  by pat_completeness auto
termination
  by (relation "measure (\<lambda>(dsw, pgdir, addr, ip, offset, sz, i, s). sz - i)") (auto simp: PGSIZE_def)

declare loaduvm_loop.simps [simp del]

definition loaduvm :: "(nat \<Rightarrow> 'a kvm_scheme devsw) \<Rightarrow> uint \<Rightarrow> uint \<Rightarrow> nat \<Rightarrow> uint \<Rightarrow> uint \<Rightarrow>
    'a kvm_scheme \<Rightarrow> (uint, 'a kvm_scheme) outcome" where
  "loaduvm dsw pgdir addr ip offset sz s =
     (if addr mod of_nat PGSIZE \<noteq> 0 then Panic ''loaduvm: addr must be page aligned''
      else loaduvm_loop dsw pgdir addr ip offset (unat sz) 0 s)"

text \<open>The pages from \<open>a\<close> up to \<open>lim\<close>, exclusive: the values of the loop counters of allocuvm, deallocuvm and
  copyuvm.\<close>

function page_starts :: "nat \<Rightarrow> nat \<Rightarrow> uint list" where
  "page_starts a lim = (if a < lim then of_nat a # page_starts (a + PGSIZE) lim else [])"
  by pat_completeness auto
termination
  by (relation "measure (\<lambda>(a, lim). lim - a)") (auto simp: PGSIZE_def)

declare page_starts.simps [simp del]

definition dealloc_page :: "uint \<Rightarrow> uint \<Rightarrow> 'a kvm_scheme \<Rightarrow> (unit, 'a kvm_scheme) outcome" where
  "dealloc_page pgdir a s =
     and_then (walkpgdir pgdir a False s) (\<lambda>pte s.
     case pte of None \<Rightarrow> Ret () s
     | Some pte \<Rightarrow>
         if rd_word (pmem s) pte AND PTE_P = 0 then Ret () s
         else
           let pa = PTE_ADDR (rd_word (pmem s) pte) in
           if pa = 0 then Panic ''kfree''
           else and_then (kfree pa s) (\<lambda>_ s. Ret () (s\<lparr>pmem := wr_word (pmem s) pte 0\<rparr>)))"

definition deallocuvm :: "uint \<Rightarrow> uint \<Rightarrow> uint \<Rightarrow> 'a kvm_scheme \<Rightarrow> (uint, 'a kvm_scheme) outcome" where
  "deallocuvm pgdir oldsz newsz s =
     (if newsz \<ge> oldsz then Ret oldsz s
      else and_then (for_each (dealloc_page pgdir) (page_starts (unat (PGROUNDUP newsz)) (unat oldsz)) s)
        (\<lambda>_ s. Ret newsz s))"

text \<open>\<open>True\<close> when every page was allocated, \<open>False\<close> when memory ran out.\<close>

fun allocuvm_loop :: "uint \<Rightarrow> uint list \<Rightarrow> 'a kvm_scheme \<Rightarrow> (bool, 'a kvm_scheme) outcome" where
  "allocuvm_loop pgdir [] s = Ret True s"
| "allocuvm_loop pgdir (a # as) s =
     and_then (kalloc s) (\<lambda>mem s.
     if mem = 0 then Ret False s
     else
       and_then (mappages pgdir a (of_nat PGSIZE) mem (PTE_W OR PTE_U)
         (s\<lparr>pmem := mem_fill (pmem s) mem 0 PGSIZE\<rparr>)) (\<lambda>_ s.
       allocuvm_loop pgdir as s))"

definition allocuvm :: "uint \<Rightarrow> uint \<Rightarrow> uint \<Rightarrow> 'a kvm_scheme \<Rightarrow> (uint, 'a kvm_scheme) outcome" where
  "allocuvm pgdir oldsz newsz s =
     (if newsz > USERTOP then Ret 0 s
      else if newsz < oldsz then Ret oldsz s
      else and_then (allocuvm_loop pgdir (page_starts (unat (PGROUNDUP oldsz)) (unat newsz)) s) (\<lambda>ok s.
        if ok then Ret newsz s
        else and_then (deallocuvm pgdir newsz oldsz s) (\<lambda>_ s. Ret 0 s)))"

definition freevm :: "uint \<Rightarrow> 'a kvm_scheme \<Rightarrow> (unit, 'a kvm_scheme) outcome" where
  "freevm pgdir s =
     (if pgdir = 0 then Panic ''freevm: no pgdir''
      else and_then (deallocuvm pgdir USERTOP 0 s) (\<lambda>_ s.
        and_then (for_each (\<lambda>i s.
            let pde = rd_word (pmem s) (pgdir + 4 * of_nat i) in
            if pde AND PTE_P \<noteq> 0 then kfree (PTE_ADDR pde) s else Ret () s) [0..<NPDENTRIES] s) (\<lambda>_ s.
        kfree pgdir s)))"

fun copyuvm_loop :: "uint \<Rightarrow> uint \<Rightarrow> uint list \<Rightarrow> 'a kvm_scheme \<Rightarrow> (bool, 'a kvm_scheme) outcome" where
  "copyuvm_loop pgdir d [] s = Ret True s"
| "copyuvm_loop pgdir d (i # is) s =
     and_then (walkpgdir pgdir i False s) (\<lambda>pte s.
     case pte of None \<Rightarrow> Panic ''copyuvm: pte should exist''
     | Some pte \<Rightarrow>
         if rd_word (pmem s) pte AND PTE_P = 0 then Panic ''copyuvm: page not present''
         else
           let pa = PTE_ADDR (rd_word (pmem s) pte) in
           and_then (kalloc s) (\<lambda>mem s.
           if mem = 0 then Ret False s
           else
             and_then (mappages d i (of_nat PGSIZE) mem (PTE_W OR PTE_U)
               (s\<lparr>pmem := mem_write (pmem s) mem (mem_read (pmem s) pa PGSIZE)\<rparr>)) (\<lambda>r s.
             if sint r < 0 then Ret False s else copyuvm_loop pgdir d is s)))"

definition copyuvm :: "uint \<Rightarrow> uint \<Rightarrow> 'a kvm_scheme \<Rightarrow> (uint, 'a kvm_scheme) outcome" where
  "copyuvm pgdir sz s =
     and_then (setupkvm s) (\<lambda>d s.
     if d = 0 then Ret 0 s
     else and_then (copyuvm_loop pgdir d (page_starts 0 (unat sz)) s) (\<lambda>ok s.
       if ok then Ret d s else and_then (freevm d s) (\<lambda>_ s. Ret 0 s)))"

text \<open>A missing page table makes \<open>uva2ka\<close> read the null pointer, which is address 0 of the current page table.\<close>

definition translate :: "'a kvm_scheme \<Rightarrow> uint \<Rightarrow> uint option" where
  "translate s va =
     (let pde = rd_word (pmem s) (pde_addr (cr3 s) va) in
      if pde AND PTE_P = 0 then None
      else
        let pte = rd_word (pmem s) (PTE_ADDR pde + 4 * PTX va) in
        if pte AND PTE_P = 0 then None else Some (PTE_ADDR pte OR (va AND 0xFFF)))"

definition uva2ka :: "uint \<Rightarrow> uint \<Rightarrow> 'a kvm_scheme \<Rightarrow> (uint, 'a kvm_scheme) outcome" where
  "uva2ka pgdir uva s =
     and_then (walkpgdir pgdir uva False s) (\<lambda>pte s.
     case (case pte of None \<Rightarrow> translate s 0 | Some a \<Rightarrow> Some a) of
       None \<Rightarrow> Panic ''trap''
     | Some pte \<Rightarrow>
         let e = rd_word (pmem s) pte in
         if e AND PTE_P = 0 then Ret 0 s
         else if e AND PTE_U = 0 then Ret 0 s
         else Ret (PTE_ADDR e) s)"

function copyout :: "uint \<Rightarrow> uint \<Rightarrow> byte list \<Rightarrow> 'a kvm_scheme \<Rightarrow> (uint, 'a kvm_scheme) outcome" where
  "copyout pgdir va bs s =
     (if bs = [] then Ret 0 s
      else
        let va0 = PGROUNDDOWN va in
        and_then (uva2ka pgdir va0 s) (\<lambda>pa0 s.
        if pa0 = 0 then Ret (-1) s
        else
          let n = min (unat (of_nat PGSIZE - (va - va0))) (length bs) in
          copyout pgdir (va0 + of_nat PGSIZE) (drop n bs)
            (s\<lparr>pmem := mem_write (pmem s) (pa0 + (va - va0)) (take n bs)\<rparr>)))"
  by pat_completeness auto
termination
proof (relation "measure (\<lambda>(pgdir, va, bs, s). length bs)", goal_cases)
  case (2 pgdir va bs s va0 pa0 t n)
  have "unat va mod 4096 < 4096" by simp
  with 2 show ?case by (simp add: unat_page_left)
qed simp

declare copyout.simps [simp del]

section \<open>Pointers into user memory\<close>

fun user_read :: "uint \<Rightarrow> nat \<Rightarrow> 'a kvm_scheme \<Rightarrow> (byte list, 'a kvm_scheme) outcome" where
  "user_read va 0 s = Ret [] s"
| "user_read va (Suc n) s =
     (case translate s va of None \<Rightarrow> Panic ''trap''
      | Some a \<Rightarrow> and_then (user_read (va + 1) n s) (\<lambda>bs s. Ret (pmem s a # bs) s))"

fun user_write :: "uint \<Rightarrow> byte list \<Rightarrow> 'a kvm_scheme \<Rightarrow> (unit, 'a kvm_scheme) outcome" where
  "user_write va [] s = Ret () s"
| "user_write va (b # bs) s =
     (case translate s va of None \<Rightarrow> Panic ''trap''
      | Some a \<Rightarrow> user_write (va + 1) bs (s\<lparr>pmem := (pmem s)(a := b)\<rparr>))"

end
