(* ===== verification/Pipe.thy ===== *)
theory Pipe
  imports Vm
begin

text \<open>
  Pipes: \<^verbatim>\<open>src/5/xv6/pipe.c\<close>.  A pipe lives in a page of its own; \<open>pipes\<close> maps the address of the page
  to its contents.  The counters \<open>nread\<close> and \<open>nwrite\<close> are 32-bit words and wrap around.

  A writer that finds the pipe full goes to sleep with its remaining bytes, and continues with
  \<open>pipewrite_loop\<close> on them when it is woken; a reader that finds the pipe empty continues with
  \<open>piperead_locked\<close>.
\<close>

section \<open>State\<close>

definition PIPESIZE :: nat where "PIPESIZE = 512"

record pipe =
  pi_data :: "byte list"
  pi_nread :: uint
  pi_nwrite :: uint
  pi_readopen :: bool
  pi_writeopen :: bool

record kpipe = kvm +
  pipes :: "uint \<Rightarrow> pipe"

definition upd_pipe :: "uint \<Rightarrow> (pipe \<Rightarrow> pipe) \<Rightarrow> 'a kpipe_scheme \<Rightarrow> 'a kpipe_scheme" where
  "upd_pipe p f s = s\<lparr>pipes := (pipes s)(p := f (pipes s p))\<rparr>"

abbreviation plock :: "uint \<Rightarrow> lock" where "plock p \<equiv> LPipe (unat p)"
abbreviation read_chan :: "uint \<Rightarrow> chan" where "read_chan p \<equiv> ChPipeRead (unat p)"
abbreviation write_chan :: "uint \<Rightarrow> chan" where "write_chan p \<equiv> ChPipeWrite (unat p)"

section \<open>Operations\<close>

definition pipeclose :: "uint \<Rightarrow> bool \<Rightarrow> 'a kpipe_scheme \<Rightarrow> (unit, 'a kpipe_scheme) outcome" where
  "pipeclose p writable s =
     and_then (lk_acquire (plock p) s) (\<lambda>_ s.
     and_then
       (if writable then wakeup (read_chan p) (upd_pipe p (\<lambda>q. q\<lparr>pi_writeopen := False\<rparr>) s)
        else wakeup (write_chan p) (upd_pipe p (\<lambda>q. q\<lparr>pi_readopen := False\<rparr>) s)) (\<lambda>_ s.
     if \<not> pi_readopen (pipes s p) \<and> \<not> pi_writeopen (pipes s p)
     then and_then (lk_release (plock p) s) (\<lambda>_ s. kfree p s)
     else lk_release (plock p) s))"

definition pipe_full :: "pipe \<Rightarrow> bool" where
  "pipe_full q \<longleftrightarrow> pi_nwrite q = pi_nread q + of_nat PIPESIZE"

definition pipe_put :: "byte \<Rightarrow> pipe \<Rightarrow> pipe" where
  "pipe_put b q = q\<lparr>pi_data := (pi_data q)[unat (pi_nwrite q mod of_nat PIPESIZE) := b],
     pi_nwrite := pi_nwrite q + 1\<rparr>"

text \<open>\<open>True\<close> when all bytes are written, \<open>False\<close> when nobody will read them.\<close>

fun pipewrite_loop :: "uint \<Rightarrow> byte list \<Rightarrow> 'a kpipe_scheme \<Rightarrow> (bool, 'a kpipe_scheme) outcome" where
  "pipewrite_loop p [] s = Ret True s"
| "pipewrite_loop p (b # bs) s =
     (if pipe_full (pipes s p) then
        if \<not> pi_readopen (pipes s p) \<or> proc_killed s then Ret False s
        else and_then (wakeup (read_chan p) s) (\<lambda>_ s. sleep (write_chan p) (plock p) s)
      else pipewrite_loop p bs (upd_pipe p (pipe_put b) s))"

definition pipewrite :: "uint \<Rightarrow> byte list \<Rightarrow> uint \<Rightarrow> 'a kpipe_scheme \<Rightarrow> (uint, 'a kpipe_scheme) outcome" where
  "pipewrite p addr n s =
     and_then (lk_acquire (plock p) s) (\<lambda>_ s.
     and_then (pipewrite_loop p (take (nat (sint n)) addr) s) (\<lambda>ok s.
     if ok then and_then (wakeup (read_chan p) s) (\<lambda>_ s. and_then (lk_release (plock p) s) (\<lambda>_ s. Ret n s))
     else and_then (lk_release (plock p) s) (\<lambda>_ s. Ret (-1) s)))"

fun piperead_loop :: "nat \<Rightarrow> pipe \<Rightarrow> byte list \<times> pipe" where
  "piperead_loop 0 q = ([], q)"
| "piperead_loop (Suc n) q =
     (if pi_nread q = pi_nwrite q then ([], q)
      else
        let b = pi_data q ! unat (pi_nread q mod of_nat PIPESIZE);
            (bs, q) = piperead_loop n (q\<lparr>pi_nread := pi_nread q + 1\<rparr>) in
        (b # bs, q))"

definition piperead_locked :: "uint \<Rightarrow> uint \<Rightarrow> 'a kpipe_scheme \<Rightarrow> (uint \<times> byte list, 'a kpipe_scheme) outcome" where
  "piperead_locked p n s =
     (if pi_nread (pipes s p) = pi_nwrite (pipes s p) \<and> pi_writeopen (pipes s p) then
        if proc_killed s then and_then (lk_release (plock p) s) (\<lambda>_ s. Ret (-1, []) s)
        else sleep (read_chan p) (plock p) s
      else
        let (bs, q) = piperead_loop (nat (sint n)) (pipes s p) in
        and_then (wakeup (write_chan p) (upd_pipe p (\<lambda>_. q) s)) (\<lambda>_ s.
        and_then (lk_release (plock p) s) (\<lambda>_ s. Ret (of_nat (length bs), bs) s)))"

definition piperead :: "uint \<Rightarrow> uint \<Rightarrow> 'a kpipe_scheme \<Rightarrow> (uint \<times> byte list, 'a kpipe_scheme) outcome" where
  "piperead p n s = and_then (lk_acquire (plock p) s) (\<lambda>_ s. piperead_locked p n s)"

section \<open>The pipe as a bounded queue\<close>

text \<open>The bytes in the pipe, oldest first.  The counters wrap around; since 512 divides \<open>2 ^ 32\<close> the position of a
  byte in the buffer does not notice.\<close>

definition pipe_items :: "pipe \<Rightarrow> byte list" where
  "pipe_items q = map (\<lambda>k. pi_data q ! ((unat (pi_nread q) + k) mod PIPESIZE)) [0..<unat (pi_nwrite q - pi_nread q)]"

definition pipe_ok :: "pipe \<Rightarrow> bool" where
  "pipe_ok q \<longleftrightarrow> length (pi_data q) = PIPESIZE \<and> unat (pi_nwrite q - pi_nread q) \<le> PIPESIZE"

text \<open>A bounded queue: what its clients rely on.\<close>

locale bounded_queue =
  fixes ok :: "'q \<Rightarrow> bool" and items :: "'q \<Rightarrow> 'e list" and full :: "'q \<Rightarrow> bool" and put :: "'e \<Rightarrow> 'q \<Rightarrow> 'q"
    and drained :: "'q \<Rightarrow> bool" and front :: "'q \<Rightarrow> 'e" and advance :: "'q \<Rightarrow> 'q" and cap :: nat
  assumes full_iff: "ok q \<Longrightarrow> full q \<longleftrightarrow> length (items q) = cap"
    and bounded: "ok q \<Longrightarrow> length (items q) \<le> cap"
    and put_ok: "ok q \<Longrightarrow> \<not> full q \<Longrightarrow> ok (put b q) \<and> items (put b q) = items q @ [b]"
    and drained_iff: "ok q \<Longrightarrow> drained q \<longleftrightarrow> items q = []"
    and advance_ok: "ok q \<Longrightarrow> \<not> drained q \<Longrightarrow> ok (advance q) \<and> items q = front q # items (advance q)"
begin

text \<open>Taking up to \<open>n\<close> elements from the front.\<close>

lemma drain_spec:
  assumes ok: "ok q"
    and zero: "\<And>q. drain 0 q = ([], q)"
    and suc: "\<And>n q. drain (Suc n) q =
      (if drained q then ([], q) else (front q # fst (drain n (advance q)), snd (drain n (advance q))))"
  shows "fst (drain n q) = take n (items q) \<and> ok (snd (drain n q)) \<and> items (snd (drain n q)) = drop n (items q)"
  using ok
proof (induction n arbitrary: q)
  case (Suc n)
  show ?case
  proof (cases "drained q")
    case True
    then show ?thesis using Suc.prems drained_iff [of q] by (simp add: suc)
  next
    case False
    then show ?thesis
      using advance_ok [OF Suc.prems False] Suc.IH [of "advance q"] by (simp add: suc)
  qed
qed (simp add: zero)

lemma room: "ok q \<Longrightarrow> \<not> full q \<longleftrightarrow> length (items q) < cap"
  using full_iff [of q] bounded [of q] by auto

end

lemma mod_512_word: "unat ((x :: uint) mod of_nat PIPESIZE) = unat x mod PIPESIZE"
  by (simp add: PIPESIZE_def unat_mod)

lemma unat_plus_mod_512: "unat ((x :: uint) + y) mod PIPESIZE = (unat x + unat y) mod PIPESIZE"
  by (simp add: PIPESIZE_def unat_word_ariths mod_mod_cancel)

lemma unat_succ: "unat (d :: uint) < PIPESIZE \<Longrightarrow> unat (d + 1) = Suc (unat d)"
  and unat_pred: "0 < unat (d :: uint) \<Longrightarrow> unat (d - 1) = unat d - 1"
  by (simp_all add: unat_word_ariths PIPESIZE_def unat_sub word_le_nat_alt)

lemma length_pipe_items [simp]: "length (pipe_items q) = unat (pi_nwrite q - pi_nread q)"
  by (simp add: pipe_items_def)

lemma pipe_full_iff: "pipe_full q \<longleftrightarrow> length (pipe_items q) = PIPESIZE"
proof -
  have "pi_nwrite q = pi_nread q + 512 \<longleftrightarrow> pi_nwrite q - pi_nread q = 512" by (auto simp: algebra_simps)
  also have "\<dots> \<longleftrightarrow> unat (pi_nwrite q - pi_nread q) = unat (512 :: uint)" by (metis word_unat_eq_iff)
  finally show ?thesis by (simp add: pipe_full_def PIPESIZE_def)
qed

lemma pipe_put_spec:
  assumes "pipe_ok q" and "\<not> pipe_full q"
  shows "pipe_ok (pipe_put b q) \<and> pipe_items (pipe_put b q) = pipe_items q @ [b]"
proof -
  let ?n = "unat (pi_nwrite q - pi_nread q)" and ?r = "unat (pi_nread q)"
  have n: "?n < PIPESIZE" using assms pipe_full_iff [of q] by (auto simp: pipe_ok_def)
  have e: "pi_nwrite q + 1 - pi_nread q = (pi_nwrite q - pi_nread q) + 1" by (simp add: algebra_simps)
  have n': "unat (pi_nwrite q + 1 - pi_nread q) = Suc ?n"
    unfolding e by (rule unat_succ [OF n])
  have w: "unat (pi_nwrite q mod of_nat PIPESIZE) = (?r + ?n) mod PIPESIZE"
    using unat_plus_mod_512 [of "pi_nread q" "pi_nwrite q - pi_nread q"] by (simp add: mod_512_word)
  have ne: "(?r + k) mod PIPESIZE \<noteq> (?r + ?n) mod PIPESIZE" if "k < ?n" for k
  proof
    assume "(?r + k) mod PIPESIZE = (?r + ?n) mod PIPESIZE"
    then have "PIPESIZE dvd (?r + ?n) - (?r + k)" by (metis mod_eq_dvd_iff_nat that less_imp_le_nat nat_add_left_cancel_le)
    then have "PIPESIZE dvd ?n - k" by simp
    then show False using that n by (auto dest: dvd_imp_le)
  qed
  have len: "length (pi_data q) = PIPESIZE" using assms by (simp add: pipe_ok_def)
  have lt: "(?r + k) mod PIPESIZE < PIPESIZE" for k by (simp add: PIPESIZE_def)
  have "pipe_items (pipe_put b q) = pipe_items q @ [b]"
    using lt len by (auto simp: pipe_items_def pipe_put_def n' w nth_list_update) (metis ne)
  then show ?thesis using n n' len by (simp add: pipe_ok_def pipe_put_def)
qed

lemma pipe_get_spec:
  assumes "pipe_ok q" and "pi_nread q \<noteq> pi_nwrite q"
  shows "pipe_ok (q\<lparr>pi_nread := pi_nread q + 1\<rparr>) \<and>
    pipe_items q = pi_data q ! unat (pi_nread q mod of_nat PIPESIZE) # pipe_items (q\<lparr>pi_nread := pi_nread q + 1\<rparr>)"
proof -
  let ?n = "unat (pi_nwrite q - pi_nread q)" and ?r = "unat (pi_nread q)"
  have "pi_nwrite q - pi_nread q \<noteq> 0" using assms(2) by auto
  then have pos: "0 < ?n" by (simp add: unat_gt_0)
  have e: "pi_nwrite q - (pi_nread q + 1) = (pi_nwrite q - pi_nread q) - 1" by (simp add: algebra_simps)
  have n': "unat (pi_nwrite q - (pi_nread q + 1)) = ?n - 1"
    unfolding e by (rule unat_pred [OF pos])
  have r': "(unat (pi_nread q + 1) + k) mod PIPESIZE = (?r + Suc k) mod PIPESIZE" for k
  proof -
    have "(unat (pi_nread q + 1) mod PIPESIZE + k) mod PIPESIZE = ((?r + 1) mod PIPESIZE + k) mod PIPESIZE"
      using unat_plus_mod_512 [of "pi_nread q" 1] by simp
    then have "(unat (pi_nread q + 1) + k) mod PIPESIZE = (?r + 1 + k) mod PIPESIZE"
      by (simp only: mod_add_left_eq)
    then show ?thesis by simp
  qed
  have "pipe_items q = map (\<lambda>k. pi_data q ! ((?r + k) mod PIPESIZE)) (0 # map Suc [0..<?n - 1])"
    using pos by (simp add: pipe_items_def map_Suc_upt upt_conv_Cons)
  then show ?thesis using assms(1) n' by (auto simp: pipe_ok_def pipe_items_def r' mod_512_word)
qed

interpretation pq: bounded_queue pipe_ok pipe_items pipe_full pipe_put "\<lambda>q. pi_nread q = pi_nwrite q"
    "\<lambda>q. pi_data q ! unat (pi_nread q mod of_nat PIPESIZE)" "\<lambda>q. q\<lparr>pi_nread := pi_nread q + 1\<rparr>" PIPESIZE
proof
  fix q b
  show "pipe_full q = (length (pipe_items q) = PIPESIZE)" by (rule pipe_full_iff)
  show "pipe_ok q \<Longrightarrow> length (pipe_items q) \<le> PIPESIZE" by (simp add: pipe_ok_def)
  show "(pi_nread q = pi_nwrite q) = (pipe_items q = [])"
    by (simp add: pipe_items_def unat_eq_0) metis
qed (simp_all add: pipe_put_spec pipe_get_spec)

section \<open>Operations on the queue\<close>

text \<open>A routine ends in state \<open>t\<close> when it returns or goes to sleep there.\<close>

definition ends :: "('a, 's) outcome \<Rightarrow> 's \<Rightarrow> bool" where
  "ends m t \<longleftrightarrow> (\<exists>x. m = Ret x t) \<or> (\<exists>c. m = Sleep c t)"

lemma ends_simps [simp]:
  "ends (Ret x s) t \<longleftrightarrow> t = s" "ends (Sleep c s) t \<longleftrightarrow> t = s" "\<not> ends (Panic e) t" "\<not> ends Diverges t"
  by (auto simp: ends_def)

lemma ends_and_then:
  "ends (and_then m f) t \<longleftrightarrow> (\<exists>x s. m = Ret x s \<and> ends (f x s) t) \<or> (\<exists>c. m = Sleep c t)"
  by (cases m) auto

lemma pipes_lk:
  "lk_acquire l s = Ret u t \<Longrightarrow> pipes t = pipes s" "lk_release l s = Ret u t \<Longrightarrow> pipes t = pipes s"
  by (auto simp: lk_acquire_def lk_release_def split: if_splits)

lemma lk_not_sleep [simp]: "lk_acquire l s \<noteq> Sleep c t" "lk_release l s \<noteq> Sleep c t"
  by (simp_all add: lk_acquire_def lk_release_def)

lemma ends_lk: "ends (lk_acquire l s) t \<Longrightarrow> pipes t = pipes s" "ends (lk_release l s) t \<Longrightarrow> pipes t = pipes s"
  by (auto simp: lk_acquire_def lk_release_def split: if_splits)

lemma pipes_wakeup: "wakeup ch s = Ret u t \<Longrightarrow> pipes t = pipes s"
  by (auto simp: wakeup_def wakeup1_def lk_acquire_def lk_release_def split: if_splits)

lemma wakeup_not_sleep [simp]: "wakeup ch s \<noteq> Sleep c t"
  by (auto simp: wakeup_def wakeup1_def lk_acquire_def lk_release_def)

lemma sched_same: "ends (sched s) t \<Longrightarrow> t = s"
  by (auto simp: sched_def split: option.splits if_splits)

lemma sched_Ret: "sched s = Ret u t \<Longrightarrow> t = s"
  using sched_same [of s t] by simp

lemma ends_bind:
  "ends (and_then m f) t \<Longrightarrow> (\<And>u. ends m u \<Longrightarrow> P u) \<Longrightarrow> (\<And>x u. P u \<Longrightarrow> ends (f x u) t \<Longrightarrow> P t) \<Longrightarrow> P t"
  by (cases m) auto

lemma pipes_sleep:
  fixes s :: "'a kpipe_scheme"
  assumes "ends (sleep ch l s) t"
  shows "pipes t = pipes s"
proof (cases "cur s")
  case None
  then show ?thesis using assms by (simp add: sleep_def sleep_enter_def)
next
  case (Some p)
  have locks: "pipes u = pipes s"
    if "ends (if l \<noteq> LPtable then and_then (lk_acquire LPtable s) (\<lambda>_. lk_release l) else Ret () s) u" for u
  proof (cases "l = LPtable")
    case False
    then have "ends (and_then (lk_acquire LPtable s) (\<lambda>_. lk_release l)) u" using that by simp
    then show ?thesis by (rule ends_bind) (auto dest: ends_lk)
  qed (use that in simp)
  have sw: "pipes t' = pipes s"
    if "pipes u = pipes s" "ends (sched (upd_proc p (\<lambda>q. q\<lparr>p_chan := ch, p_state := SLEEPING\<rparr>) u)) t'" for u t'
    using that sched_same by (fastforce simp: upd_proc_def)
  show ?thesis
    using assms unfolding sleep_def
  proof (rule ends_bind)
    show "pipes u = pipes s" if "ends (sleep_enter ch l s) u" for u
      using that unfolding sleep_enter_def Some option.case by (rule ends_bind) (blast intro: locks sw)+
  qed simp
qed

lemma pipes_upd_pipe [simp]: "pipes (upd_pipe p f s) = (pipes s)(p := f (pipes s p))"
  by (simp add: upd_pipe_def)

text \<open>What one call has put into the pipe.\<close>

definition accepted :: "uint \<Rightarrow> byte list \<Rightarrow> 'a kpipe_scheme \<Rightarrow> 'a kpipe_scheme \<Rightarrow> byte list" where
  "accepted p bs s t = take (unat (pi_nwrite (pipes t p) - pi_nwrite (pipes s p))) bs"

lemma pipewrite_loop_items:
  assumes "ends (pipewrite_loop p bs s) t" and "pipe_ok (pipes s p)"
  shows "pipe_ok (pipes t p) \<and> (\<exists>k \<le> length bs. pipe_items (pipes t p) = pipe_items (pipes s p) @ take k bs \<and>
    pi_nwrite (pipes t p) = pi_nwrite (pipes s p) + of_nat k)"
  using assms
proof (induction bs arbitrary: s)
  case (Cons b bs)
  show ?case
  proof (cases "pipe_full (pipes s p)")
    case True
    then have "pipes t = pipes s"
      using Cons.prems(1) by (auto simp: ends_and_then dest!: pipes_wakeup pipes_sleep split: if_splits)
    then show ?thesis using Cons.prems(2) by (auto intro!: exI [of _ 0])
  next
    case False
    note q = pq.put_ok [OF Cons.prems(2) False, of b]
    have "ends (pipewrite_loop p bs (upd_pipe p (pipe_put b) s)) t" using Cons.prems(1) False by simp
    from Cons.IH [OF this] q obtain k where k: "pipe_ok (pipes t p)" "k \<le> length bs"
      "pipe_items (pipes t p) = (pipe_items (pipes s p) @ [b]) @ take k bs"
      "pi_nwrite (pipes t p) = pi_nwrite (pipe_put b (pipes s p)) + of_nat k" by auto
    have "pi_nwrite (pipe_put b (pipes s p)) = pi_nwrite (pipes s p) + 1" by (simp add: pipe_put_def)
    then show ?thesis using k by (intro conjI exI [of _ "Suc k"]) (auto simp: algebra_simps)
  qed
qed (auto simp: ends_def)

lemma accepted_items:
  assumes "pipe_ok q'" and "pipe_items q' = pipe_items q @ take k bs" and "k \<le> length bs"
    and "pi_nwrite q' = pi_nwrite q + of_nat k"
  shows "take (unat (pi_nwrite q' - pi_nwrite q)) bs = take k bs"
proof -
  have "length (pipe_items q') \<le> PIPESIZE" using assms(1) by (rule pq.bounded)
  then have "k \<le> 512" using assms(2,3) by (simp add: PIPESIZE_def del: length_pipe_items)
  then show ?thesis using assms(4) by (simp add: unat_of_nat)
qed

lemma pipewrite_loop_accepted:
  assumes "ends (pipewrite_loop p bs s) t" and "pipe_ok (pipes s p)"
  shows "pipe_ok (pipes t p)" "pipe_items (pipes t p) = pipe_items (pipes s p) @ accepted p bs s t"
proof -
  obtain k where k: "pipe_ok (pipes t p)" "k \<le> length bs" "pipe_items (pipes t p) = pipe_items (pipes s p) @ take k bs"
    "pi_nwrite (pipes t p) = pi_nwrite (pipes s p) + of_nat k"
    using pipewrite_loop_items [OF assms] by blast
  show "pipe_ok (pipes t p)" by (rule k(1))
  show "pipe_items (pipes t p) = pipe_items (pipes s p) @ accepted p bs s t"
    unfolding accepted_def accepted_items [OF k(1,3,2,4)] by (rule k(3))
qed

lemma pipewrite_accepted:
  assumes "ends (pipewrite p addr n s) t" and "pipe_ok (pipes s p)"
  shows "pipe_ok (pipes t p) \<and>
    pipe_items (pipes t p) = pipe_items (pipes s p) @ accepted p (take (nat (sint n)) addr) s t"
proof -
  obtain s1 s2 where 1: "lk_acquire (plock p) s = Ret () s1" and "pipes t = pipes s2"
    and 2: "ends (pipewrite_loop p (take (nat (sint n)) addr) s1) s2"
    using assms(1)
    by (fastforce simp: pipewrite_def ends_and_then dest: pipes_lk pipes_wakeup split: if_splits)
  then show ?thesis
    using pipewrite_loop_accepted [OF 2] assms(2) pipes_lk(1) [OF 1] by (simp add: accepted_def)
qed

lemma piperead_loop_items:
  assumes "pipe_ok q"
  shows "fst (piperead_loop n q) = take n (pipe_items q) \<and> pipe_ok (snd (piperead_loop n q)) \<and>
    pipe_items (snd (piperead_loop n q)) = drop n (pipe_items q)"
  by (rule pq.drain_spec [OF assms, where drain = piperead_loop]) (simp_all add: case_prod_beta Let_def)

lemma piperead_taken:
  assumes "piperead p n s = Ret (r, out) t" and "pipe_ok (pipes s p)"
  shows "pipe_ok (pipes t p) \<and> pipe_items (pipes s p) = out @ pipe_items (pipes t p)"
proof -
  obtain s1 where 1: "lk_acquire (plock p) s = Ret () s1" and 2: "piperead_locked p n s1 = Ret (r, out) t"
    using assms(1) by (auto simp: piperead_def outcome_simps)
  have "sleep (read_chan p) (plock p) s1 \<noteq> Ret (r, out) t" by (simp add: sleep_def outcome_simps)
  then have "pipes t = pipes s \<and> out = [] \<or>
      (out = fst (piperead_loop (nat (sint n)) (pipes s p)) \<and>
       pipes t = (pipes s)(p := snd (piperead_loop (nat (sint n)) (pipes s p))))"
    using 1 2 by (auto simp: piperead_locked_def outcome_simps case_prod_beta Let_def dest!: pipes_lk pipes_wakeup split: if_splits)
  then show ?thesis using piperead_loop_items [OF assms(2)] assms(2) by auto
qed

lemma upd_pipe_comp: "upd_pipe p f (upd_pipe p g s) = upd_pipe p (f \<circ> g) s"
  by (simp add: upd_pipe_def)

lemma pipewrite_loop_room:
  assumes "pipe_ok (pipes s p)" and "length (pipe_items (pipes s p)) + length bs \<le> PIPESIZE"
  shows "pipewrite_loop p bs s = Ret True (upd_pipe p (fold pipe_put bs) s) \<and>
    pipe_ok (fold pipe_put bs (pipes s p)) \<and>
    pipe_items (fold pipe_put bs (pipes s p)) = pipe_items (pipes s p) @ bs"
  using assms
proof (induction bs arbitrary: s)
  case Nil
  then show ?case by (simp add: upd_pipe_def)
next
  case (Cons b bs)
  have nf: "\<not> pipe_full (pipes s p)" using Cons.prems pq.room [OF Cons.prems(1)] by (simp del: length_pipe_items)
  note q = pq.put_ok [OF Cons.prems(1) nf, of b]
  have "pipewrite_loop p bs (upd_pipe p (pipe_put b) s) =
      Ret True (upd_pipe p (fold pipe_put bs) (upd_pipe p (pipe_put b) s)) \<and>
    pipe_ok (fold pipe_put bs (pipe_put b (pipes s p))) \<and>
    pipe_items (fold pipe_put bs (pipe_put b (pipes s p))) = pipe_items (pipe_put b (pipes s p)) @ bs"
    using Cons.IH [of "upd_pipe p (pipe_put b) s"] Cons.prems q by (simp del: length_pipe_items)
  then show ?case using nf q by (simp add: upd_pipe_comp comp_def)
qed

text \<open>Locks and sleepers do not matter to the pipe.\<close>

lemma held_upd_pipe [simp]: "held (upd_pipe p f s) = held s"
  by (simp add: upd_pipe_def)

lemma pipewrite_room:
  assumes "pipe_ok (pipes s p)" and "length (pipe_items (pipes s p)) + length bs \<le> PIPESIZE"
    and "plock p \<notin> held s" and "LPtable \<notin> held s"
  shows "returns (pipewrite p bs (of_nat (length bs)) s) (\<lambda>r t. r = of_nat (length bs) \<and> pipe_ok (pipes t p) \<and>
    pipe_items (pipes t p) = pipe_items (pipes s p) @ bs \<and> held t = held s)"
proof -
  let ?s = "s\<lparr>held := insert (plock p) (held s)\<rparr>"
  have "length bs \<le> 512" using assms(2) by (simp add: PIPESIZE_def)
  then have n: "nat (sint (of_nat (length bs) :: uint)) = length bs"
    by (simp add: sint_small)
  have l: "pipewrite_loop p bs ?s = Ret True (upd_pipe p (fold pipe_put bs) ?s)"
    and q: "pipe_ok (fold pipe_put bs (pipes s p))"
      "pipe_items (fold pipe_put bs (pipes s p)) = pipe_items (pipes s p) @ bs"
    using pipewrite_loop_room [of ?s p bs] assms(1,2) by simp_all
  show ?thesis unfolding pipewrite_def n
    using assms(3,4) q by (simp add: l wakeup_free)
qed

lemma piperead_returns:
  assumes "pipe_ok (pipes s p)" and "pipe_items (pipes s p) \<noteq> []"
    and "plock p \<notin> held s" and "LPtable \<notin> held s"
  shows "returns (piperead p n s) (\<lambda>(r, out) t. out = take (nat (sint n)) (pipe_items (pipes s p)) \<and>
    r = of_nat (length out) \<and> pipe_items (pipes t p) = drop (nat (sint n)) (pipe_items (pipes s p)))"
proof -
  have "pi_nread (pipes s p) \<noteq> pi_nwrite (pipes s p)" using pq.drained_iff [OF assms(1)] assms(2) by simp
  then show ?thesis
    using piperead_loop_items [OF assms(1), of "nat (sint n)"] assms(3,4)
    by (simp add: piperead_def piperead_locked_def case_prod_beta Let_def wakeup_free)
qed

section \<open>Histories of a pipe\<close>

text \<open>A history of pipe \<open>p\<close> since it was empty, with the bytes its writers have put in and the bytes its
  readers have got: calls of \<open>pipewrite\<close>, which may go to sleep half way, writers that were woken and continue, calls
  of \<open>piperead\<close>, and anything else that leaves the pipe alone.\<close>

inductive pipe_run :: "uint \<Rightarrow> 'a kpipe_scheme \<Rightarrow> byte list \<Rightarrow> byte list \<Rightarrow> bool"
  for p :: uint where
  fresh: "pipe_ok (pipes s p) \<Longrightarrow> pipe_items (pipes s p) = [] \<Longrightarrow> pipe_run p s [] []"
| write_call: "pipe_run p s sent got \<Longrightarrow> ends (pipewrite p addr n s) t \<Longrightarrow>
    pipe_run p t (sent @ accepted p (take (nat (sint n)) addr) s t) got"
| write_again: "pipe_run p s sent got \<Longrightarrow> ends (pipewrite_loop p bs s) t \<Longrightarrow>
    pipe_run p t (sent @ accepted p bs s t) got"
| read_call: "pipe_run p s sent got \<Longrightarrow> piperead p n s = Ret (r, out) t \<Longrightarrow> pipe_run p t sent (got @ out)"
| elsewhere: "pipe_run p s sent got \<Longrightarrow> pipes t p = pipes s p \<Longrightarrow> pipe_run p t sent got"

lemma pipe_run_inv: "pipe_run p s sent got \<Longrightarrow> pipe_ok (pipes s p) \<and> sent = got @ pipe_items (pipes s p)"
proof (induction rule: pipe_run.induct)
  case (write_call s sent got addr n t)
  then show ?case using pipewrite_accepted [of p addr n s t] by simp
next
  case (write_again s sent got bs t)
  then show ?case using pipewrite_loop_accepted [of p bs s t] by simp
next
  case (read_call s sent got n r out t)
  then show ?case using piperead_taken [of p n s r out t] by simp
qed simp_all

section \<open>Properties\<close>

definition bare_pipe :: kpipe where
  "bare_pipe = kvm.extend (kmem.extend bare_mem (kvm.fields 0 0 0 0 0 [] 0 0 0 0 0))
     (kpipe.fields (\<lambda>_. \<lparr>pi_data = replicate PIPESIZE 0, pi_nread = 0xFFFFFFFE, pi_nwrite = 0xFFFFFFFE,
       pi_readopen = True, pi_writeopen = True\<rparr>))"

lemma bare_pipe_simps [simp]: "held bare_pipe = {}" "pipe_ok (pipes bare_pipe p)" "pipe_items (pipes bare_pipe p) = []"
  by (simp_all add: bare_pipe_def bare_mem_def kvm.defs kmem.defs kpipe.defs pipe_ok_def pipe_items_def)

text \<open>C4: a pipe is first-in first-out.  After any history of calls, sleeps and wakeups the bytes its writers put
  in are exactly the bytes its readers got followed by the at most 512 bytes still in the buffer, in order, also after
  the 32-bit counters have wrapped around.\<close>

theorem pipe_fifo:
  assumes "pipe_run p s sent got"
  shows "sent = got @ pipe_items (pipes s p) \<and> length (pipe_items (pipes s p)) \<le> PIPESIZE"
  using pipe_run_inv [OF assms] pq.bounded [of "pipes s p"] by blast

theorem pipe_fifo_witness:
  "\<exists>t :: kpipe. pipe_run 0x200000 t [1, 2, 3] [] \<and> pipe_items (pipes t 0x200000) = [1, 2, 3]"
proof -
  let ?p = "0x200000 :: uint"
  have r: "returns (pipewrite ?p [1, 2, 3] (of_nat (length [1, 2, 3 :: byte])) bare_pipe)
      (\<lambda>r t. pipe_items (pipes t ?p) = [1, 2, 3])"
    by (rule returns_mono [OF pipewrite_room]) (auto simp: PIPESIZE_def)
  then obtain x t where t: "pipewrite ?p [1, 2, 3] (of_nat (length [1, 2, 3 :: byte])) bare_pipe = Ret x t"
    "pipe_items (pipes t ?p) = [1, 2, 3]" by (auto simp: returns_def)
  have "pipe_run ?p bare_pipe [] []" by (rule pipe_run.fresh) simp_all
  then have run: "pipe_run ?p t ([] @ accepted ?p (take (nat (sint (of_nat (length [1, 2, 3 :: byte]) :: uint))) [1, 2, 3]) bare_pipe t) []"
    by (rule pipe_run.write_call) (simp only: t(1) ends_simps)
  from pipe_fifo [OF this] have "accepted ?p (take (nat (sint (of_nat (length [1, 2, 3 :: byte]) :: uint))) [1, 2, 3]) bare_pipe t = [1, 2, 3]"
    using t(2) by simp
  then have "pipe_run ?p t [1, 2, 3] []" using run by simp
  then show ?thesis using t(2) by blast
qed

text \<open>C24: when there is room, \<open>pipewrite\<close> returns at once with the whole request written, and the next \<open>piperead\<close>
  returns at once with the oldest bytes of the pipe, as many as it asks for.\<close>

theorem pipe_write_read:
  assumes "pipe_ok (pipes s p)" and "length (pipe_items (pipes s p)) + length bs \<le> PIPESIZE" and "bs \<noteq> []"
    and "plock p \<notin> held s" and "LPtable \<notin> held s"
  shows "returns (and_then (pipewrite p bs (of_nat (length bs)) s) (\<lambda>_. piperead p n)) (\<lambda>(r, out) t.
    out = take (nat (sint n)) (pipe_items (pipes s p) @ bs) \<and> r = of_nat (length out) \<and>
    pipe_items (pipes t p) = drop (nat (sint n)) (pipe_items (pipes s p) @ bs))"
proof (rule returns_bind [OF pipewrite_room [OF assms(1,2,4,5)]])
  fix x t
  assume "x = of_nat (length bs) \<and> pipe_ok (pipes t p) \<and> pipe_items (pipes t p) = pipe_items (pipes s p) @ bs \<and>
    held t = held s"
  then show "returns (piperead p n t) (\<lambda>(r, out) t'.
    out = take (nat (sint n)) (pipe_items (pipes s p) @ bs) \<and> r = of_nat (length out) \<and>
    pipe_items (pipes t' p) = drop (nat (sint n)) (pipe_items (pipes s p) @ bs))"
    using piperead_returns [of t p n] assms by simp
qed

theorem pipe_write_read_witness:
  "returns (and_then (pipewrite 0x200000 [7, 8, 9] 3 bare_pipe) (\<lambda>_. piperead 0x200000 2)) (\<lambda>(r, out) t.
    out = [7, 8] \<and> r = 2 \<and> pipe_items (pipes t 0x200000) = [9])"
proof -
  have "returns (and_then (pipewrite 0x200000 [7, 8, 9] (of_nat (length [7, 8, 9 :: byte])) bare_pipe)
      (\<lambda>_. piperead 0x200000 2)) (\<lambda>(r, out) t. out = [7, 8] \<and> r = 2 \<and> pipe_items (pipes t 0x200000) = [9])"
    by (rule returns_mono [OF pipe_write_read]) (auto simp: PIPESIZE_def numeral_2_eq_2)
  then show ?thesis by simp
qed

end
