(* ===== verification/Filemap.thy ===== *)
theory Filemap
  imports Inode
begin

text \<open>
  Correctness of the file layer of \<^verbatim>\<open>src/5/xv6/fs.c\<close>: bmap, readi, writei.  A file is seen as a map from
  block numbers to disk blocks (\<open>fmap\<close>) and as a sequence of bytes (\<open>fbyte\<close>).  \<open>bmap\<close> never changes the
  bytes, because a free block is zero (\<open>vol_ok\<close>); \<open>readi\<close> returns them; \<open>writei\<close> replaces the written range.
  \<open>file_ok\<close> is the invariant of a file: its blocks are allocated, and no two of them are the same.
\<close>

section \<open>Files on a volume\<close>

text \<open>The disk block of block \<open>k\<close> of a file, 0 if it has none, and the indirect block.\<close>

definition ext_lookup :: "uint list \<Rightarrow> uint \<Rightarrow> uint" where
  "ext_lookup as bn = (case ext_scan bn as ext_slots None None of Inl a \<Rightarrow> a | Inr _ \<Rightarrow> 0)"

definition ind_block :: "inode \<Rightarrow> uint" where
  "ind_block x = (if i_type x = T_EXTENT then 0 else i_addrs x ! NDIRECT)"

definition fmap :: "inode \<Rightarrow> (uint \<Rightarrow> byte list) \<Rightarrow> nat \<Rightarrow> uint" where
  "fmap x D k =
     (if i_type x = T_EXTENT then (if k < 2 ^ 23 then ext_lookup (i_addrs x) (of_nat k) else 0)
      else if k < NDIRECT then i_addrs x ! k
      else if k < MAXFILE \<and> ind_block x \<noteq> 0 then get_uint (D (ind_block x)) (k - NDIRECT)
      else 0)"

text \<open>Byte \<open>i\<close> of a file: a block that was never allocated reads as zero.\<close>

definition fbyte :: "inode \<Rightarrow> (uint \<Rightarrow> byte list) \<Rightarrow> nat \<Rightarrow> byte" where
  "fbyte x D i = (let a = fmap x D (i div BSIZE) in if a = 0 then 0 else D a ! (i mod BSIZE))"

text \<open>Extents: a free slot is zero; the others have a length, lie on the volume, and do not overlap.\<close>

definition elen :: "uint list \<Rightarrow> nat \<Rightarrow> nat" where "elen as i = unat (as ! i AND 0xFF)"
definition eblk :: "uint list \<Rightarrow> nat \<Rightarrow> nat" where "eblk as i = unat (drop_bit 8 (as ! i))"
definition elog :: "uint list \<Rightarrow> nat \<Rightarrow> nat" where "elog as i = unat (as ! (i + 1))"

definition ext_ok :: "uint list \<Rightarrow> bool" where
  "ext_ok as \<longleftrightarrow>
     (\<forall>i\<in>set ext_slots. as ! i \<noteq> 0 \<longrightarrow> 0 < elen as i \<and> eblk as i \<noteq> 0 \<and> eblk as i + elen as i \<le> 2 ^ 24
        \<and> elog as i + elen as i \<le> 2 ^ 23)
     \<and> (\<forall>i\<in>set ext_slots. \<forall>j\<in>set ext_slots. i \<noteq> j \<longrightarrow> as ! i \<noteq> 0 \<longrightarrow> as ! j \<noteq> 0 \<longrightarrow>
          elog as i + elen as i \<le> elog as j \<or> elog as j + elen as j \<le> elog as i)"

definition file_ok :: "inode \<Rightarrow> (uint \<Rightarrow> byte list) \<Rightarrow> bool" where
  "file_ok x D \<longleftrightarrow> length (i_addrs x) = NDIRECT + 1 \<and> vol_ok D
     \<and> (\<forall>k. fmap x D k \<noteq> 0 \<longrightarrow> vol_owned D (fmap x D k))
     \<and> (\<forall>k l. fmap x D k \<noteq> 0 \<longrightarrow> fmap x D k = fmap x D l \<longrightarrow> k = l)
     \<and> (ind_block x \<noteq> 0 \<longrightarrow> vol_owned D (ind_block x) \<and> (\<forall>k. fmap x D k \<noteq> ind_block x))
     \<and> (i_type x = T_EXTENT \<longrightarrow> ext_ok (i_addrs x))"

text \<open>The blocks in \<open>B\<close> can be mapped: enough free blocks, and for extents enough slots, none of which can
  grow beyond the length its byte can hold.\<close>

definition unmapped :: "inode \<Rightarrow> (uint \<Rightarrow> byte list) \<Rightarrow> nat set \<Rightarrow> nat set" where
  "unmapped x D B = {k\<in>B. fmap x D k = 0}"

definition free_slots :: "uint list \<Rightarrow> nat set" where
  "free_slots as = {i\<in>set ext_slots. as ! i = 0}"

definition room :: "inode \<Rightarrow> (uint \<Rightarrow> byte list) \<Rightarrow> nat set \<Rightarrow> bool" where
  "room x D B \<longleftrightarrow> finite B \<and>
     (if i_type x = T_EXTENT
      then B \<subseteq> {..<2 ^ 23} \<and> card (unmapped x D B) \<le> card {b. vol_free D b}
        \<and> card (unmapped x D B) \<le> card (free_slots (i_addrs x))
        \<and> (\<forall>i\<in>set ext_slots. elen (i_addrs x) i + card (unmapped x D B) \<le> 255)
      else B \<subseteq> {..<MAXFILE}
        \<and> card (unmapped x D B) + (if ind_block x = 0 then 1 else 0) \<le> card {b. vol_free D b})"

lemma vol_free_not_owned: "vol_free D b \<Longrightarrow> \<not> vol_owned D b"
  by (simp add: vol_free_def vol_owned_def)

lemma vol_owned_nonzero: "vol_owned D b \<Longrightarrow> b \<noteq> 0"
  by (auto simp: vol_owned_def data_start_def bm_start_def)

lemma vol_free_nonzero: "vol_ok D \<Longrightarrow> vol_free D b \<Longrightarrow> b \<noteq> 0"
  using vol_ok_facts(4) [of D b] by (auto simp: data_start_def bm_start_def)

text \<open>One more block of the file is mapped.\<close>

lemma file_ok_grow:
  assumes f: "file_ok x D" and a: "vol_free D a" and v: "vol_ok D'"
    and o: "\<And>c. vol_owned D' c \<longleftrightarrow> c = a \<or> vol_owned D c"
    and len: "length (i_addrs x') = NDIRECT + 1"
    and m: "fmap x' D' = (fmap x D)(k := a)" and i: "ind_block x' = ind_block x"
    and e: "i_type x' = T_EXTENT \<Longrightarrow> ext_ok (i_addrs x')"
  shows "file_ok x' D'"
proof -
  have na: "\<not> vol_owned D a" by (rule vol_free_not_owned [OF a])
  have "a \<noteq> ind_block x" if "ind_block x \<noteq> 0" using f that na by (auto simp: file_ok_def)
  moreover have "fmap x D j \<noteq> a" if "fmap x D j \<noteq> 0" for j using f that na by (auto simp: file_ok_def)
  moreover have "a \<noteq> 0" using f a by (auto simp: file_ok_def dest: vol_free_nonzero)
  ultimately show ?thesis
    using f v len e unfolding file_ok_def m i o by (auto split: if_splits)
qed

text \<open>The contents do not change when a zero block is mapped.\<close>

lemma fbyte_grow:
  assumes f: "file_ok x D" and m: "fmap x' D' = (fmap x D)(k := a)" and z: "fmap x D k = 0" "D' a = zero_block"
    and same: "\<And>c. vol_owned D c \<Longrightarrow> c \<noteq> ind_block x \<Longrightarrow> D' c = D c"
  shows "fbyte x' D' = fbyte x D"
proof
  fix i
  have lt: "i mod BSIZE < BSIZE" by (simp add: BSIZE_def)
  show "fbyte x' D' i = fbyte x D i"
  proof (cases "i div BSIZE = k")
    case True
    then show ?thesis using lt z by (simp add: fbyte_def m Let_def zero_block_def)
  next
    case False
    have "D' (fmap x D (i div BSIZE)) = D (fmap x D (i div BSIZE))" if "fmap x D (i div BSIZE) \<noteq> 0"
      using f that same [of "fmap x D (i div BSIZE)"] by (auto simp: file_ok_def)
    with False show ?thesis by (simp add: fbyte_def m Let_def)
  qed
qed

section \<open>States of the file layer\<close>

lemma icache_nobio: "nobio t = nobio s \<Longrightarrow> icache t = icache s"
  for s t :: "'a kfs_scheme"
  by (drule arg_cong [of _ _ icache]) (simp add: nobio_def)

lemma upd_inode_simps [simp]:
  "bio_inv (upd_inode ip f s) = bio_inv s" "bview (upd_inode ip f s) = bview s"
  "disk (upd_inode ip f s) = disk s" "icache (upd_inode ip f s) = (icache s)[ip := f (icache s ! ip)]"
  "held (upd_inode ip f s) = held s" "procs (upd_inode ip f s) = procs s"
  by (simp_all add: upd_inode_def bio_inv_def running_def bview_def locked_buf_def data_of_def fun_eq_iff)

lemma meta_idle_upd_inode [simp]: "meta_idle dev (upd_inode ip f s) = meta_idle dev s"
  by (simp add: meta_idle_def)

lemma nobio_upd_inode [simp]: "nobio (upd_inode ip f s) = upd_inode ip f (nobio s)"
  by (simp add: nobio_def upd_inode_def)

lemma icache_nobio_simp [simp]: "icache (nobio s) = icache s"
  by (simp add: nobio_def)

text \<open>The volume on \<open>dev\<close> now is \<open>D\<close> and inode \<open>ip\<close> is \<open>x\<close>; nothing else changed outside the buffer cache.\<close>

definition fs_after :: "'a kfs_scheme \<Rightarrow> uint \<Rightarrow> (uint \<Rightarrow> byte list) \<Rightarrow> nat \<Rightarrow> inode \<Rightarrow> 'a kfs_scheme \<Rightarrow> bool" where
  "fs_after s dev D ip x t \<longleftrightarrow> bio_inv t \<and> bview t = bview s \<and> disk t = (disk s)(dev := D)
     \<and> nobio t = upd_inode ip (\<lambda>_. x) (nobio s)"

lemma fs_after_icache: "fs_after s dev D ip x t \<Longrightarrow> icache t = (icache s)[ip := x]"
  unfolding fs_after_def by (metis icache_nobio_simp upd_inode_simps(4))

lemma fs_after_trans:
  "fs_after s dev D ip x t \<Longrightarrow> fs_after t dev D' ip x' u \<Longrightarrow> fs_after s dev D' ip x' u"
  by (simp add: fs_after_def upd_inode_def)

lemma bio_fs_after:
  "bio_after s dev D t \<Longrightarrow> fs_after s dev D ip (icache s ! ip) t"
  by (simp add: bio_after_def fs_after_def) (simp add: upd_inode_def)

lemma fs_after_upd:
  "fs_after s dev D ip x t \<Longrightarrow> ip < length (icache s) \<Longrightarrow> fs_after s dev D ip (f x) (upd_inode ip f t)"
  using fs_after_icache [of s dev D ip x t] by (simp add: fs_after_def) (simp add: upd_inode_def)

lemma fs_after_upd_here:
  "bio_inv s \<Longrightarrow> icache s ! ip = x \<Longrightarrow> fs_after s dev (disk s dev) ip (f x) (upd_inode ip f s)"
  by (simp add: fs_after_def) (simp add: upd_inode_def)

lemma fs_after_refl: "bio_inv s \<Longrightarrow> icache s ! ip = x \<Longrightarrow> disk s dev = D \<Longrightarrow> fs_after s dev D ip x s"
  by (auto simp: fs_after_def upd_inode_def)

text \<open>Inode \<open>ip\<close> is \<open>x\<close>, on volume \<open>D\<close>; no buffer is locked.\<close>

definition file_at :: "'a kfs_scheme \<Rightarrow> nat \<Rightarrow> inode \<Rightarrow> (uint \<Rightarrow> byte list) \<Rightarrow> bool" where
  "file_at s ip x D \<longleftrightarrow> ip < length (icache s) \<and> icache s ! ip = x \<and> disk s (i_dev x) = D \<and> i_dev x \<le> 1
     \<and> bio_inv s \<and> bview s = Map.empty \<and> file_ok x D"

lemma file_at_idle: "file_at s ip x D \<Longrightarrow> meta_idle (i_dev x) s"
  by (simp add: file_at_def meta_idle_def NBUF_def)

lemma file_at_after:
  "file_at s ip x D \<Longrightarrow> fs_after s (i_dev x) D' ip x' t \<Longrightarrow> file_ok x' D' \<Longrightarrow> i_dev x' = i_dev x \<Longrightarrow> file_at t ip x' D'"
  using fs_after_icache [of s "i_dev x" D' ip x' t] by (simp add: file_at_def fs_after_def)

lemma balloc_fs:
  assumes m: "meta_idle dev s" and v: "vol_ok (disk s dev)" and f: "{b. vol_free (disk s dev) b} \<noteq> {}"
  shows "returns (balloc dev s) (\<lambda>b t. vol_free (disk s dev) b \<and> bio_after s dev (allocated (disk s dev) b) t)"
proof -
  obtain g where g: "vol_free (disk s dev) g" using f by blast
  have g': "unat g div BPB * BPB < unat (sb_size (sb_of (disk s dev)))" "\<not> used (disk s dev) g"
    using g by (auto simp: vol_free_def word_less_nat_alt chunk_base_less)
  show ?thesis
    by (rule returns_mono [OF balloc_spec [OF m v g']]) (use g in \<open>auto simp: vol_free_def\<close>)
qed

lemma card_pos_nonempty: "0 < card S \<Longrightarrow> S \<noteq> {}"
  by auto

section \<open>The direct and indirect map\<close>

lemma get_uint_zero_block [simp]: "k < NINDIRECT \<Longrightarrow> get_uint zero_block k = 0"
  by (simp add: get_uint_def zero_block_def chunk_def NINDIRECT_def BSIZE_def of_le32_def)

lemma bmap_direct_alloc:
  assumes at: "file_at s ip x D" and z: "i_addrs x ! i = 0" and f: "{b. vol_free D b} \<noteq> {}"
  shows "returns (bmap_direct ip i s) (\<lambda>a t. vol_free D a
    \<and> fs_after s (i_dev x) (allocated D a) ip (x\<lparr>i_addrs := (i_addrs x)[i := a]\<rparr>) t)"
proof -
  have x: "icache s ! ip = x" "disk s (i_dev x) = D" "vol_ok D" "ip < length (icache s)"
    using at by (simp_all add: file_at_def file_ok_def)
  have e: "bmap_direct ip i s = and_then (balloc (i_dev x) s) (\<lambda>addr s.
      Ret addr (upd_inode ip (\<lambda>x. x\<lparr>i_addrs := (i_addrs x)[i := addr]\<rparr>) s))"
    using x z by (simp add: bmap_direct_def Let_def)
  show ?thesis unfolding e
  proof (rule returns_bind [OF balloc_fs [OF file_at_idle [OF at], unfolded x(2)]])
    fix a t assume "vol_free D a \<and> bio_after s (i_dev x) (allocated D a) t"
    then show "returns (Ret a (upd_inode ip (\<lambda>x. x\<lparr>i_addrs := (i_addrs x)[i := a]\<rparr>) t)) (\<lambda>a t. vol_free D a
        \<and> fs_after s (i_dev x) (allocated D a) ip (x\<lparr>i_addrs := (i_addrs x)[i := a]\<rparr>) t)"
      using fs_after_upd [OF bio_fs_after [of s "i_dev x" "allocated D a" t ip]] x by simp
  qed (use x f in auto)
qed

lemma allocated_owned:
  assumes "vol_ok D" "vol_free D a"
  shows "vol_owned D c \<Longrightarrow> allocated D a c = D c" "allocated D a a = zero_block"
proof -
  have "a < sb_size (sb_of D)" using assms(2) by (simp add: vol_free_def)
  then show "vol_owned D c \<Longrightarrow> allocated D a c = D c" by (simp add: allocated_other vol_owned_def)
  have "data_start (sb_of D) \<le> unat a" by (rule vol_ok_facts(4) [OF assms])
  then show "allocated D a a = zero_block"
    using allocated_other [OF \<open>a < sb_size (sb_of D)\<close>] vol_ok_facts(3) [OF assms] by simp
qed

lemma fmap_direct:
  assumes f: "file_ok x D" and t: "i_type x \<noteq> T_EXTENT" and a: "vol_free D a" and k: "k < NDIRECT"
  shows "fmap (x\<lparr>i_addrs := (i_addrs x)[k := a]\<rparr>) (allocated D a) = (fmap x D)(k := a)"
proof
  fix j
  have len: "length (i_addrs x) = NDIRECT + 1" and v: "vol_ok D" using f by (simp_all add: file_ok_def)
  have "allocated D a (ind_block x) = D (ind_block x)" if "ind_block x \<noteq> 0"
    using f that allocated_owned(1) [OF v a] by (auto simp: file_ok_def)
  moreover have "ind_block (x\<lparr>i_addrs := (i_addrs x)[k := a]\<rparr>) = ind_block x"
    using k by (simp add: ind_block_def)
  ultimately show "fmap (x\<lparr>i_addrs := (i_addrs x)[k := a]\<rparr>) (allocated D a) j = ((fmap x D)(k := a)) j"
    using t k len by (auto simp: fmap_def nth_upd)
qed

lemma fmap_indirect_ptr:
  assumes f: "file_ok x D" and t: "i_type x \<noteq> T_EXTENT" and a: "vol_free D a" and z: "ind_block x = 0"
  shows "fmap (x\<lparr>i_addrs := (i_addrs x)[NDIRECT := a]\<rparr>) (allocated D a) = fmap x D"
proof
  fix j
  have len: "length (i_addrs x) = NDIRECT + 1" and v: "vol_ok D" using f by (simp_all add: file_ok_def)
  then have "ind_block (x\<lparr>i_addrs := (i_addrs x)[NDIRECT := a]\<rparr>) = a" using t by (simp add: ind_block_def)
  then show "fmap (x\<lparr>i_addrs := (i_addrs x)[NDIRECT := a]\<rparr>) (allocated D a) j = fmap x D j"
    using t z allocated_owned(2) [OF v a] by (auto simp: fmap_def MAXFILE_def)
qed

lemma fmap_indirect_entry:
  assumes f: "file_ok x D" and t: "i_type x \<noteq> T_EXTENT" and a: "vol_free D a" and i: "ind_block x \<noteq> 0"
    and k: "k < NINDIRECT"
  shows "fmap x ((allocated D a)(ind_block x := put_uint (D (ind_block x)) k a)) = (fmap x D)(NDIRECT + k := a)"
proof
  fix j
  have "length (D (ind_block x)) = BSIZE" using f vol_ok_facts(1) by (auto simp: file_ok_def)
  then have "get_uint (put_uint (D (ind_block x)) k a) l = (if k = l then a else get_uint (D (ind_block x)) l)"
    if "l < NINDIRECT" for l
    using k that by (intro get_put_uint) (simp_all add: NINDIRECT_def BSIZE_def)
  then show "fmap x ((allocated D a)(ind_block x := put_uint (D (ind_block x)) k a)) j = ((fmap x D)(NDIRECT + k := a)) j"
    using t i k by (auto simp: fmap_def MAXFILE_def)
qed

definition fblocks :: "inode \<Rightarrow> (uint \<Rightarrow> byte list) \<Rightarrow> uint set" where
  "fblocks x D = ({ind_block x} \<union> range (fmap x D)) - {0}"

text \<open>Writing to an allocated data block does not change the allocation.\<close>

lemma vol_upd_data:
  assumes v: "vol_ok D" and c: "vol_owned D c" and y: "length y = BSIZE"
  shows "sb_of (D(c := y)) = sb_of D" "b < sb_size (sb_of D) \<Longrightarrow> used (D(c := y)) b = used D b"
    "vol_ok (D(c := y))" "vol_free (D(c := y)) b = vol_free D b" "vol_owned (D(c := y)) b = vol_owned D b"
proof -
  have c1: "c \<noteq> 1" using c sb_block_meta [of "sb_of D"] by (auto simp: vol_owned_def)
  show sb: "sb_of (D(c := y)) = sb_of D" using c1 by (simp add: sb_of_def)
  have u: "used (D(c := y)) b = used D b" if "b < sb_size (sb_of D)" for b
  proof -
    have "bm_block D b \<noteq> c" using bm_block_meta(2) [OF that] c by (auto simp: vol_owned_def)
    then show ?thesis using sb by (simp add: used_def bm_block_def)
  qed
  then show "b < sb_size (sb_of D) \<Longrightarrow> used (D(c := y)) b = used D b" .
  show "vol_free (D(c := y)) b = vol_free D b" "vol_owned (D(c := y)) b = vol_owned D b"
    using u [of b] by (auto simp: vol_free_def vol_owned_def sb simp del: fun_upd_apply)
  have "used (D(c := y)) b" if "unat b < data_start (sb_of D)" for b
    using u [OF vol_ok_facts(6) [OF v that]] vol_ok_facts(2) [OF v that] by blast
  moreover have "(D(c := y)) b = zero_block" if "b < sb_size (sb_of D)" "\<not> used (D(c := y)) b" for b
    using that u [OF that(1)] c vol_ok_facts(3) [OF v, of b] by (auto simp: vol_free_def vol_owned_def)
  moreover have "length ((D(c := y)) b) = BSIZE" for b using y vol_ok_facts(1) [OF v] by simp
  ultimately show "vol_ok (D(c := y))" using v by (simp add: vol_ok_def Let_def sb del: fun_upd_apply)
qed

lemma card_free_allocated:
  assumes "vol_ok D" "vol_free D a"
  shows "card {b. vol_free D b} = Suc (card {b. vol_free (allocated D a) b})"
proof -
  have "{b. vol_free D b} = insert a {b. vol_free (allocated D a) b}"
    using al.al_free [OF assms] assms(2) by auto
  moreover have "a \<notin> {b. vol_free (allocated D a) b}" using al.al_free [OF assms] by simp
  ultimately show ?thesis by (simp add: card_insert_disjoint)
qed

text \<open>The file and everything else on the volume, after blocks have been added to the file.\<close>

definition keeps :: "inode \<Rightarrow> (uint \<Rightarrow> byte list) \<Rightarrow> inode \<Rightarrow> (uint \<Rightarrow> byte list) \<Rightarrow> bool" where
  "keeps x D x' D' \<longleftrightarrow> x' = x\<lparr>i_addrs := i_addrs x'\<rparr> \<and> file_ok x' D' \<and> sb_of D' = sb_of D \<and> fbyte x' D' = fbyte x D
     \<and> (\<forall>k. fmap x D k \<noteq> 0 \<longrightarrow> fmap x' D' k = fmap x D k)
     \<and> (\<forall>c. vol_owned D c \<longrightarrow> c \<notin> fblocks x D \<longrightarrow> vol_owned D' c \<and> D' c = D c \<and> c \<notin> fblocks x' D')
     \<and> (\<forall>c. unat c < bm_start (sb_of D) \<longrightarrow> D' c = D c)"

lemma keeps_refl: "file_ok x D \<Longrightarrow> keeps x D x D"
  by (simp add: keeps_def)

lemma keeps_trans:
  assumes "keeps x D x' D'" "keeps x' D' x'' D''"
  shows "keeps x D x'' D''"
proof -
  have "x'' = x\<lparr>i_addrs := i_addrs x''\<rparr>"
    using assms unfolding keeps_def by (metis (no_types, lifting) inode.update_convs(10) inode.surjective)
  with assms show ?thesis unfolding keeps_def by simp
qed

lemma keeps_simps:
  assumes "keeps x D x' D'"
  shows "i_dev x' = i_dev x" "i_type x' = i_type x" "i_size x' = i_size x" "i_inum x' = i_inum x" "file_ok x' D'"
    "fbyte x' D' = fbyte x D" "sb_of D' = sb_of D"
proof -
  have x: "x' = x\<lparr>i_addrs := i_addrs x'\<rparr>" using assms by (simp add: keeps_def)
  show "i_dev x' = i_dev x" "i_type x' = i_type x" "i_size x' = i_size x" "i_inum x' = i_inum x"
    by (subst x, simp)+
  show "file_ok x' D'" "fbyte x' D' = fbyte x D" "sb_of D' = sb_of D" using assms by (simp_all add: keeps_def)
qed

text \<open>One block \<open>a\<close> that was free becomes block \<open>k\<close> of the file.\<close>

lemma keeps_grow:
  assumes f: "file_ok x D" and a: "vol_free D a" and x': "x' = x\<lparr>i_addrs := as\<rparr>" "length as = NDIRECT + 1"
    and v: "vol_ok D'" and sb: "sb_of D' = sb_of D"
    and o: "\<And>c. vol_owned D' c \<longleftrightarrow> c = a \<or> vol_owned D c"
    and m: "fmap x' D' = (fmap x D)(k := a)" and i: "ind_block x' = ind_block x"
    and e: "i_type x' = T_EXTENT \<Longrightarrow> ext_ok (i_addrs x')"
    and z: "fmap x D k = 0" "D' a = zero_block"
    and same: "\<And>c. vol_owned D c \<Longrightarrow> c \<noteq> ind_block x \<Longrightarrow> D' c = D c"
    and meta: "\<And>c. unat c < bm_start (sb_of D) \<Longrightarrow> D' c = D c"
  shows "keeps x D x' D'"
proof -
  have "file_ok x' D'" using file_ok_grow [OF f a v o _ m i e] x' by simp
  moreover have "fbyte x' D' = fbyte x D" by (rule fbyte_grow [OF f m z same])
  moreover have "vol_owned D' c \<and> D' c = D c \<and> c \<notin> fblocks x' D'" if c: "vol_owned D c" "c \<notin> fblocks x D" for c
  proof -
    have "c \<noteq> a" using c(1) vol_free_not_owned [OF a] by auto
    moreover have "c \<noteq> 0" by (rule vol_owned_nonzero [OF c(1)])
    ultimately have "c \<noteq> ind_block x" "c \<notin> fblocks x' D'" using c(2) by (auto simp: fblocks_def m i split: if_splits)
    then show ?thesis using same c(1) o by blast
  qed
  ultimately show ?thesis using x' sb m z meta by (auto simp: keeps_def)
qed

text \<open>The three ways a block is added to a file that is not made of extents.\<close>

lemma file_ok_len: "file_ok x D \<Longrightarrow> length (i_addrs x) = NDIRECT + 1 \<and> vol_ok D"
  by (simp add: file_ok_def)

lemma keeps_direct:
  assumes f: "file_ok x D" and t: "i_type x \<noteq> T_EXTENT" and a: "vol_free D a" and k: "k < NDIRECT" "i_addrs x ! k = 0"
  shows "keeps x D (x\<lparr>i_addrs := (i_addrs x)[k := a]\<rparr>) (allocated D a)"
proof -
  have v: "vol_ok D" and len: "length (i_addrs x) = NDIRECT + 1" using f by (auto dest: file_ok_len)
  have as: "a < sb_size (sb_of D)" using a by (simp add: vol_free_def)
  show ?thesis
  proof (rule keeps_grow [OF f a refl])
    show "fmap (x\<lparr>i_addrs := (i_addrs x)[k := a]\<rparr>) (allocated D a) = (fmap x D)(k := a)"
      by (rule fmap_direct [OF f t a k(1)])
    show "fmap x D k = 0" using t k by (simp add: fmap_def)
  qed (use t k len v a al.al_good [OF v a] al.al_owned [OF v a] allocated_owned [OF v a] allocated_other [OF as]
      in \<open>simp_all add: ind_block_def\<close>)
qed

lemma keeps_indirect_ptr:
  assumes f: "file_ok x D" and t: "i_type x \<noteq> T_EXTENT" and a: "vol_free D a" and z: "ind_block x = 0"
  shows "keeps x D (x\<lparr>i_addrs := (i_addrs x)[NDIRECT := a]\<rparr>) (allocated D a)" (is "keeps x D ?x ?D")
proof -
  have v: "vol_ok D" and len: "length (i_addrs x) = NDIRECT + 1" using f by (auto dest: file_ok_len)
  have as: "a < sb_size (sb_of D)" using a by (simp add: vol_free_def)
  have m: "fmap ?x ?D = fmap x D" by (rule fmap_indirect_ptr [OF f t a z])
  have i: "ind_block ?x = a" using t len by (simp add: ind_block_def)
  have na: "\<not> vol_owned D a" by (rule vol_free_not_owned [OF a])
  note own = al.al_owned [OF v a]
  have mo: "fmap x D k \<noteq> 0 \<Longrightarrow> vol_owned D (fmap x D k)" for k using f by (simp add: file_ok_def)
  have a0: "a \<noteq> 0" by (rule vol_free_nonzero [OF v a])
  have fk: "fmap x D k \<noteq> a" for k using mo [of k] na a0 by auto
  have "file_ok ?x ?D"
    using f t len al.al_good [OF v a] own fk unfolding file_ok_def m i by (auto simp: mo)
  moreover have "fbyte ?x ?D = fbyte x D"
    using allocated_owned(1) [OF v a mo] by (auto simp: fbyte_def m Let_def fun_eq_iff)
  moreover have "c \<notin> fblocks ?x ?D" if "vol_owned D c" "c \<notin> fblocks x D" for c
    using that na by (auto simp: fblocks_def m i)
  ultimately show ?thesis
    using own allocated_owned(1) [OF v a] allocated_other [OF as] by (simp add: keeps_def m)
qed

lemma keeps_indirect_entry:
  assumes f: "file_ok x D" and t: "i_type x \<noteq> T_EXTENT" and a: "vol_free D a" and i: "ind_block x \<noteq> 0"
    and k: "k < NINDIRECT" "get_uint (D (ind_block x)) k = 0"
  shows "keeps x D x ((allocated D a)(ind_block x := put_uint (D (ind_block x)) k a))"
    "card {b. vol_free D b} = Suc (card {b. vol_free ((allocated D a)(ind_block x := put_uint (D (ind_block x)) k a)) b})"
proof -
  let ?D = "(allocated D a)(ind_block x := put_uint (D (ind_block x)) k a)"
  have v: "vol_ok D" and len: "length (i_addrs x) = NDIRECT + 1" using f by (auto dest: file_ok_len)
  have as: "a < sb_size (sb_of D)" using a by (simp add: vol_free_def)
  have oi: "vol_owned D (ind_block x)" using f i by (simp add: file_ok_def)
  have y: "length (put_uint (D (ind_block x)) k a) = BSIZE"
    using k(1) vol_ok_facts(1) [OF v] by (subst length_put_uint) (simp_all add: NINDIRECT_def BSIZE_def)
  have oi': "vol_owned (allocated D a) (ind_block x)" using al.al_owned [OF v a] oi by simp
  note up = vol_upd_data [OF al.al_good [OF v a] oi' y]
  have ai: "a \<noteq> ind_block x" using oi vol_free_not_owned [OF a] by auto
  have bi: "bm_start (sb_of D) \<le> unat (ind_block x)" using oi by (simp add: vol_owned_def data_start_def)
  show "keeps x D x ?D"
  proof (rule keeps_grow [OF f a, where as = "i_addrs x"])
    show "fmap x ?D = (fmap x D)(NDIRECT + k := a)" by (rule fmap_indirect_entry [OF f t a i k(1)])
    show "fmap x D (NDIRECT + k) = 0" using t k by (simp add: fmap_def)
    show "?D a = zero_block" using ai allocated_owned(2) [OF v a] by simp
  qed (use t len bi up al.al_owned [OF v a] allocated_owned(1) [OF v a] allocated_other [OF as] in auto)
  show "card {b. vol_free D b} = Suc (card {b. vol_free ?D b})"
    using card_free_allocated [OF v a] by (simp only: up)
qed

lemma unmapped_grow:
  assumes "fmap x' D' = (fmap x D)(k := a)" "a \<noteq> 0" "fmap x D k = 0" "k \<in> B" "finite B"
  shows "card (unmapped x D B) = Suc (card (unmapped x' D' B))"
proof -
  have "unmapped x D B = insert k (unmapped x' D' B)" "k \<notin> unmapped x' D' B"
    using assms by (auto simp: unmapped_def)
  moreover have "finite (unmapped x' D' B)" using assms(5) by (simp add: unmapped_def)
  ultimately show ?thesis by simp
qed

section \<open>bmap\<close>

text \<open>What a call for block \<open>k\<close> achieves: the file has block \<open>k\<close>, at the address returned; its bytes and
  everything else on the volume are as before; room for other blocks is still there.\<close>

definition bmap_post :: "'a kfs_scheme \<Rightarrow> nat \<Rightarrow> inode \<Rightarrow> (uint \<Rightarrow> byte list) \<Rightarrow> nat \<Rightarrow> uint \<Rightarrow> 'a kfs_scheme \<Rightarrow> bool" where
  "bmap_post s ip x D k a t \<longleftrightarrow> (\<exists>x' D'. fs_after s (i_dev x) D' ip x' t \<and> keeps x D x' D'
     \<and> fmap x' D' k = a \<and> a \<noteq> 0 \<and> (\<forall>B. k \<in> B \<longrightarrow> room x D B \<longrightarrow> room x' D' B))"

lemma bmap_post_here:
  assumes "file_at s ip x D" "fmap x D k \<noteq> 0"
  shows "bmap_post s ip x D k (fmap x D k) s"
proof -
  have "fs_after s (i_dev x) D ip x s" "file_ok x D" using assms(1) by (auto simp: file_at_def intro: fs_after_refl)
  then show ?thesis using assms(2) keeps_refl unfolding bmap_post_def by blast
qed

lemma room_flat:
  assumes r: "room x D B" and t: "i_type x \<noteq> T_EXTENT" "i_type x' = i_type x"
    and u: "card (unmapped x D B) = Suc (card (unmapped x' D' B))"
    and c: "card {b. vol_free D b} = Suc (card {b. vol_free D' b})"
    and i: "ind_block x' = 0 \<longleftrightarrow> ind_block x = 0"
  shows "room x' D' B"
  using r t u c i by (simp add: room_def split: if_splits)

lemma unmapped_pos:
  assumes "k \<in> B" "fmap x D k = 0" "finite B"
  shows "0 < card (unmapped x D B)"
  using assms by (auto simp: unmapped_def card_gt_0_iff)

lemma room_free:
  assumes "room x D B" "k \<in> B" "fmap x D k = 0"
  shows "{b. vol_free D b} \<noteq> {}"
proof -
  have "0 < card (unmapped x D B)" using assms unmapped_pos by (auto simp: room_def)
  then have "0 < card {b. vol_free D b}" using assms(1) by (auto simp: room_def split: if_splits)
  then show ?thesis by (rule card_pos_nonempty)
qed

lemma bmap_direct_spec:
  assumes at: "file_at s ip x D" and t: "i_type x \<noteq> T_EXTENT" and k: "k < NDIRECT" "k \<in> B" and r: "room x D B"
  shows "returns (bmap_direct ip k s) (bmap_post s ip x D k)"
proof -
  have f: "file_ok x D" and x: "icache s ! ip = x" using at by (simp_all add: file_at_def)
  then have v: "vol_ok D" and len: "length (i_addrs x) = NDIRECT + 1" by (auto dest: file_ok_len)
  have m: "fmap x D k = i_addrs x ! k" using t k by (simp add: fmap_def)
  show ?thesis
  proof (cases "i_addrs x ! k = 0")
    case False
    then show ?thesis using bmap_post_here [OF at, of k] m x by (simp add: bmap_direct_def Let_def)
  next
    case True
    have ne: "{b. vol_free D b} \<noteq> {}" by (rule room_free [OF r k(2)]) (simp add: m True)
    show ?thesis
    proof (rule returns_mono [OF bmap_direct_alloc [OF at True ne]], elim conjE)
      fix a u assume a: "vol_free D a"
        and u: "fs_after s (i_dev x) (allocated D a) ip (x\<lparr>i_addrs := (i_addrs x)[k := a]\<rparr>) u"
      let ?x = "x\<lparr>i_addrs := (i_addrs x)[k := a]\<rparr>" and ?D = "allocated D a"
      have m': "fmap ?x ?D = (fmap x D)(k := a)" by (rule fmap_direct [OF f t a k(1)])
      have a0: "a \<noteq> 0" by (rule vol_free_nonzero [OF v a])
      have "room ?x ?D C" if "room x D C" "k \<in> C" for C
        using that t k m True by (intro room_flat [OF that(1)] unmapped_grow [OF m' a0] card_free_allocated [OF v a])
          (auto simp: ind_block_def room_def)
      then show "bmap_post s ip x D k a u"
        unfolding bmap_post_def using u keeps_direct [OF f t a k(1) True] a0 m'
        by (intro exI [of _ ?x] exI [of _ ?D]) simp
    qed
  qed
qed

lemma bmap_ind_ptr_spec:
  assumes at: "file_at s ip x D" and t: "i_type x \<noteq> T_EXTENT" and r: "room x D B"
  shows "returns (bmap_direct ip NDIRECT s) (\<lambda>a u. \<exists>x' D'. fs_after s (i_dev x) D' ip x' u \<and> keeps x D x' D'
    \<and> a = ind_block x' \<and> a \<noteq> 0 \<and> fmap x' D' = fmap x D \<and> (\<forall>B. room x D B \<longrightarrow> room x' D' B))"
proof -
  have f: "file_ok x D" and x: "icache s ! ip = x" using at by (simp_all add: file_at_def)
  then have v: "vol_ok D" and len: "length (i_addrs x) = NDIRECT + 1" by (auto dest: file_ok_len)
  have i: "ind_block x = i_addrs x ! NDIRECT" using t by (simp add: ind_block_def)
  show ?thesis
  proof (cases "i_addrs x ! NDIRECT = 0")
    case False
    have "fs_after s (i_dev x) D ip x s" using at by (auto simp: file_at_def intro: fs_after_refl)
    with False show ?thesis using keeps_refl [OF f] i x
      by (auto simp: bmap_direct_def Let_def intro!: exI [of _ x] exI [of _ D])
  next
    case True
    have ne: "{b. vol_free D b} \<noteq> {}" using r t i True by (intro card_pos_nonempty) (auto simp: room_def)
    show ?thesis
    proof (rule returns_mono [OF bmap_direct_alloc [OF at True ne]], elim conjE)
      fix a u assume a: "vol_free D a"
        and u: "fs_after s (i_dev x) (allocated D a) ip (x\<lparr>i_addrs := (i_addrs x)[NDIRECT := a]\<rparr>) u"
      let ?x = "x\<lparr>i_addrs := (i_addrs x)[NDIRECT := a]\<rparr>" and ?D = "allocated D a"
      have z: "ind_block x = 0" using i True by simp
      have m: "fmap ?x ?D = fmap x D" by (rule fmap_indirect_ptr [OF f t a z])
      have a0: "a \<noteq> 0" by (rule vol_free_nonzero [OF v a])
      have ia: "ind_block ?x = a" using t len by (simp add: ind_block_def)
      have "room ?x ?D C" if "room x D C" for C
        using that t z ia a0 card_free_allocated [OF v a] by (simp add: room_def unmapped_def m)
      then show "\<exists>x' D'. fs_after s (i_dev x) D' ip x' u \<and> keeps x D x' D'
          \<and> a = ind_block x' \<and> a \<noteq> 0 \<and> fmap x' D' = fmap x D \<and> (\<forall>B. room x D B \<longrightarrow> room x' D' B)"
        using u keeps_indirect_ptr [OF f t a z] a0 m ia by (intro exI [of _ ?x] exI [of _ ?D]) simp
    qed
  qed
qed

lemma bmap_ind_entry_spec:
  assumes at: "file_at s ip x D" and t: "i_type x \<noteq> T_EXTENT" and k: "k < NINDIRECT" "NDIRECT + k \<in> B"
    and r: "room x D B" and i: "ind_block x \<noteq> 0"
  shows "returns (and_then (bread (i_dev x) (ind_block x) s) (\<lambda>bp s.
      let addr = get_uint (data_of bp s) k in
      if addr = 0 then
        and_then (balloc (i_dev x) s) (\<lambda>addr s.
        and_then (bwrite bp (set_data bp (put_uint (data_of bp s) k addr) s)) (\<lambda>_ s.
        and_then (brelse bp s) (\<lambda>_ s. Ret addr s)))
      else and_then (brelse bp s) (\<lambda>_ s. Ret addr s)))
    (bmap_post s ip x D (NDIRECT + k))"
proof -
  let ?dev = "i_dev x" and ?i = "ind_block x"
  have f: "file_ok x D" and x: "icache s ! ip = x" "disk s ?dev = D" "bio_inv s" "bview s = Map.empty" "ip < length (icache s)"
    using at by (simp_all add: file_at_def)
  then have v: "vol_ok D" by (auto dest: file_ok_len)
  have oi: "vol_owned D ?i" using f i by (simp add: file_ok_def)
  have idle: "meta_idle ?dev s" by (rule file_at_idle [OF at])
  have a: "addr_ok ?dev ?i" using meta_idle_addr [OF idle] oi v x(2) by (simp add: vol_owned_def)
  have m: "fmap x D (NDIRECT + k) = get_uint (D ?i) k" using t k i by (simp add: fmap_def MAXFILE_def)
  show ?thesis
  proof (rule bs.rd_bind [OF x(3) a], simp_all only: Let_def)
    show "(?dev, ?i) \<notin> keys (bview s)" "card (keys (bview s)) < NBUF" using x(4) by (simp_all add: NBUF_def)
    fix bp u
    assume u: "bio_inv u" "bview s bp = None" "bview u = (bview s)(bp \<mapsto> ((?dev, ?i), disk s ?dev ?i))"
      "data_of bp u = disk s ?dev ?i" "disk u = disk s" "nobio u = nobio s"
    show "returns (if get_uint (disk s ?dev ?i) k = 0 then
        and_then (balloc ?dev u) (\<lambda>addr s.
        and_then (bwrite bp (set_data bp (put_uint (data_of bp s) k addr) s)) (\<lambda>_ s. and_then (brelse bp s) (\<lambda>_. Ret addr)))
      else and_then (brelse bp u) (\<lambda>_. Ret (get_uint (disk s ?dev ?i) k))) (bmap_post s ip x D (NDIRECT + k))"
    proof (cases "get_uint (D ?i) k = 0")
      case False
      have "returns (and_then (brelse bp u) (\<lambda>_. Ret (get_uint (D ?i) k))) (bmap_post s ip x D (NDIRECT + k))"
      proof (rule bs.rl_bind [OF u(1,2)])
        show "bview u = (bview s)(bp \<mapsto> ((?dev, ?i), disk u ?dev ?i))" using u by simp
        fix w assume w: "bio_inv w" "bview w = bview s" "disk w = disk u" "nobio w = nobio u"
        then have "bio_after s ?dev D w" using u x by (simp add: bio_after_def fun_upd_idem)
        then have "fs_after s ?dev D ip x w" using bio_fs_after x(1) by metis
        then show "returns (Ret (get_uint (D ?i) k) w) (bmap_post s ip x D (NDIRECT + k))"
          using keeps_refl [OF f] m False unfolding bmap_post_def returns_Ret by (intro exI [of _ x] exI [of _ D]) simp
      qed
      then show ?thesis using False x by simp
    next
      case True
      have idle': "meta_idle ?dev u"
        using idle u x oi by (auto simp: meta_idle_def keys_upd NBUF_def vol_owned_def)
      have ne: "{b. vol_free (disk u ?dev) b} \<noteq> {}"
        using room_free [OF r k(2)] m True u x by simp
      have v': "vol_ok (disk u ?dev)" using v u x by simp
      have "returns (and_then (balloc ?dev u) (\<lambda>addr s. and_then (bwrite bp (set_data bp (put_uint (data_of bp s) k addr) s))
          (\<lambda>_ s. and_then (brelse bp s) (\<lambda>_. Ret addr)))) (bmap_post s ip x D (NDIRECT + k))"
      proof (rule returns_bind [OF balloc_fs [OF idle' v' ne]], elim conjE)
        fix b w assume b: "vol_free (disk u ?dev) b" and w: "bio_after u ?dev (allocated (disk u ?dev) b) w"
        have b: "vol_free D b" using b u x by simp
        have wv: "bio_inv w" "bview w = (bview s)(bp \<mapsto> ((?dev, ?i), D ?i))" "nobio w = nobio s"
          "disk w = (disk s)(?dev := allocated D b)" using w u x by (simp_all add: bio_after_def)
        have dw: "data_of bp w = D ?i" using wv(2) by (intro bs.dat_law [of w bp "(?dev, ?i)"]) simp
        let ?D = "(allocated D b)(?i := put_uint (D ?i) k b)"
        note kp = keeps_indirect_entry [OF f t b i k(1) True]
        have fm: "fmap x ?D = (fmap x D)(NDIRECT + k := b)" by (rule fmap_indirect_entry [OF f t b i k(1)])
        have b0: "b \<noteq> 0" by (rule vol_free_nonzero [OF v b])
        have rm: "room x ?D C" if "room x D C" "NDIRECT + k \<in> C" for C
          using that m True t by (intro room_flat [OF that(1) t refl] unmapped_grow [OF fm b0] kp(2)) (auto simp: room_def)
        show "returns (and_then (bwrite bp (set_data bp (put_uint (data_of bp w) k b) w))
            (\<lambda>_ s. and_then (brelse bp s) (\<lambda>_. Ret b))) (bmap_post s ip x D (NDIRECT + k))"
          unfolding dw
        proof (rule bs.wr_rl_bind [OF wv(1) u(2) wv(2)])
          show "length (put_uint (D ?i) k b) = BSIZE"
            using k(1) vol_ok_facts(1) [OF v] by (subst length_put_uint) (simp_all add: NINDIRECT_def BSIZE_def)
          fix z assume z: "bio_inv z" "bview z = bview s" "nobio z = nobio w"
            "disk z = (disk w)(?dev := (disk w ?dev)(?i := put_uint (D ?i) k b))"
          then have "bio_after s ?dev ?D z" using wv by (simp add: bio_after_def)
          then have "fs_after s ?dev ?D ip x z" using bio_fs_after x(1) by metis
          then show "returns (Ret b z) (bmap_post s ip x D (NDIRECT + k))"
            unfolding bmap_post_def returns_Ret using kp(1) rm b0 fm by (intro exI [of _ x] exI [of _ ?D]) simp
        qed
      qed
      then show ?thesis using True x by simp
    qed
  qed
qed

lemma bmap_flat_spec:
  assumes at: "file_at s ip x D" and t: "i_type x \<noteq> T_EXTENT" and k: "k \<in> B" and r: "room x D B"
  shows "returns (bmap ip (of_nat k) s) (bmap_post s ip x D k)"
proof -
  have x: "icache s ! ip = x" using at by (simp add: file_at_def)
  have km: "k < MAXFILE" using r k t by (auto simp: room_def)
  then have uk: "unat (of_nat k :: uint) = k" by (simp add: unat_of_nat MAXFILE_def NDIRECT_def NINDIRECT_def BSIZE_def)
  show ?thesis
  proof (cases "k < NDIRECT")
    case True
    then show ?thesis using bmap_direct_spec [OF at t True k r] t x uk by (simp add: bmap_def)
  next
    case False
    define j where "j = k - NDIRECT"
    have j: "j < NINDIRECT" "NDIRECT + j = k" using False km by (simp_all add: j_def MAXFILE_def)
    have e: "bmap ip (of_nat k) s = and_then (bmap_direct ip NDIRECT s) (\<lambda>addr s.
      and_then (bread (i_dev x) addr s) (\<lambda>bp s.
      let addr = get_uint (data_of bp s) j in
      if addr = 0 then
        and_then (balloc (i_dev x) s) (\<lambda>addr s.
        and_then (bwrite bp (set_data bp (put_uint (data_of bp s) j addr) s)) (\<lambda>_ s.
        and_then (brelse bp s) (\<lambda>_ s. Ret addr s)))
      else and_then (brelse bp s) (\<lambda>_ s. Ret addr s)))"
      unfolding bmap_def Let_def j_def x uk using t False j(1) [unfolded j_def] by simp
    show ?thesis unfolding e
    proof (rule returns_bind [OF bmap_ind_ptr_spec [OF at t r]], elim exE conjE)
      fix a u x' D'
      assume u: "fs_after s (i_dev x) D' ip x' u" "keeps x D x' D'" "a = ind_block x'" "a \<noteq> 0" "fmap x' D' = fmap x D"
        and rm: "\<forall>B. room x D B \<longrightarrow> room x' D' B"
      note ks = keeps_simps [OF u(2)]
      have at': "file_at u ip x' D'" by (rule file_at_after [OF at u(1) ks(5,1)])
      have jb: "NDIRECT + j \<in> B" using k j by simp
      have "returns (and_then (bread (i_dev x) a u) (\<lambda>bp s.
          let addr = get_uint (data_of bp s) j in
          if addr = 0 then
            and_then (balloc (i_dev x) s) (\<lambda>addr s.
            and_then (bwrite bp (set_data bp (put_uint (data_of bp s) j addr) s)) (\<lambda>_ s.
            and_then (brelse bp s) (\<lambda>_ s. Ret addr s)))
          else and_then (brelse bp s) (\<lambda>_ s. Ret addr s))) (bmap_post u ip x' D' k)"
      proof -
        have pre: "i_type x' \<noteq> T_EXTENT" "room x' D' B" "ind_block x' \<noteq> 0" using rm r t u ks by simp_all
        show ?thesis
          using bmap_ind_entry_spec [OF at' pre(1) j(1) jb pre(2,3)] unfolding ks(1) j(2) u(3) .
      qed
      then show "returns (and_then (bread (i_dev x) a u) (\<lambda>bp s.
          let addr = get_uint (data_of bp s) j in
          if addr = 0 then
            and_then (balloc (i_dev x) s) (\<lambda>addr s.
            and_then (bwrite bp (set_data bp (put_uint (data_of bp s) j addr) s)) (\<lambda>_ s.
            and_then (brelse bp s) (\<lambda>_ s. Ret addr s)))
          else and_then (brelse bp s) (\<lambda>_ s. Ret addr s))) (bmap_post s ip x D k)"
        using fs_after_trans [OF u(1)] keeps_trans [OF u(2)] rm ks(1)
        by (elim returns_mono) (unfold bmap_post_def, metis)
    qed
  qed
qed

section \<open>Extents\<close>

text \<open>The two fields of an extent word.\<close>

lemma low_byte: "unat (w AND 0xFF) = unat w mod 256" for w :: uint
proof -
  have "w AND 0xFF = take_bit 8 w" by (simp add: take_bit_eq_mask mask_eq_exp_minus_1)
  then show ?thesis by (simp add: take_bit_eq_mod unat_mod)
qed

lemma high_bits: "unat (drop_bit 8 w) = unat w div 256" for w :: uint
  by (simp add: drop_bit_eq_div unat_div)

lemma elen_mod: "elen as i = unat (as ! i) mod 256"
  by (simp add: elen_def low_byte)

lemma eblk_div: "eblk as i = unat (as ! i) div 256"
  by (simp add: eblk_def high_bits)

definition covers :: "uint list \<Rightarrow> nat \<Rightarrow> nat \<Rightarrow> bool" where
  "covers as i k \<longleftrightarrow> elog as i \<le> k \<and> k < elog as i + elen as i"

definition extent_fits :: "uint list \<Rightarrow> nat \<Rightarrow> bool" where
  "extent_fits as i \<longleftrightarrow> (as ! i \<noteq> 0 \<longrightarrow> elog as i + elen as i \<le> 2 ^ 23)"

lemma covers_test:
  assumes "extent_fits as i" "k < 2 ^ 23"
  shows "(as ! (i + 1) \<le> of_nat k \<and> of_nat k < (as ! i AND 0xFF) + as ! (i + 1)) \<longleftrightarrow> covers as i k"
    "as ! i \<noteq> 0 \<Longrightarrow> (of_nat k = (as ! i AND 0xFF) + as ! (i + 1)) \<longleftrightarrow> k = elog as i + elen as i"
proof -
  have k: "unat (of_nat k :: uint) = k" using assms(2) by (simp add: unat_of_nat)
  have s: "unat ((as ! i AND 0xFF) + as ! (i + 1)) = elen as i + elog as i" if "as ! i \<noteq> 0"
    using assms(1) that unat_lt [of "as ! (i + 1)"]
    by (simp add: extent_fits_def unat_word_ariths elen_def elog_def)
  show "as ! i \<noteq> 0 \<Longrightarrow> (of_nat k = (as ! i AND 0xFF) + as ! (i + 1)) \<longleftrightarrow> k = elog as i + elen as i"
    using s k by (auto simp: word_unat_eq_iff simp del: word_unat_eq_iff [symmetric])
  show "(as ! (i + 1) \<le> of_nat k \<and> of_nat k < (as ! i AND 0xFF) + as ! (i + 1)) \<longleftrightarrow> covers as i k"
  proof (cases "as ! i = 0")
    case True
    then show ?thesis by (auto simp: covers_def elen_def)
  next
    case False
    then show ?thesis using s k by (auto simp: word_le_nat_alt word_less_nat_alt covers_def elog_def)
  qed
qed

text \<open>The scan in terms of \<open>find\<close>.\<close>

definition hits_end :: "uint list \<Rightarrow> nat \<Rightarrow> nat \<Rightarrow> bool" where
  "hits_end as k i \<longleftrightarrow> of_nat k = (as ! i AND 0xFF) + as ! (i + 1)"

lemma ext_scan_eq:
  assumes "\<forall>i\<in>set is. extent_fits as i" "k < 2 ^ 23"
  shows "ext_scan (of_nat k) as is fill nb =
    (case find (\<lambda>i. covers as i k) is of
       Some i \<Rightarrow> Inl (drop_bit 8 (as ! i) + (of_nat k - as ! (i + 1)))
     | None \<Rightarrow> Inr (if fill = None then find (\<lambda>i. as ! i = 0) is else fill,
         fold (\<lambda>i nb. if hits_end as k i then Some i else nb) is nb))"
  using assms(1)
proof (induction "is" arbitrary: fill nb)
  case (Cons i "is")
  have t: "(as ! (i + 1) \<le> of_nat k \<and> of_nat k < (as ! i AND 0xFF) + as ! (i + 1)) \<longleftrightarrow> covers as i k"
    using covers_test(1) [OF _ assms(2)] Cons.prems by simp
  show ?case
  proof (cases "covers as i k")
    case True
    then show ?thesis using t by (simp add: Let_def)
  next
    case False
    have "ext_scan (of_nat k) as (i # is) fill nb = ext_scan (of_nat k) as is
        (if fill = None \<and> as ! i = 0 then Some i else fill) (if hits_end as k i then Some i else nb)"
      using t False by (auto simp: Let_def hits_end_def)
    also have "\<dots> = (case find (\<lambda>i. covers as i k) (i # is) of
       Some i \<Rightarrow> Inl (drop_bit 8 (as ! i) + (of_nat k - as ! (i + 1)))
     | None \<Rightarrow> Inr (if fill = None then find (\<lambda>i. as ! i = 0) (i # is) else fill,
         fold (\<lambda>i nb. if hits_end as k i then Some i else nb) (i # is) nb))"
      using Cons False by (auto split: option.split)
    finally show ?thesis .
  qed
qed simp

lemma slots_even: "i \<in> set ext_slots \<Longrightarrow> even i \<and> i + 1 < NDIRECT"
  by (auto simp: ext_slots_def NDIRECT_def)

lemma slots_apart:
  assumes "i \<in> set ext_slots" "j \<in> set ext_slots" "i \<noteq> j"
  shows "i + 1 \<noteq> j" "i \<noteq> j + 1" "i + 1 \<noteq> j + 1"
  using slots_even [OF assms(1)] slots_even [OF assms(2)] assms(3) by auto

lemma ext_ok_fits: "ext_ok as \<Longrightarrow> i \<in> set ext_slots \<Longrightarrow> extent_fits as i"
  by (auto simp: ext_ok_def extent_fits_def)

lemma covers_nonzero: "covers as i k \<Longrightarrow> as ! i \<noteq> 0"
  by (auto simp: covers_def elen_mod)

lemma covers_unique:
  assumes "ext_ok as" "i \<in> set ext_slots" "j \<in> set ext_slots" "covers as i k" "covers as j k"
  shows "i = j"
proof (rule ccontr)
  assume "i \<noteq> j"
  then have "elog as i + elen as i \<le> elog as j \<or> elog as j + elen as j \<le> elog as i"
    using assms covers_nonzero by (auto simp: ext_ok_def)
  with assms(4,5) show False by (auto simp: covers_def)
qed

lemma ext_lookup_covered:
  assumes e: "ext_ok as" and i: "i \<in> set ext_slots" "covers as i k" and k: "k < 2 ^ 23"
  shows "ext_lookup as (of_nat k) = of_nat (eblk as i + (k - elog as i))"
proof -
  have "find (\<lambda>i. covers as i k) ext_slots \<noteq> None" using i by (auto simp: find_None_iff)
  then obtain j where j: "find (\<lambda>i. covers as i k) ext_slots = Some j" by auto
  then have "j = i" using find_Some_in [OF j] covers_unique [OF e] i by blast
  then have "ext_scan (of_nat k) as ext_slots None None = Inl (drop_bit 8 (as ! i) + (of_nat k - as ! (i + 1)))"
    using j ext_scan_eq [of ext_slots as k] ext_ok_fits [OF e] k by simp
  moreover have "elog as i \<le> k" using i(2) by (simp add: covers_def)
  then have "drop_bit 8 (as ! i) + (of_nat k - as ! (i + 1)) = of_nat (eblk as i + (k - elog as i))"
    by (simp add: eblk_def elog_def of_nat_diff)
  ultimately show ?thesis by (simp add: ext_lookup_def)
qed

lemma ext_lookup_none:
  assumes e: "ext_ok as" and n: "\<forall>i\<in>set ext_slots. \<not> covers as i k" and k: "k < 2 ^ 23"
  shows "ext_lookup as (of_nat k) = 0"
proof -
  have "find (\<lambda>i. covers as i k) ext_slots = None" using n by (auto simp: find_None_iff)
  then show ?thesis using ext_scan_eq [of ext_slots as k None None] ext_ok_fits [OF e] k by (simp add: ext_lookup_def)
qed

lemma of_nat_24:
  assumes "n < 2 ^ 24" "0 < n"
  shows "unat (of_nat n :: uint) = n" "of_nat n \<noteq> (0 :: uint)"
  using assms by (simp_all add: unat_of_nat word_unat_eq_iff)

lemma ext_lookup_nonzero:
  assumes e: "ext_ok as" and i: "i \<in> set ext_slots" "covers as i k"
  shows "unat (of_nat (eblk as i + (k - elog as i)) :: uint) = eblk as i + (k - elog as i)"
    "of_nat (eblk as i + (k - elog as i)) \<noteq> (0 :: uint)"
proof -
  have "eblk as i \<noteq> 0" "eblk as i + elen as i \<le> 2 ^ 24"
    using e i covers_nonzero [OF i(2)] by (auto simp: ext_ok_def)
  moreover have "k - elog as i < elen as i" using i(2) by (auto simp: covers_def)
  ultimately have "eblk as i + (k - elog as i) < 2 ^ 24" "0 < eblk as i + (k - elog as i)" by simp_all
  then show "unat (of_nat (eblk as i + (k - elog as i)) :: uint) = eblk as i + (k - elog as i)"
    "of_nat (eblk as i + (k - elog as i)) \<noteq> (0 :: uint)" by (rule of_nat_24)+
qed

text \<open>Replacing the extent in slot \<open>i\<close> by one that covers block \<open>k\<close> in addition.\<close>

lemma slot_upd:
  assumes i: "i \<in> set ext_slots" and j: "j \<in> set ext_slots" and len: "length as = NDIRECT + 1"
  shows "as[i := w, i + 1 := l] ! j = (if j = i then w else as ! j)"
    "elen (as[i := w, i + 1 := l]) j = (if j = i then unat w mod 256 else elen as j)"
    "eblk (as[i := w, i + 1 := l]) j = (if j = i then unat w div 256 else eblk as j)"
    "elog (as[i := w, i + 1 := l]) j = (if j = i then unat l else elog as j)"
proof -
  have "i + 1 < length as" using slots_even [OF i] len by simp
  then show n: "as[i := w, i + 1 := l] ! j = (if j = i then w else as ! j)"
    using slots_apart [OF i j] by (cases "j = i") (auto simp: nth_upd)
  show "elen (as[i := w, i + 1 := l]) j = (if j = i then unat w mod 256 else elen as j)"
    "eblk (as[i := w, i + 1 := l]) j = (if j = i then unat w div 256 else eblk as j)"
    unfolding elen_mod eblk_div n by simp_all
  show "elog (as[i := w, i + 1 := l]) j = (if j = i then unat l else elog as j)"
    using \<open>i + 1 < length as\<close> slots_apart [OF i j] by (cases "j = i") (auto simp: nth_upd elog_def)
qed

lemma ext_grow:
  assumes e: "ext_ok as" and len: "length as = NDIRECT + 1" and i: "i \<in> set ext_slots"
    and k: "k < 2 ^ 23" and nc: "\<forall>j\<in>set ext_slots. \<not> covers as j k"
    and a: "a \<noteq> 0" "unat a < 2 ^ 24"
    and new: "(as ! i = 0 \<and> unat w = 256 * unat a + 1 \<and> l = of_nat k)
      \<or> (as ! i \<noteq> 0 \<and> elen as i < 255 \<and> k = elog as i + elen as i \<and> unat a = eblk as i + elen as i
          \<and> unat w = unat (as ! i) + 1 \<and> l = as ! (i + 1))"
  shows "ext_ok (as[i := w, i + 1 := l])"
    and "(\<lambda>j. if j < 2 ^ 23 then ext_lookup (as[i := w, i + 1 := l]) (of_nat j) else 0)
      = (\<lambda>j. if j < 2 ^ 23 then ext_lookup as (of_nat j) else 0)(k := a)"
proof -
  let ?as = "as[i := w, i + 1 := l]"
  note up = slot_upd [OF i _ len, of _ w l]
  have uk: "unat (of_nat k :: uint) = k" using k by (simp add: unat_of_nat)
  have a0: "0 < unat a" using a(1) by (simp add: unat_gt_0)
  have ei: "as ! i \<noteq> 0 \<Longrightarrow> eblk as i \<noteq> 0" using e i by (auto simp: ext_ok_def)
  have ni: "elen ?as i = elen as i + 1" "elog ?as i + elen as i = k" "eblk ?as i + elen as i = unat a"
    "eblk ?as i \<noteq> 0" "as ! i \<noteq> 0 \<Longrightarrow> elog ?as i = elog as i \<and> eblk ?as i = eblk as i" "as ! i = 0 \<Longrightarrow> elen as i = 0"
    using new up [OF i] uk a0 ei by (auto simp: elen_mod eblk_div elog_def mod_Suc div_Suc)
  have cov: "covers ?as j m \<longleftrightarrow> covers as j m \<or> (j = i \<and> m = k)" if "j \<in> set ext_slots" for j m
  proof (cases "j = i")
    case True
    then show ?thesis using ni by (cases "as ! i = 0") (auto simp: covers_def)
  next
    case False
    then show ?thesis using up [OF that] by (simp add: covers_def)
  qed
  have apart: "elog as j + elen as j \<le> elog ?as i \<or> elog ?as i + elen ?as i \<le> elog as j"
    if j: "j \<in> set ext_slots" "j \<noteq> i" "as ! j \<noteq> 0" for j
  proof -
    have "0 < elen as j" using e j by (auto simp: ext_ok_def)
    moreover have "k < elog as j \<or> elog as j + elen as j \<le> k" using nc j by (auto simp: covers_def)
    moreover have "elog as i + elen as i \<le> elog as j \<or> elog as j + elen as j \<le> elog as i" if "as ! i \<noteq> 0"
      using e i j that unfolding ext_ok_def by metis
    ultimately show ?thesis using ni by (cases "as ! i = 0") auto
  qed
  show ok: "ext_ok ?as"
    unfolding ext_ok_def
  proof (intro conjI ballI impI)
    fix j assume j: "j \<in> set ext_slots" "?as ! j \<noteq> 0"
    show "0 < elen ?as j" "eblk ?as j \<noteq> 0" "eblk ?as j + elen ?as j \<le> 2 ^ 24" "elog ?as j + elen ?as j \<le> 2 ^ 23"
      using e j ni a(2) k up [OF j(1)] by (auto simp: ext_ok_def split: if_splits)
  next
    fix j m assume jm: "j \<in> set ext_slots" "m \<in> set ext_slots" "j \<noteq> m" "?as ! j \<noteq> 0" "?as ! m \<noteq> 0"
    consider "j = i" | "m = i" | "j \<noteq> i" "m \<noteq> i" by blast
    then show "elog ?as j + elen ?as j \<le> elog ?as m \<or> elog ?as m + elen ?as m \<le> elog ?as j"
    proof cases
      case 1
      then show ?thesis using apart [of m] up [OF jm(2)] jm by auto
    next
      case 2
      then show ?thesis using apart [of j] up [OF jm(1)] jm by auto
    next
      case 3
      then have "as ! j \<noteq> 0" "as ! m \<noteq> 0" using jm up [OF jm(1)] up [OF jm(2)] by auto
      then have "elog as j + elen as j \<le> elog as m \<or> elog as m + elen as m \<le> elog as j"
        using e jm(1-3) unfolding ext_ok_def by metis
      then show ?thesis using 3 up [OF jm(1)] up [OF jm(2)] by simp
    qed
  qed
  show "(\<lambda>j. if j < 2 ^ 23 then ext_lookup ?as (of_nat j) else 0)
      = (\<lambda>j. if j < 2 ^ 23 then ext_lookup as (of_nat j) else 0)(k := a)"
  proof
    fix m
    show "(if m < 2 ^ 23 then ext_lookup ?as (of_nat m) else 0)
      = ((\<lambda>j. if j < 2 ^ 23 then ext_lookup as (of_nat j) else 0)(k := a)) m"
    proof (cases "\<exists>j\<in>set ext_slots. covers ?as j m")
      case False
      then have "m \<noteq> k" "\<forall>j\<in>set ext_slots. \<not> covers as j m" using cov i by auto
      then show ?thesis using ext_lookup_none [OF ok, of m] ext_lookup_none [OF e, of m] False by simp
    next
      case True
      then obtain j where j: "j \<in> set ext_slots" "covers ?as j m" by blast
      show ?thesis
      proof (cases "m = k")
        case True
        then have "j = i" using cov [OF j(1)] j nc by auto
        then have "ext_lookup ?as (of_nat m) = of_nat (eblk ?as i + (m - elog ?as i))"
          using ext_lookup_covered [OF ok] j k True by blast
        also have "eblk ?as i + (m - elog ?as i) = unat a" using ni True by simp
        finally show ?thesis using k True by simp
      next
        case False
        then have c: "covers as j m" using cov [OF j(1)] j by blast
        then have "eblk ?as j = eblk as j" "elog ?as j = elog as j" using covers_nonzero ni up [OF j(1)] by (cases "j = i"; auto)+
        then show ?thesis using False ext_lookup_covered [OF ok j] ext_lookup_covered [OF e j(1) c] by simp
      qed
    qed
  qed
qed

lemma fold_last:
  "fold (\<lambda>i nb. if P i then Some i else nb) is nb = Some i \<Longrightarrow> (i \<in> set is \<and> P i) \<or> nb = Some i"
  by (induction "is" arbitrary: nb) (auto split: if_splits)

lemma fmap_extent: "i_type x = T_EXTENT \<Longrightarrow> fmap x D = (\<lambda>j. if j < 2 ^ 23 then ext_lookup (i_addrs x) (of_nat j) else 0)"
  by (simp add: fmap_def fun_eq_iff)

text \<open>The extent that \<open>bmap\<close> extends or creates.\<close>

definition ext_new :: "uint list \<Rightarrow> nat \<Rightarrow> uint \<Rightarrow> nat \<Rightarrow> uint \<Rightarrow> uint \<Rightarrow> bool" where
  "ext_new as k a i w l \<longleftrightarrow> i \<in> set ext_slots \<and>
     ((as ! i = 0 \<and> unat w = 256 * unat a + 1 \<and> l = of_nat k)
      \<or> (as ! i \<noteq> 0 \<and> elen as i < 255 \<and> k = elog as i + elen as i \<and> unat a = eblk as i + elen as i
          \<and> unat w = unat (as ! i) + 1 \<and> l = as ! (i + 1)))"

lemma card_Suc_Diff1_le: "card A \<le> Suc (card (A - {i}))"
proof (cases "i \<in> A")
  case True
  show ?thesis
  proof (cases "finite A")
    case True
    then show ?thesis using card_Suc_Diff1 [OF True \<open>i \<in> A\<close>] by linarith
  next
    case False
    then show ?thesis by simp
  qed
next
  case False
  then show ?thesis by simp
qed

lemma room_extent:
  assumes r: "room x D B" and t: "i_type x = T_EXTENT" and as: "i_addrs x = as" "length as = NDIRECT + 1"
    and n: "ext_new as k a i w l" and x': "x' = x\<lparr>i_addrs := as[i := w, i + 1 := l]\<rparr>"
    and u: "card (unmapped x D B) = Suc (card (unmapped x' D' B))"
    and c: "card {b. vol_free D b} = Suc (card {b. vol_free D' b})"
    and a: "unat a < 2 ^ 24"
  shows "room x' D' B"
proof -
  let ?as = "as[i := w, i + 1 := l]"
  have i: "i \<in> set ext_slots" using n by (simp add: ext_new_def)
  note up = slot_upd [OF i _ as(2), of _ w l]
  have w: "w \<noteq> 0" using n a by (auto simp: ext_new_def)
  have fs: "free_slots ?as = free_slots as - {i}"
  proof -
    have "?as ! j = 0 \<longleftrightarrow> j \<noteq> i \<and> as ! j = 0" if "j \<in> set ext_slots" for j
      unfolding up(1) [OF that] using w by simp
    then show ?thesis unfolding free_slots_def by blast
  qed
  have rx: "finite B" "B \<subseteq> {..<2 ^ 23}" "card (unmapped x D B) \<le> card {b. vol_free D b}"
    "card (unmapped x D B) \<le> card (free_slots as)"
    "\<And>j. j \<in> set ext_slots \<Longrightarrow> elen as j + card (unmapped x D B) \<le> 255"
    using r unfolding room_def as(1) by (simp_all add: t)
  have fin: "finite (free_slots as)" by (simp add: free_slots_def)
  have "card (free_slots as) \<le> Suc (card (free_slots ?as))"
    unfolding fs by (rule card_Suc_Diff1_le)
  then have cf: "card (unmapped x' D' B) \<le> card (free_slots ?as)" using rx(4) u by simp
  have el: "elen ?as j \<le> elen as j + 1" if "j \<in> set ext_slots" for j
    unfolding up(2) [OF that] using n by (auto simp: ext_new_def elen_mod mod_Suc)
  have le: "elen ?as j + card (unmapped x' D' B) \<le> 255" if "j \<in> set ext_slots" for j
    using rx(5) [OF that] el [OF that] u by simp
  have x's: "i_type x' = T_EXTENT" "i_addrs x' = ?as" using t x' by simp_all
  show ?thesis unfolding room_def x's using rx(1,2,3) u c cf le by simp
qed

lemma keeps_extent:
  assumes f: "file_ok x D" and t: "i_type x = T_EXTENT" and a: "vol_free D a" and k: "k < 2 ^ 23" "fmap x D k = 0"
    and n: "ext_new (i_addrs x) k a i w l"
  shows "keeps x D (x\<lparr>i_addrs := (i_addrs x)[i := w, i + 1 := l]\<rparr>) (allocated D a)"
    "fmap (x\<lparr>i_addrs := (i_addrs x)[i := w, i + 1 := l]\<rparr>) (allocated D a) = (fmap x D)(k := a)"
proof -
  let ?as = "i_addrs x" and ?x = "x\<lparr>i_addrs := (i_addrs x)[i := w, i + 1 := l]\<rparr>"
  have v: "vol_ok D" and len: "length ?as = NDIRECT + 1" using f by (auto dest: file_ok_len)
  have e: "ext_ok ?as" using f t by (simp add: file_ok_def)
  have as: "a < sb_size (sb_of D)" using a by (simp add: vol_free_def)
  have nc: "\<forall>j\<in>set ext_slots. \<not> covers ?as j k"
    using k t ext_lookup_covered [OF e] ext_lookup_nonzero(2) [OF e] by (auto simp: fmap_extent simp del: of_nat_add)
  have a': "a \<noteq> 0" "unat a < 2 ^ 24" using vol_free_nonzero [OF v a] vol_ok_facts(5) [OF v as] by auto
  have i: "i \<in> set ext_slots" using n by (simp add: ext_new_def)
  note g = ext_grow [OF e len i k(1) nc a' n [unfolded ext_new_def, THEN conjunct2]]
  have tx: "i_type ?x = T_EXTENT" and ia: "i_addrs ?x = ?as[i := w, i + 1 := l]" using t by simp_all
  show m: "fmap ?x (allocated D a) = (fmap x D)(k := a)"
    unfolding fmap_extent [OF t] fmap_extent [OF tx] ia by (rule g(2))
  show "keeps x D ?x (allocated D a)"
    by (rule keeps_grow [OF f a refl _ _ _ _ m _ _ k(2)])
      (use t len v a g(1) al.al_good [OF v a] al.al_owned [OF v a] allocated_owned [OF v a] allocated_other [OF as]
        in \<open>simp_all add: ind_block_def\<close>)
qed

lemma bmap_extent_scan:
  assumes e: "ext_ok as" and nc: "\<forall>j\<in>set ext_slots. \<not> covers as j k" and k: "k < 2 ^ 23"
    and fs: "free_slots as \<noteq> {}"
  shows "\<exists>i nb. ext_scan (of_nat k) as ext_slots None None = Inr (Some i, nb) \<and> i \<in> set ext_slots \<and> as ! i = 0
    \<and> (\<forall>j. nb = Some j \<longrightarrow> j \<in> set ext_slots \<and> hits_end as k j)"
proof -
  have "find (\<lambda>i. covers as i k) ext_slots = None" using nc by (auto simp: find_None_iff)
  moreover have "find (\<lambda>i. as ! i = 0) ext_slots \<noteq> None" using fs by (auto simp: find_None_iff free_slots_def)
  then obtain i where i: "find (\<lambda>i. as ! i = 0) ext_slots = Some i" by auto
  moreover have "i \<in> set ext_slots \<and> as ! i = 0" using find_Some_in [OF i] by simp
  ultimately show ?thesis
    using ext_scan_eq [of ext_slots as k None None] ext_ok_fits [OF e] k fold_last [of "hits_end as k" ext_slots None]
    by auto
qed

lemma list_update_keep: "j \<noteq> m \<Longrightarrow> xs[j := w, m := xs ! m] = xs[j := w]"
  by (simp add: list_update_swap [of j m])

lemma ext_new_fill:
  assumes "i \<in> set ext_slots" "as ! i = 0" "unat a < 2 ^ 24"
  shows "ext_new as k a i (push_bit 8 a + 1) (of_nat k)"
proof -
  have "unat (push_bit 8 a) = 256 * unat a"
    using assms(3) by (simp add: push_bit_eq_mult unat_word_ariths)
  then have "unat (push_bit 8 a + 1) = 256 * unat a + 1"
    using assms(3) by (simp add: unat_word_ariths)
  then show ?thesis using assms by (simp add: ext_new_def)
qed

lemma ext_new_extend:
  assumes e: "ext_ok as" and j: "j \<in> set ext_slots" "hits_end as k j" and a: "a \<noteq> 0"
    "a = drop_bit 8 (as ! j) + (as ! j AND 0xFF)" and k: "k < 2 ^ 23" and l: "elen as j < 255"
  shows "ext_new as k a j (as ! j + 1) (as ! (j + 1))"
proof -
  have nz: "as ! j \<noteq> 0" using a by auto
  then have "eblk as j + elen as j \<le> 2 ^ 24" using e j(1) by (auto simp: ext_ok_def)
  then have "unat a = eblk as j + elen as j" unfolding a(2) by (simp add: unat_word_ariths eblk_def elen_def)
  moreover have "k = elog as j + elen as j"
    using covers_test(2) [OF ext_ok_fits [OF e j(1)] k nz] j(2) by (simp add: hits_end_def)
  moreover have "unat (as ! j + 1) = unat (as ! j) + 1"
  proof -
    have "unat (as ! j) \<noteq> 2 ^ 32 - 1" using l by (auto simp: elen_mod)
    then show ?thesis using unat_lt [of "as ! j"] by (simp add: unat_word_ariths)
  qed
  ultimately show ?thesis using j(1) nz l by (simp add: ext_new_def)
qed

lemma bmap_extent_spec:
  assumes at: "file_at s ip x D" and t: "i_type x = T_EXTENT" and k: "k \<in> B" and r: "room x D B"
  shows "returns (bmap ip (of_nat k) s) (bmap_post s ip x D k)"
proof -
  let ?as = "i_addrs x"
  have f: "file_ok x D" and x: "icache s ! ip = x" "disk s (i_dev x) = D" "ip < length (icache s)"
    using at by (simp_all add: file_at_def)
  have v: "vol_ok D" and len: "length ?as = NDIRECT + 1" using f by (auto dest: file_ok_len)
  have e: "ext_ok ?as" using f t by (simp add: file_ok_def)
  note e' = e
  have k23: "k < 2 ^ 23" using r k t by (auto simp: room_def)
  have m: "fmap x D k = ext_lookup ?as (of_nat k)" using t k23 by (simp add: fmap_def)
  have b: "bmap ip (of_nat k) s = bmap_extent ip (of_nat k) s" using x t by (simp add: bmap_def)
  show ?thesis
  proof (cases "fmap x D k = 0")
    case False
    then obtain a where "ext_scan (of_nat k) ?as ext_slots None None = Inl a"
      using m by (cases "ext_scan (of_nat k) ?as ext_slots None None") (auto simp: ext_lookup_def)
    moreover from this have "a = fmap x D k" using m by (simp add: ext_lookup_def)
    ultimately show ?thesis using bmap_post_here [OF at False] b x by (simp add: bmap_extent_def)
  next
    case True
    have nc: "\<forall>j\<in>set ext_slots. \<not> covers ?as j k"
      using True m k23 ext_lookup_covered [OF e] ext_lookup_nonzero(2) [OF e] by (auto simp del: of_nat_add)
    have up: "0 < card (unmapped x D B)" using r by (intro unmapped_pos [OF k True]) (simp add: room_def)
    then have "free_slots ?as \<noteq> {}" using r t by (intro card_pos_nonempty) (auto simp: room_def)
    then obtain i nb where sc: "ext_scan (of_nat k) ?as ext_slots None None = Inr (Some i, nb)"
      and i: "i \<in> set ext_slots" "?as ! i = 0" and nb: "\<And>j. nb = Some j \<Longrightarrow> j \<in> set ext_slots \<and> hits_end ?as k j"
      using bmap_extent_scan [OF e nc k23] by blast
    have ne: "{b. vol_free D b} \<noteq> {}" by (rule room_free [OF r k True])
    have fin: "bmap_post s ip x D k a (upd_inode ip (\<lambda>x. x\<lparr>i_addrs := (i_addrs x)[j := w, j + 1 := l]\<rparr>) u)"
      if a: "vol_free D a" and u: "bio_after s (i_dev x) (allocated D a) u" and n: "ext_new ?as k a j w l" for a u j w l
    proof -
      let ?x = "x\<lparr>i_addrs := ?as[j := w, j + 1 := l]\<rparr>"
      have a': "a \<noteq> 0" "unat a < 2 ^ 24"
        using vol_free_nonzero [OF v a] vol_ok_facts(5) [OF v, of a] a by (auto simp: vol_free_def)
      note kp = keeps_extent [OF f t a k23 True n]
      have "fs_after s (i_dev x) (allocated D a) ip x u" using bio_fs_after [OF u, of ip] x(1) by simp
      then have "fs_after s (i_dev x) (allocated D a) ip ?x (upd_inode ip (\<lambda>x. x\<lparr>i_addrs := (i_addrs x)[j := w, j + 1 := l]\<rparr>) u)"
        using fs_after_upd x(3) by fastforce
      moreover have "room ?x (allocated D a) C" if "room x D C" "k \<in> C" for C
        using that a' True by (intro room_extent [OF that(1) t refl len n refl] unmapped_grow [OF kp(2)] card_free_allocated [OF v a])
          (auto simp: room_def)
      ultimately show ?thesis using kp a' unfolding bmap_post_def by (intro exI [of _ ?x] exI [of _ "allocated D a"]) simp
    qed
    have e: "bmap ip (of_nat k) s = and_then (balloc (i_dev x) s) (\<lambda>a u. case nb of
          None \<Rightarrow> bmap_fill ip (of_nat k) a (Some i) u
        | Some j \<Rightarrow> if a = drop_bit 8 (?as ! j) + (?as ! j AND 0xFF)
            then Ret a (upd_inode ip (\<lambda>x. x\<lparr>i_addrs := (i_addrs x)[j := i_addrs x ! j + 1]\<rparr>) u)
            else bmap_fill ip (of_nat k) a (Some i) u)"
      unfolding b bmap_extent_def Let_def x sc by simp
    show ?thesis unfolding e
    proof (rule returns_bind [OF balloc_fs [OF file_at_idle [OF at], unfolded x(2), OF v ne]], elim conjE)
      fix a u assume a: "vol_free D a" and u: "bio_after s (i_dev x) (allocated D a) u"
      have a': "a \<noteq> 0" "unat a < 2 ^ 24"
        using vol_free_nonzero [OF v a] vol_ok_facts(5) [OF v, of a] a by (auto simp: vol_free_def)
      have fill: "returns (bmap_fill ip (of_nat k) a (Some i) u) (bmap_post s ip x D k)"
        using fin [OF a u ext_new_fill [OF i a'(2)]] by (simp add: bmap_fill_def)
      have ix: "icache u ! ip = x" using icache_nobio u x(1) by (metis bio_after_def)
      have ext: "bmap_post s ip x D k a (upd_inode ip (\<lambda>x. x\<lparr>i_addrs := (i_addrs x)[j := i_addrs x ! j + 1]\<rparr>) u)"
        if "nb = Some j" "a = drop_bit 8 (?as ! j) + (?as ! j AND 0xFF)" for j
      proof -
        have el: "elen ?as j < 255" using r t up nb [OF that(1)] by (force simp: room_def)
        have "ext_new ?as k a j (?as ! j + 1) (?as ! (j + 1))"
          using ext_new_extend [OF e' _ _ a'(1) that(2) k23 el] nb [OF that(1)] by blast
        from fin [OF a u this] show ?thesis using ix by (simp add: upd_inode_def list_update_keep)
      qed
      show "returns (case nb of None \<Rightarrow> bmap_fill ip (of_nat k) a (Some i) u
        | Some j \<Rightarrow> if a = drop_bit 8 (?as ! j) + (?as ! j AND 0xFF)
            then Ret a (upd_inode ip (\<lambda>x. x\<lparr>i_addrs := (i_addrs x)[j := i_addrs x ! j + 1]\<rparr>) u)
            else bmap_fill ip (of_nat k) a (Some i) u) (bmap_post s ip x D k)"
        using fill ext by (auto split: option.split)
    qed
  qed
qed

lemma bmap_spec:
  assumes "file_at s ip x D" "k \<in> B" "room x D B"
  shows "returns (bmap ip (of_nat k) s) (bmap_post s ip x D k)"
  using bmap_flat_spec [OF assms(1) _ assms(2,3)] bmap_extent_spec [OF assms(1) _ assms(2,3)] by blast

section \<open>readi\<close>

text \<open>The blocks that a range of bytes touches.\<close>

definition span :: "nat \<Rightarrow> nat \<Rightarrow> nat set" where
  "span off n = {off div BSIZE..<(off + n + BSIZE - 1) div BSIZE}"

lemma BSIZE_pos [simp]: "0 < BSIZE"
  by (simp add: BSIZE_def)

lemma span_first: "0 < n \<Longrightarrow> off div BSIZE \<in> span off n"
  by (simp add: span_def BSIZE_def)

lemma span_rest: "m \<le> n \<Longrightarrow> span (off + m) (n - m) \<subseteq> span off n"
  by (auto simp: span_def BSIZE_def)

lemma div_mod_within:
  fixes off j b :: nat
  assumes "off mod b + j < b"
  shows "(off + j) div b = off div b" "(off + j) mod b = off mod b + j"
proof -
  have e: "off + j = (off mod b + j) + off div b * b" by simp
  have b: "b \<noteq> 0" using assms by auto
  show "(off + j) div b = off div b" unfolding e div_mult_self1 [OF b] using assms by simp
  show "(off + j) mod b = off mod b + j" unfolding e mod_mult_self1 using assms by simp
qed

lemma chunk_fbyte:
  assumes "fmap x D (off div BSIZE) = a" "a \<noteq> 0" "length (D a) = BSIZE" "off mod BSIZE + m \<le> BSIZE"
  shows "chunk (D a) (off mod BSIZE) m = map (fbyte x D) [off..<off + m]"
proof (rule nth_equalityI)
  show "length (chunk (D a) (off mod BSIZE) m) = length (map (fbyte x D) [off..<off + m])" using assms by simp
  fix j assume "j < length (chunk (D a) (off mod BSIZE) m)"
  then have j: "j < m" by (simp add: chunk_def)
  then have "off mod BSIZE + j < BSIZE" using assms(4) by simp
  then have "(off + j) div BSIZE = off div BSIZE" "(off + j) mod BSIZE = off mod BSIZE + j"
    by (rule div_mod_within)+
  then show "chunk (D a) (off mod BSIZE) m ! j = map (fbyte x D) [off..<off + m] ! j"
    using j assms by (simp add: nth_chunk fbyte_def)
qed

lemma file_block:
  assumes "file_ok x D" "fmap x D k \<noteq> 0"
  shows "vol_owned D (fmap x D k)" "fmap x D k \<noteq> ind_block x" "length (D (fmap x D k)) = BSIZE" "vol_ok D"
  using assms vol_ok_facts(1) [of D] by (auto simp: file_ok_def)

text \<open>Reading block \<open>k\<close>, with what \<open>bmap\<close> may have added to the file on the way.\<close>

lemma file_bread:
  assumes at: "file_at s ip x D" and a: "fmap x D k = a" "a \<noteq> 0"
    and f: "\<And>bp t. bio_inv t \<Longrightarrow> bview s bp = None \<Longrightarrow> bview t = (bview s)(bp \<mapsto> ((i_dev x, a), D a)) \<Longrightarrow>
      data_of bp t = D a \<Longrightarrow> disk t = disk s \<Longrightarrow> nobio t = nobio s \<Longrightarrow> returns (g bp t) Q"
  shows "returns (and_then (bread (i_dev x) a s) g) Q"
proof -
  have x: "bio_inv s" "bview s = Map.empty" "disk s (i_dev x) = D" "file_ok x D" using at by (simp_all add: file_at_def)
  have "vol_owned D a" "vol_ok D" using file_block [OF x(4)] a by auto
  then have "addr_ok (i_dev x) a" using meta_idle_addr [OF file_at_idle [OF at]] x by (simp add: vol_owned_def)
  then show ?thesis
    by (rule bs.rd_bind [OF x(1)]) (use x f in \<open>simp_all add: NBUF_def\<close>)
qed

lemma file_read_block:
  assumes at: "file_at s ip x D" and k: "k \<in> B" and r: "room x D B"
    and h: "\<And>y x' D'. file_at y ip x' D' \<Longrightarrow> fs_after s (i_dev x) D' ip x' y \<Longrightarrow> keeps x D x' D' \<Longrightarrow> room x' D' B \<Longrightarrow>
      fmap x' D' k \<noteq> 0 \<Longrightarrow> returns (h (D' (fmap x' D' k)) y) Q"
  shows "returns (and_then (bmap ip (of_nat k) s) (\<lambda>a s. and_then (bread (i_dev (icache s ! ip)) a s) (\<lambda>bp s.
    and_then (brelse bp s) (\<lambda>_. h (data_of bp s))))) Q"
proof (rule returns_bind [OF bmap_spec [OF at k r]], unfold bmap_post_def, elim exE conjE)
  fix a t x' D'
  assume t: "fs_after s (i_dev x) D' ip x' t" "keeps x D x' D'" "fmap x' D' k = a" "a \<noteq> 0"
    and rm: "\<forall>B. k \<in> B \<longrightarrow> room x D B \<longrightarrow> room x' D' B"
  note ks = keeps_simps [OF t(2)]
  have at': "file_at t ip x' D'" by (rule file_at_after [OF at t(1) ks(5,1)])
  then have d: "disk t (i_dev x') = D'" and x': "icache t ! ip = x'" by (simp_all add: file_at_def)
  show "returns (and_then (bread (i_dev (icache t ! ip)) a t) (\<lambda>bp s. and_then (brelse bp s) (\<lambda>_. h (data_of bp s)))) Q"
    unfolding x'
  proof (rule file_bread [OF at' t(3,4)])
    fix bp u
    assume u: "bio_inv u" "bview t bp = None" "bview u = (bview t)(bp \<mapsto> ((i_dev x', a), D' a))"
      "data_of bp u = D' a" "disk u = disk t" "nobio u = nobio t"
    show "returns (and_then (brelse bp u) (\<lambda>_. h (data_of bp u))) Q"
    proof (rule bs.rl_bind [OF u(1,2)])
      show "bview u = (bview t)(bp \<mapsto> ((i_dev x', a), disk u (i_dev x') a))" using u d by simp
      fix y assume y: "bio_inv y" "bview y = bview t" "disk y = disk u" "nobio y = nobio u"
      then have "bio_after t (i_dev x') D' y" using u d by (simp add: bio_after_def fun_upd_idem)
      then have ya: "fs_after t (i_dev x') D' ip x' y" using bio_fs_after x' by metis
      have aty: "file_at y ip x' D'" by (rule file_at_after [OF at' ya ks(5) refl])
      have "fs_after s (i_dev x) D' ip x' y" using fs_after_trans [OF t(1)] ya ks(1) by metis
      then show "returns (h (data_of bp u) y) Q"
        using h [OF aty _ t(2)] rm k r t(3,4) u(4) by metis
    qed
  qed
qed

text \<open>One round of the loops of readi and writei: \<open>m\<close> bytes, up to the end of the block.\<close>

lemma min_step: "r < b \<Longrightarrow> tot < n \<Longrightarrow> m = min (n - tot) (b - r) \<Longrightarrow> 0 < m \<and> tot + m \<le> n \<and> r + m \<le> b"
  for r b tot n m :: nat
  by auto

lemma loop_step:
  fixes off :: uint
  assumes "tot < n" "unat off + (n - tot) < 2 ^ 32" "span (unat off) (n - tot) \<subseteq> B"
    "m = min (n - tot) (BSIZE - unat off mod BSIZE)"
  shows "0 < m" "tot + m \<le> n" "unat off mod BSIZE + m \<le> BSIZE" "unat off div BSIZE \<in> B"
    "off div of_nat BSIZE = of_nat (unat off div BSIZE)" "unat (off + of_nat m) = unat off + m"
    "unat (off + of_nat m) + (n - (tot + m)) < 2 ^ 32" "span (unat (off + of_nat m)) (n - (tot + m)) \<subseteq> B"
proof -
  show m: "0 < m" "tot + m \<le> n" "unat off mod BSIZE + m \<le> BSIZE"
    using min_step [OF mod_less_divisor [OF BSIZE_pos] assms(1,4)] by auto
  then have "m \<le> 512" by (simp add: BSIZE_def)
  then have "unat (of_nat m :: uint) = m" by (simp add: unat_of_nat)
  then show um: "unat (off + of_nat m) = unat off + m"
    using assms(2) m(2) by (simp add: unat_word_ariths)
  show "unat off div BSIZE \<in> B" using assms(1,3) span_first [of "n - tot" "unat off"] by auto
  have "unat off div 512 < 2 ^ 32" using unat_lt [of off] by (meson div_le_dividend le_less_trans)
  then show "off div of_nat BSIZE = of_nat (unat off div BSIZE)"
    by (simp add: word_unat_eq_iff unat_div unat_of_nat BSIZE_def)
  show "unat (off + of_nat m) + (n - (tot + m)) < 2 ^ 32" using assms(2) m(2) by (simp add: um)
  show "span (unat (off + of_nat m)) (n - (tot + m)) \<subseteq> B"
  proof -
    have "m \<le> n - tot" using m(2) by simp
    from span_rest [OF this, of "unat off"] assms(3) show ?thesis by (simp add: um diff_diff_left)
  qed
qed

lemma map_upt_split: "m \<le> n \<Longrightarrow> map f [a..<a + n] = map f [a..<a + m] @ map f [a + m..<a + m + (n - m)]"
  using upt_add_eq_append [of a "a + m" "n - m"] by simp

lemma readi_loop_spec:
  assumes "file_at s ip x D" "tot \<le> n" "unat off + (n - tot) < 2 ^ 32" "span (unat off) (n - tot) \<subseteq> B" "room x D B"
  shows "returns (readi_loop ip n tot off out s) (\<lambda>r t. r = out @ map (fbyte x D) [unat off..<unat off + (n - tot)]
    \<and> (\<exists>x' D'. fs_after s (i_dev x) D' ip x' t \<and> keeps x D x' D' \<and> room x' D' B))"
  using assms
proof (induction "n - tot" arbitrary: s x D tot off out rule: less_induct)
  case less
  note at = \<open>file_at s ip x D\<close> and r = \<open>room x D B\<close>
  show ?case
  proof (cases "tot < n")
    case False
    have "fs_after s (i_dev x) D ip x s" "file_ok x D" using at by (auto simp: file_at_def intro: fs_after_refl)
    then show ?thesis using False keeps_refl r by (subst readi_loop.simps) auto
  next
    case True
    let ?o = "unat off mod BSIZE"
    define m where "m = min (n - tot) (BSIZE - ?o)"
    note st = loop_step [OF True less.prems(3,4) m_def]
    have e: "readi_loop ip n tot off out s = and_then (bmap ip (of_nat (unat off div BSIZE)) s) (\<lambda>a s.
        and_then (bread (i_dev (icache s ! ip)) a s) (\<lambda>bp s. and_then (brelse bp s)
        (\<lambda>_. (\<lambda>d. readi_loop ip n (tot + m) (off + of_nat m) (out @ chunk d ?o m)) (data_of bp s))))"
      unfolding readi_loop.simps [of ip n tot off out s] using True by (simp only: if_True Let_def st(5) m_def)
    show ?thesis unfolding e
    proof (rule file_read_block [OF at st(4) r])
      fix y x' D'
      assume y: "file_at y ip x' D'" "fs_after s (i_dev x) D' ip x' y" "keeps x D x' D'" "room x' D' B"
        and a: "fmap x' D' (unat off div BSIZE) \<noteq> 0"
      let ?d = "D' (fmap x' D' (unat off div BSIZE))"
      note ks = keeps_simps [OF y(3)]
      have ch: "chunk ?d ?o m = map (fbyte x D) [unat off..<unat off + m]"
        using chunk_fbyte [OF refl a file_block(3) [OF ks(5) a] st(3)] ks(6) by simp
      have "returns (readi_loop ip n (tot + m) (off + of_nat m) (out @ chunk ?d ?o m) y)
        (\<lambda>r t. r = (out @ chunk ?d ?o m) @ map (fbyte x' D') [unat (off + of_nat m)..<unat (off + of_nat m) + (n - (tot + m))]
          \<and> (\<exists>x'' D''. fs_after y (i_dev x') D'' ip x'' t \<and> keeps x' D' x'' D'' \<and> room x'' D'' B))"
        using st(1,2) True by (intro less.hyps y st) auto
      moreover have "(out @ chunk ?d ?o m) @ map (fbyte x' D') [unat (off + of_nat m)..<unat (off + of_nat m) + (n - (tot + m))]
          = out @ map (fbyte x D) [unat off..<unat off + (n - tot)]"
        using map_upt_split [of m "n - tot" "fbyte x D" "unat off"] st(2) by (simp add: ch ks(6) st(6) diff_diff_left)
      ultimately show "returns (readi_loop ip n (tot + m) (off + of_nat m) (out @ chunk ?d ?o m) y)
        (\<lambda>r t. r = out @ map (fbyte x D) [unat off..<unat off + (n - tot)]
          \<and> (\<exists>x' D'. fs_after s (i_dev x) D' ip x' t \<and> keeps x D x' D' \<and> room x' D' B))"
        using fs_after_trans [OF y(2)] keeps_trans [OF y(3)] ks(1) by (elim returns_mono) metis
    qed
  qed
qed

section \<open>writei\<close>

text \<open>As \<open>keeps\<close>, but the bytes of the file may change.\<close>

definition grows :: "inode \<Rightarrow> (uint \<Rightarrow> byte list) \<Rightarrow> inode \<Rightarrow> (uint \<Rightarrow> byte list) \<Rightarrow> bool" where
  "grows x D x' D' \<longleftrightarrow> x' = x\<lparr>i_addrs := i_addrs x'\<rparr> \<and> file_ok x' D' \<and> sb_of D' = sb_of D
     \<and> (\<forall>k. fmap x D k \<noteq> 0 \<longrightarrow> fmap x' D' k = fmap x D k)
     \<and> (\<forall>c. vol_owned D c \<longrightarrow> c \<notin> fblocks x D \<longrightarrow> vol_owned D' c \<and> D' c = D c \<and> c \<notin> fblocks x' D')
     \<and> (\<forall>c. unat c < bm_start (sb_of D) \<longrightarrow> D' c = D c)"

lemma keeps_grows: "keeps x D x' D' \<Longrightarrow> grows x D x' D'"
  by (simp add: keeps_def grows_def)

lemma grows_refl: "file_ok x D \<Longrightarrow> grows x D x D"
  by (simp add: grows_def)

lemma grows_trans:
  assumes "grows x D x' D'" "grows x' D' x'' D''"
  shows "grows x D x'' D''"
proof -
  have "x'' = x\<lparr>i_addrs := i_addrs x''\<rparr>"
    using assms unfolding grows_def by (metis (no_types, lifting) inode.update_convs(10) inode.surjective)
  with assms show ?thesis unfolding grows_def by simp
qed

lemma grows_simps:
  assumes "grows x D x' D'"
  shows "i_dev x' = i_dev x" "i_type x' = i_type x" "i_size x' = i_size x" "i_inum x' = i_inum x" "file_ok x' D'"
    "sb_of D' = sb_of D"
proof -
  have x: "x' = x\<lparr>i_addrs := i_addrs x'\<rparr>" using assms by (simp add: grows_def)
  show "i_dev x' = i_dev x" "i_type x' = i_type x" "i_size x' = i_size x" "i_inum x' = i_inum x"
    by (subst x, simp)+
  show "file_ok x' D'" "sb_of D' = sb_of D" using assms by (simp_all add: grows_def)
qed

text \<open>Storing a new value in block \<open>k\<close> of a file.\<close>

lemma file_store:
  assumes f: "file_ok x D" and a: "fmap x D k = a" "a \<noteq> 0" and y: "length y = BSIZE"
  shows "fmap x (D(a := y)) = fmap x D" "grows x D x (D(a := y))"
    "fbyte x (D(a := y)) i = (if i div BSIZE = k then y ! (i mod BSIZE) else fbyte x D i)"
    "room x (D(a := y)) B = room x D B"
proof -
  note fb = file_block [OF f, of k, unfolded a(1), OF a(2)]
  note up = vol_upd_data [OF fb(4,1) y]
  show m: "fmap x (D(a := y)) = fmap x D" using fb(2) by (simp add: fmap_def fun_eq_iff)
  have "file_ok x (D(a := y))" using f up unfolding file_ok_def m by simp
  moreover have "a \<in> fblocks x D" using a by (auto simp: fblocks_def)
  moreover have "fblocks x (D(a := y)) = fblocks x D" by (simp add: fblocks_def m)
  moreover have "bm_start (sb_of D) \<le> unat a" using fb(1) by (simp add: vol_owned_def data_start_def)
  ultimately show "grows x D x (D(a := y))" using up by (auto simp: grows_def m)
  show "fbyte x (D(a := y)) i = (if i div BSIZE = k then y ! (i mod BSIZE) else fbyte x D i)"
    using f a unfolding fbyte_def m Let_def file_ok_def by auto
  show "room x (D(a := y)) B = room x D B" by (simp only: room_def unmapped_def m up)
qed

lemma file_write_block:
  assumes at: "file_at s ip x D" and k: "k \<in> B" and r: "room x D B"
    and g: "\<And>d. length d = BSIZE \<Longrightarrow> length (g d) = BSIZE"
    and h: "\<And>y x' D' D''. file_at y ip x' D'' \<Longrightarrow> fs_after s (i_dev x) D'' ip x' y \<Longrightarrow> keeps x D x' D' \<Longrightarrow> room x' D'' B \<Longrightarrow>
      fmap x' D' k \<noteq> 0 \<Longrightarrow> D'' = D'(fmap x' D' k := g (D' (fmap x' D' k))) \<Longrightarrow> returns (h y) Q"
  shows "returns (and_then (bmap ip (of_nat k) s) (\<lambda>a s. and_then (bread (i_dev (icache s ! ip)) a s) (\<lambda>bp s.
    and_then (bwrite bp (set_data bp (g (data_of bp s)) s)) (\<lambda>_ s. and_then (brelse bp s) (\<lambda>_. h))))) Q"
proof (rule returns_bind [OF bmap_spec [OF at k r]], unfold bmap_post_def, elim exE conjE)
  fix a t x' D'
  assume t: "fs_after s (i_dev x) D' ip x' t" "keeps x D x' D'" "fmap x' D' k = a" "a \<noteq> 0"
    and rm: "\<forall>B. k \<in> B \<longrightarrow> room x D B \<longrightarrow> room x' D' B"
  note ks = keeps_simps [OF t(2)]
  have at': "file_at t ip x' D'" by (rule file_at_after [OF at t(1) ks(5,1)])
  then have d: "disk t (i_dev x') = D'" and x': "icache t ! ip = x'" by (simp_all add: file_at_def)
  have len: "length (g (D' a)) = BSIZE" using g file_block(3) [OF ks(5), of k] t(3,4) by simp
  let ?D = "D'(a := g (D' a))"
  note st = file_store [OF ks(5) t(3,4) len]
  show "returns (and_then (bread (i_dev (icache t ! ip)) a t) (\<lambda>bp s.
      and_then (bwrite bp (set_data bp (g (data_of bp s)) s)) (\<lambda>_ s. and_then (brelse bp s) (\<lambda>_. h)))) Q"
    unfolding x'
  proof (rule file_bread [OF at' t(3,4)])
    fix bp u
    assume u: "bio_inv u" "bview t bp = None" "bview u = (bview t)(bp \<mapsto> ((i_dev x', a), D' a))"
      "data_of bp u = D' a" "disk u = disk t" "nobio u = nobio t"
    show "returns (and_then (bwrite bp (set_data bp (g (data_of bp u)) u)) (\<lambda>_ s. and_then (brelse bp s) (\<lambda>_. h))) Q"
      unfolding u(4)
    proof (rule bs.wr_rl_bind [OF u(1,2,3) len])
      fix y assume y: "bio_inv y" "bview y = bview t" "nobio y = nobio u"
        "disk y = (disk u)(i_dev x' := (disk u (i_dev x'))(a := g (D' a)))"
      then have "bio_after t (i_dev x') ?D y" using u d by (simp add: bio_after_def)
      then have ya: "fs_after t (i_dev x') ?D ip x' y" using bio_fs_after x' by metis
      have aty: "file_at y ip x' ?D" using st(2) by (intro file_at_after [OF at' ya _ refl]) (simp add: grows_def)
      have "fs_after s (i_dev x) ?D ip x' y" using fs_after_trans [OF t(1)] ya ks(1) by metis
      then show "returns (h y) Q"
        using h [OF aty _ t(2)] rm k r t(3,4) st(4) by metis
    qed
  qed
qed

definition overwrite :: "(nat \<Rightarrow> byte) \<Rightarrow> nat \<Rightarrow> byte list \<Rightarrow> nat \<Rightarrow> byte" where
  "overwrite f off src i = (if off \<le> i \<and> i < off + length src then src ! (i - off) else f i)"

lemma overwrite_Nil [simp]: "overwrite f off [] = f"
  by (rule ext) (auto simp: overwrite_def)

lemma overwrite_append:
  "overwrite (overwrite f off xs) (off + length xs) ys = overwrite f off (xs @ ys)"
  by (auto simp: overwrite_def fun_eq_iff nth_append)

lemma chunk_split: "m \<le> n \<Longrightarrow> chunk xs off m @ chunk xs (off + m) (n - m) = chunk xs off n"
  by (simp add: chunk_def add.commute drop_drop [symmetric] take_add [symmetric] del: drop_drop)

lemma same_base:
  "i = q + a \<Longrightarrow> off = q + b \<Longrightarrow> (off \<le> i \<longleftrightarrow> b \<le> a) \<and> (i < off + n \<longleftrightarrow> a < b + n) \<and> i - off = a - b"
  for i q a b n off :: nat
  by auto

lemma fbyte_store:
  assumes f: "file_ok x D" and a: "fmap x D (off div BSIZE) = a" "a \<noteq> 0" and y: "off mod BSIZE + length ys \<le> BSIZE"
  shows "fbyte x (D(a := put_at (D a) (off mod BSIZE) ys)) = overwrite (fbyte x D) off ys"
proof
  fix i
  let ?d = "put_at (D a) (off mod BSIZE) ys" and ?r = "off mod BSIZE"
  have len: "length (D a) = BSIZE" using file_block(3) [OF f, of "off div BSIZE"] a by simp
  then have ld: "length ?d = BSIZE" using y by (simp add: length_put_at)
  have st: "fbyte x (D(a := ?d)) i = (if i div BSIZE = off div BSIZE then ?d ! (i mod BSIZE) else fbyte x D i)"
    by (rule file_store(3) [OF f a ld])
  have eq: "i = i div BSIZE * BSIZE + i mod BSIZE" "off = off div BSIZE * BSIZE + ?r" by simp_all
  show "fbyte x (D(a := ?d)) i = overwrite (fbyte x D) off ys i"
  proof (cases "i div BSIZE = off div BSIZE")
    case True
    then have ir: "off \<le> i \<longleftrightarrow> ?r \<le> i mod BSIZE" "i < off + length ys \<longleftrightarrow> i mod BSIZE < ?r + length ys" "i - off = i mod BSIZE - ?r"
      using same_base [of i "i div BSIZE * BSIZE" "i mod BSIZE" off ?r] eq by auto
    have "i mod BSIZE < BSIZE" by simp
    then have "?d ! (i mod BSIZE) = (if ?r \<le> i mod BSIZE \<and> i mod BSIZE < ?r + length ys then ys ! (i mod BSIZE - ?r) else D a ! (i mod BSIZE))"
      using y len by (simp add: nth_put_at)
    moreover have "fbyte x D i = D a ! (i mod BSIZE)" using True a by (simp add: fbyte_def Let_def)
    ultimately show ?thesis unfolding st overwrite_def ir using True by simp
  next
    case False
    have "\<not> (off \<le> i \<and> i < off + length ys)"
    proof
      assume *: "off \<le> i \<and> i < off + length ys"
      define j where "j = i - off"
      have "i = off + j" "?r + j < BSIZE" using * y by (auto simp: j_def)
      then show False using div_mod_within(1) [of off BSIZE j] False by simp
    qed
    then show ?thesis unfolding st overwrite_def using False by (simp only: if_False)
  qed
qed

lemma writei_loop_spec:
  assumes "file_at s ip x D" "tot \<le> n" "n \<le> length src" "unat off + (n - tot) < 2 ^ 32"
    "span (unat off) (n - tot) \<subseteq> B" "room x D B"
  shows "returns (writei_loop ip src n tot off s) (\<lambda>r t. r = off + of_nat (n - tot)
    \<and> (\<exists>x' D'. fs_after s (i_dev x) D' ip x' t \<and> grows x D x' D' \<and> room x' D' B
        \<and> fbyte x' D' = overwrite (fbyte x D) (unat off) (chunk src tot (n - tot))))"
  using assms
proof (induction "n - tot" arbitrary: s x D tot off rule: less_induct)
  case less
  note at = \<open>file_at s ip x D\<close> and r = \<open>room x D B\<close>
  show ?case
  proof (cases "tot < n")
    case False
    have "fs_after s (i_dev x) D ip x s" "file_ok x D" using at by (auto simp: file_at_def intro: fs_after_refl)
    moreover have "overwrite (fbyte x D) (unat off) (chunk src tot (n - tot)) = fbyte x D"
      using False by (simp add: chunk_def)
    ultimately show ?thesis using False less.prems(2) grows_refl r by (subst writei_loop.simps) auto
  next
    case True
    let ?o = "unat off mod BSIZE" and ?k = "unat off div BSIZE"
    define m where "m = min (n - tot) (BSIZE - ?o)"
    note st = loop_step [OF True less.prems(4,5) m_def]
    let ?c = "chunk src tot m"
    have lc: "length ?c = m" using st(2) less.prems(3) by simp
    have e: "writei_loop ip src n tot off s = and_then (bmap ip (of_nat ?k) s) (\<lambda>a s.
        and_then (bread (i_dev (icache s ! ip)) a s) (\<lambda>bp s. and_then (bwrite bp (set_data bp (put_at (data_of bp s) ?o ?c) s))
        (\<lambda>_ s. and_then (brelse bp s) (\<lambda>_. writei_loop ip src n (tot + m) (off + of_nat m)))))"
      unfolding writei_loop.simps [of ip src n tot off s] using True by (simp only: if_True Let_def st(5) m_def)
    show ?thesis unfolding e
    proof (rule file_write_block [OF at st(4) r])
      show "length (put_at d ?o ?c) = BSIZE" if "length d = BSIZE" for d using that st(3) lc by (simp add: length_put_at)
      fix y x' D' D''
      assume y: "file_at y ip x' D''" "fs_after s (i_dev x) D'' ip x' y" "keeps x D x' D'" "room x' D'' B"
        and a: "fmap x' D' ?k \<noteq> 0" and D'': "D'' = D'(fmap x' D' ?k := put_at (D' (fmap x' D' ?k)) ?o ?c)"
      note ks = keeps_simps [OF y(3)]
      have ld: "length (put_at (D' (fmap x' D' ?k)) ?o ?c) = BSIZE"
        using file_block(3) [OF ks(5) a] st(3) lc by (simp add: length_put_at)
      have gr: "grows x D x' D''"
        using grows_trans [OF keeps_grows [OF y(3)] file_store(2) [OF ks(5) refl a ld]] D'' by simp
      have fb: "fbyte x' D'' = overwrite (fbyte x D) (unat off) ?c"
        using fbyte_store [OF ks(5) refl a, of ?c] st(3) lc D'' ks(6) by simp
      have "returns (writei_loop ip src n (tot + m) (off + of_nat m) y) (\<lambda>r t. r = off + of_nat m + of_nat (n - (tot + m))
        \<and> (\<exists>x'' E. fs_after y (i_dev x') E ip x'' t \<and> grows x' D'' x'' E \<and> room x'' E B
          \<and> fbyte x'' E = overwrite (fbyte x' D'') (unat (off + of_nat m)) (chunk src (tot + m) (n - (tot + m)))))"
        using st(1,2) True less.prems(3) by (intro less.hyps y st) auto
      moreover have "off + of_nat m + of_nat (n - (tot + m)) = off + of_nat (n - tot)"
      proof -
        have "n - tot = m + (n - (tot + m))" using st(2) by simp
        then show ?thesis by (metis add.assoc of_nat_add)
      qed
      moreover have "overwrite (fbyte x' D'') (unat (off + of_nat m)) (chunk src (tot + m) (n - (tot + m)))
          = overwrite (fbyte x D) (unat off) (chunk src tot (n - tot))"
        using overwrite_append [of "fbyte x D" "unat off" ?c] chunk_split [of m "n - tot" src tot] st(2)
        by (simp add: fb st(6) lc diff_diff_left)
      ultimately show "returns (writei_loop ip src n (tot + m) (off + of_nat m) y) (\<lambda>r t. r = off + of_nat (n - tot)
        \<and> (\<exists>x' D'. fs_after s (i_dev x) D' ip x' t \<and> grows x D x' D' \<and> room x' D' B
          \<and> fbyte x' D' = overwrite (fbyte x D) (unat off) (chunk src tot (n - tot))))"
        using fs_after_trans [OF y(2)] grows_trans [OF gr] ks(1) by (elim returns_mono) metis
    qed
  qed
qed

section \<open>Inodes on disk\<close>

lemma unat_IBLOCK: "unat (IBLOCK i) = unat i div IPB + 2"
proof -
  have "unat i div 8 < 2 ^ 29" using unat_lt [of i] by (simp add: div_less_iff_less_mult)
  then show ?thesis by (simp add: IBLOCK_def IPB_def BSIZE_def unat_word_ariths unat_div)
qed

lemma IBLOCK_range:
  assumes "i < sb_ninodes sb"
  shows "2 \<le> unat (IBLOCK i)" "unat (IBLOCK i) < bm_start sb"
proof -
  have "unat i div IPB \<le> unat (sb_ninodes sb) div IPB"
    using assms by (intro div_le_mono) (simp add: word_less_nat_alt)
  then show "2 \<le> unat (IBLOCK i)" "unat (IBLOCK i) < bm_start sb" by (simp_all add: unat_IBLOCK bm_start_def)
qed

lemma inode_slot_less: "inode_slot i < IPB"
  by (simp add: inode_slot_def unat_mod IPB_def BSIZE_def)

text \<open>Writing to an inode block changes neither the allocation nor any file.\<close>

lemma vol_upd_inode_block:
  assumes v: "vol_ok D" and c: "2 \<le> unat c" "unat c < bm_start (sb_of D)" and y: "length y = BSIZE"
  shows "sb_of (D(c := y)) = sb_of D" "vol_ok (D(c := y))" "vol_free (D(c := y)) b = vol_free D b"
    "vol_owned (D(c := y)) b = vol_owned D b"
proof -
  have c1: "c \<noteq> 1" using c(1) by auto
  show sb: "sb_of (D(c := y)) = sb_of D" using c1 by (simp add: sb_of_def)
  have u: "used (D(c := y)) b = used D b" for b
  proof -
    have "bm_block D b \<noteq> c" using c(2) by (auto simp: bm_block_def unat_BBLOCK bm_start_def)
    then show ?thesis using sb by (simp add: used_def bm_block_def)
  qed
  then show "vol_free (D(c := y)) b = vol_free D b" "vol_owned (D(c := y)) b = vol_owned D b"
    by (simp_all add: vol_free_def vol_owned_def sb)
  have cd: "unat c < data_start (sb_of D)" using c(2) by (simp add: data_start_def)
  have "(D(c := y)) b = zero_block" if "b < sb_size (sb_of D)" "\<not> used D b" for b
    using that vol_ok_facts(2) [OF v cd] vol_ok_facts(3) [OF v, of b] by (auto simp: vol_free_def)
  moreover have "length ((D(c := y)) b) = BSIZE" for b using y vol_ok_facts(1) [OF v] by simp
  ultimately show "vol_ok (D(c := y))" using v by (simp add: vol_ok_def Let_def sb u del: fun_upd_apply)
qed

lemma file_upd_inode_block:
  assumes f: "file_ok x D" and c: "2 \<le> unat c" "unat c < bm_start (sb_of D)" and y: "length y = BSIZE"
  shows "fmap x (D(c := y)) = fmap x D" "fbyte x (D(c := y)) = fbyte x D" "file_ok x (D(c := y))"
    "room x (D(c := y)) B = room x D B"
proof -
  have v: "vol_ok D" using f by (simp add: file_ok_def)
  note up = vol_upd_inode_block [OF v c y]
  have ne: "b \<noteq> c" if "vol_owned D b" for b using that c(2) by (auto simp: vol_owned_def data_start_def)
  have "ind_block x \<noteq> 0 \<Longrightarrow> ind_block x \<noteq> c" using f ne by (simp add: file_ok_def)
  then show m: "fmap x (D(c := y)) = fmap x D" by (auto simp: fmap_def fun_eq_iff)
  have "fmap x D k \<noteq> c" if "fmap x D k \<noteq> 0" for k using ne [OF file_block(1) [OF f that]] .
  then show "fbyte x (D(c := y)) = fbyte x D" unfolding fbyte_def m Let_def by (auto simp: fun_eq_iff)
  show "file_ok x (D(c := y))" using f up unfolding file_ok_def m by simp
  show "room x (D(c := y)) B = room x D B" by (simp only: room_def unmapped_def m up)
qed

definition stored :: "(uint \<Rightarrow> byte list) \<Rightarrow> inode \<Rightarrow> uint \<Rightarrow> byte list" where
  "stored D x = D(IBLOCK (i_inum x) := put_dinode (D (IBLOCK (i_inum x))) (inode_slot (i_inum x)) (dinode_of x))"

lemma dinode_ok_of: "length (i_addrs x) = NDIRECT + 1 \<Longrightarrow> dinode_ok (dinode_of x)"
  by (simp add: dinode_ok_def dinode_of_def)

lemma slot_fits: "length d = BSIZE \<Longrightarrow> inode_slot i * 64 + 64 \<le> length d"
  using inode_slot_less [of i] by (simp add: IPB_def BSIZE_def)

lemma iupdate_spec:
  assumes at: "file_at s ip x D" and i: "i_inum x < sb_ninodes (sb_of D)"
  shows "returns (iupdate ip s) (\<lambda>_ t. fs_after s (i_dev x) (stored D x) ip x t)"
proof -
  let ?c = "IBLOCK (i_inum x)" and ?dev = "i_dev x"
  have x: "bio_inv s" "bview s = Map.empty" "disk s ?dev = D" "file_ok x D" "icache s ! ip = x"
    using at by (simp_all add: file_at_def)
  have v: "vol_ok D" and len: "length (i_addrs x) = NDIRECT + 1" using x(4) by (auto dest: file_ok_len)
  have "unat ?c < data_start (sb_of D)" using IBLOCK_range(2) [OF i] by (simp add: data_start_def)
  then have a: "addr_ok ?dev ?c" using meta_idle_meta(1) [OF file_at_idle [OF at]] v x(3) by simp
  have ly: "length (put_dinode (D ?c) (inode_slot (i_inum x)) (dinode_of x)) = BSIZE"
    using length_put_dinode [OF dinode_ok_of [OF len] slot_fits] vol_ok_facts(1) [OF v] by simp
  show ?thesis unfolding iupdate_def x(5)
  proof (rule bs.rd_bind [OF x(1) a])
    show "(?dev, ?c) \<notin> keys (bview s)" "card (keys (bview s)) < NBUF" using x by (simp_all add: NBUF_def)
    fix bp t
    assume t: "bio_inv t" "bview s bp = None" "bview t = (bview s)(bp \<mapsto> ((?dev, ?c), disk s ?dev ?c))"
      "data_of bp t = disk s ?dev ?c" "disk t = disk s" "nobio t = nobio s"
    have ix: "icache t ! ip = x" using icache_nobio [OF t(6)] x(5) by simp
    have "returns (and_then (bwrite bp (set_data bp (put_dinode (D ?c) (inode_slot (i_inum x)) (dinode_of x)) t))
        (\<lambda>_ u. and_then (brelse bp u) Ret)) (\<lambda>_ u. bio_after s ?dev (stored D x) u)"
      by (rule bs.wr_rl_bind [OF t(1,2,3) ly]) (use t x in \<open>simp add: bio_after_def stored_def\<close>)
    then show "returns (let x = icache t ! ip in and_then (bwrite bp
        (set_data bp (put_dinode (data_of bp t) (inode_slot (i_inum x)) (dinode_of x)) t)) (\<lambda>_. brelse bp))
      (\<lambda>_ t. fs_after s ?dev (stored D x) ip x t)"
      using t(4) x(3,5) bio_fs_after [of s ?dev "stored D x" _ ip] unfolding ix Let_def
      by (simp add: returns_mono)
  qed
qed

lemma stored_facts:
  assumes f: "file_ok x D" and i: "i_inum x < sb_ninodes (sb_of D)"
  shows "file_ok x (stored D x)" "fbyte x (stored D x) = fbyte x D" "sb_of (stored D x) = sb_of D"
    "get_dinode (stored D x (IBLOCK (i_inum x))) (inode_slot (i_inum x)) = dinode_of x"
    "fmap x (stored D x) = fmap x D" "room x (stored D x) B = room x D B"
proof -
  let ?c = "IBLOCK (i_inum x)"
  have v: "vol_ok D" and len: "length (i_addrs x) = NDIRECT + 1" using f by (auto dest: file_ok_len)
  have fit: "inode_slot (i_inum x) * 64 + 64 \<le> length (D ?c)" by (rule slot_fits) (rule vol_ok_facts(1) [OF v])
  have ly: "length (put_dinode (D ?c) (inode_slot (i_inum x)) (dinode_of x)) = BSIZE"
    using length_put_dinode [OF dinode_ok_of [OF len] fit] vol_ok_facts(1) [OF v] by simp
  note up = file_upd_inode_block [OF f IBLOCK_range [OF i] ly] vol_upd_inode_block [OF v IBLOCK_range [OF i] ly]
  then show "file_ok x (stored D x)" "fbyte x (stored D x) = fbyte x D" "sb_of (stored D x) = sb_of D"
    "fmap x (stored D x) = fmap x D" "room x (stored D x) B = room x D B"
    by (simp_all add: stored_def)
  show "get_dinode (stored D x ?c) (inode_slot (i_inum x)) = dinode_of x"
    using get_put_dinode [OF dinode_ok_of [OF len] fit fit] by (simp add: stored_def)
qed

lemma fmap_size [simp]: "fmap (x\<lparr>i_size := n\<rparr>) = fmap x" "ind_block (x\<lparr>i_size := n\<rparr>) = ind_block x"
  "fbyte (x\<lparr>i_size := n\<rparr>) = fbyte x" "file_ok (x\<lparr>i_size := n\<rparr>) = file_ok x"
  "room (x\<lparr>i_size := n\<rparr>) = room x"
proof -
  show i: "ind_block (x\<lparr>i_size := n\<rparr>) = ind_block x" by (simp add: ind_block_def)
  show m: "fmap (x\<lparr>i_size := n\<rparr>) = fmap x" by (simp add: fmap_def fun_eq_iff i)
  show "fbyte (x\<lparr>i_size := n\<rparr>) = fbyte x" by (simp add: fbyte_def fun_eq_iff m)
  show "file_ok (x\<lparr>i_size := n\<rparr>) = file_ok x" by (simp add: file_ok_def fun_eq_iff m i)
  show "room (x\<lparr>i_size := n\<rparr>) = room x" by (simp add: room_def unmapped_def fun_eq_iff m i)
qed

text \<open>How much of a request of \<open>n\<close> bytes at \<open>off\<close> is read and written.\<close>

definition rd_len :: "inode \<Rightarrow> uint \<Rightarrow> uint \<Rightarrow> uint" where
  "rd_len x off n = (if off + n > i_size x then i_size x - off else n)"

definition wr_len :: "inode \<Rightarrow> uint \<Rightarrow> uint \<Rightarrow> uint" where
  "wr_len x off n = (if off + n > of_nat (MAXFILE * BSIZE) \<and> i_type x \<noteq> T_EXTENT then of_nat (MAXFILE * BSIZE) - off else n)"

lemma no_wrap: "\<not> off + n < off \<Longrightarrow> unat (off + n) = unat off + unat n" for off n :: uint
proof -
  assume "\<not> off + n < off"
  then have *: "\<not> (unat off + unat n) mod 2 ^ 32 < unat off" by (simp add: word_less_nat_alt unat_word_ariths)
  have "unat off + unat n < 2 ^ 32"
  proof (rule ccontr)
    assume "\<not> unat off + unat n < 2 ^ 32"
    then have "(unat off + unat n) mod 2 ^ 32 = unat off + unat n - 2 ^ 32"
      using unat_lt [of off] unat_lt [of n] by (simp add: le_mod_geq)
    then show False using * unat_lt [of n] \<open>\<not> unat off + unat n < 2 ^ 32\<close> by linarith
  qed
  then show ?thesis by (simp add: unat_word_ariths)
qed

lemma rd_len_bound:
  assumes "off \<le> i_size x" "\<not> off + n < off"
  shows "unat off + unat (rd_len x off n) \<le> unat (i_size x)"
  using no_wrap [OF assms(2)] assms(1) by (auto simp: rd_len_def word_less_nat_alt word_le_nat_alt unat_sub not_less)

lemma readi_spec:
  assumes at: "file_at s ip x D" and t: "i_type x \<noteq> T_DEV" and o: "off \<le> i_size x" "\<not> off + n < off"
    and sp: "span (unat off) (unat (rd_len x off n)) \<subseteq> B" and r: "room x D B"
  shows "returns (readi dsw ip off n s) (\<lambda>r t. r = (rd_len x off n, map (fbyte x D) [unat off..<unat off + unat (rd_len x off n)])
    \<and> (\<exists>x' D'. fs_after s (i_dev x) D' ip x' t \<and> keeps x D x' D' \<and> room x' D' B))"
proof -
  let ?n = "rd_len x off n"
  have x: "icache s ! ip = x" and g: "(off > i_size x \<or> off + n < off) = False"
    using at o by (simp_all add: file_at_def not_less)
  have "unat off + unat ?n < 2 ^ 32" using rd_len_bound [OF o] unat_lt [of "i_size x"] by linarith
  then have l: "returns (readi_loop ip (unat ?n) 0 off [] s) (\<lambda>r t. r = [] @ map (fbyte x D) [unat off..<unat off + (unat ?n - 0)]
    \<and> (\<exists>x' D'. fs_after s (i_dev x) D' ip x' t \<and> keeps x D x' D' \<and> room x' D' B))"
    using sp by (intro readi_loop_spec [OF at _ _ _ r]) simp_all
  have e: "readi dsw ip off n s = and_then (readi_loop ip (unat ?n) 0 off [] s) (\<lambda>out s. Ret (?n, out) s)"
    unfolding readi_def Let_def x rd_len_def using t g by (simp only: if_False)
  show ?thesis unfolding e by (rule returns_bind [OF l]) simp
qed

lemma writei_spec:
  assumes at: "file_at s ip x D" and t: "i_type x \<noteq> T_DEV" and o: "off \<le> i_size x" "\<not> off + n < off"
    and mx: "i_type x \<noteq> T_EXTENT \<Longrightarrow> unat off \<le> MAXFILE * BSIZE"
    and n: "n' = wr_len x off n" and src: "unat n' \<le> length src" and i: "i_inum x < sb_ninodes (sb_of D)"
    and sp: "span (unat off) (unat n') \<subseteq> B" and r: "room x D B"
  shows "returns (writei dsw ip src off n s) (\<lambda>r t. r = n'
    \<and> (\<exists>x' D'. fs_after s (i_dev x) D' ip x' t \<and> file_at t ip x' D' \<and> i_type x' = i_type x
        \<and> i_dev x' = i_dev x \<and> i_inum x' = i_inum x \<and> unat (i_size x') = max (unat (i_size x)) (unat off + unat n')
        \<and> fbyte x' D' = overwrite (fbyte x D) (unat off) (take (unat n') src)
        \<and> room x' D' B
        \<and> (i_size x < i_size x' \<longrightarrow> get_dinode (D' (IBLOCK (i_inum x))) (inode_slot (i_inum x)) = dinode_of x')))"
    (is "returns _ ?Q")
proof -
  have le: "n' \<le> n \<and> unat off + unat n' < 2 ^ 32"
  proof -
    have "unat (of_nat (MAXFILE * BSIZE) :: uint) = MAXFILE * BSIZE"
      by (simp add: unat_of_nat MAXFILE_def NDIRECT_def NINDIRECT_def BSIZE_def)
    then show ?thesis using no_wrap [OF o(2)] unat_lt [of "off + n"] mx
      by (auto simp: n wr_len_def word_le_nat_alt word_less_nat_alt unat_sub)
  qed
  then have le: "unat off + unat n' < 2 ^ 32" by simp
  have x: "icache s ! ip = x" and gd: "(off > i_size x \<or> off + n < off) = False"
    using at o by (simp_all add: file_at_def not_less)
  have l: "returns (writei_loop ip src (unat n') 0 off s) (\<lambda>r t. r = off + n'
    \<and> (\<exists>x' D'. fs_after s (i_dev x) D' ip x' t \<and> grows x D x' D' \<and> room x' D' B
        \<and> fbyte x' D' = overwrite (fbyte x D) (unat off) (take (unat n') src)))"
    using writei_loop_spec [OF at _ src _ _ r, of 0 off] le sp by (simp add: chunk_def)
  have uo: "unat (off + n') = unat off + unat n'" using le by (simp add: unat_word_ariths)
  have e: "writei dsw ip src off n s = and_then (writei_loop ip src (unat n') 0 off s) (\<lambda>off s.
        if n' > 0 \<and> off > i_size (icache s ! ip)
        then and_then (iupdate ip (upd_inode ip (\<lambda>x. x\<lparr>i_size := off\<rparr>) s)) (\<lambda>_ s. Ret n' s)
        else Ret n' s)"
    unfolding writei_def Let_def x n wr_len_def using t gd by (simp only: if_False)
  show ?thesis unfolding e
  proof (rule returns_bind [OF l], elim conjE exE)
    fix off' u x' D'
    assume o': "off' = off + n'" and u: "fs_after s (i_dev x) D' ip x' u" and g: "grows x D x' D'" and rm: "room x' D' B"
      and fb: "fbyte x' D' = overwrite (fbyte x D) (unat off) (take (unat n') src)"
    note gs = grows_simps [OF g]
    have at': "file_at u ip x' D'" by (rule file_at_after [OF at u gs(5,1)])
    have ix: "icache u ! ip = x'" and il: "ip < length (icache u)" using at' by (simp_all add: file_at_def)
    show "returns (if n' > 0 \<and> off' > i_size (icache u ! ip)
        then and_then (iupdate ip (upd_inode ip (\<lambda>x. x\<lparr>i_size := off'\<rparr>) u)) (\<lambda>_ s. Ret n' s)
        else Ret n' u) ?Q"
    proof (cases "n' > 0 \<and> off' > i_size x")
      case False
      then have "unat off + unat n' \<le> unat (i_size x)"
        using o(1) uo o' by (auto simp: word_less_nat_alt word_le_nat_alt)
      then have "?Q n' u" using u at' gs fb rm by (auto simp: max_def intro!: exI [of _ x'] exI [of _ D'])
      then show ?thesis using False gs(3) unfolding ix by (simp only: if_False returns_Ret)
    next
      case True
      let ?x = "x'\<lparr>i_size := off'\<rparr>" and ?u = "upd_inode ip (\<lambda>x. x\<lparr>i_size := off'\<rparr>) u"
      have u2: "fs_after s (i_dev x) D' ip ?x ?u"
        using fs_after_upd [OF u, of "\<lambda>x. x\<lparr>i_size := off'\<rparr>"] at by (simp add: file_at_def)
      have f2: "file_ok ?x D'" using gs(5) by simp
      have at2: "file_at ?u ip ?x D'" using file_at_after [OF at u2 f2] gs(1) by simp
      have i2: "i_inum ?x < sb_ninodes (sb_of D')" using i gs by simp
      note sf = stored_facts [OF f2 i2]
      have "returns (iupdate ip ?u) (\<lambda>_ w. fs_after s (i_dev x) (stored D' ?x) ip ?x w)"
        using iupdate_spec [OF at2 i2] fs_after_trans [OF u2] gs(1) by (auto elim!: returns_mono)
      then have "returns (and_then (iupdate ip ?u) (\<lambda>_ s. Ret n' s)) ?Q"
      proof (rule returns_bind)
        fix w assume w: "fs_after s (i_dev x) (stored D' ?x) ip ?x w"
        have "file_at w ip ?x (stored D' ?x)" using file_at_after [OF at w sf(1)] gs(1) by simp
        moreover have "unat (i_size ?x) = max (unat (i_size x)) (unat off + unat n')"
          using True uo o' by (simp add: word_less_nat_alt)
        ultimately show "returns (Ret n' w) ?Q"
          using w sf fb gs rm by (auto intro!: exI [of _ ?x] exI [of _ "stored D' ?x"])
      qed
      then show ?thesis using True gs(3) unfolding ix by simp
    qed
  qed
qed

section \<open>A small file system\<close>

definition empty_inode :: inode where
  "empty_inode = \<lparr>i_dev = 0, i_inum = 0, i_ref = 0, i_flags = {}, i_type = 0, i_major = 0, i_minor = 0, i_nlink = 0,
     i_size = 0, i_addrs = replicate (NDIRECT + 1) 0\<rparr>"

definition demo_inode :: "ushort \<Rightarrow> inode" where
  "demo_inode ty = empty_inode\<lparr>i_dev := 1, i_inum := 2, i_ref := 1, i_flags := {I_BUSY, I_VALID}, i_type := ty, i_nlink := 1\<rparr>"

definition demo_fs :: "ushort \<Rightarrow> kfs" where
  "demo_fs ty = kbio.extend demo_bio (kfs.fields (demo_inode ty # replicate 49 empty_inode))"

lemma bio_extend:
  "bio_inv (kbio.extend s m) = bio_inv s" "bview (kbio.extend s m) = bview s" "disk (kbio.extend s m) = disk s"
  by (simp_all add: kbio.defs bio_inv_def running_def bview_def locked_buf_def data_of_def fun_eq_iff)

lemma demo_fmap: "fmap (demo_inode ty) demo_vol k = 0"
proof -
  have "ext_scan bn (replicate 13 0) ext_slots None None = Inr (Some 0, if bn = 0 then Some 10 else None)" for bn
    by (simp add: ext_slots_def nth_Cons')
  then show ?thesis
    by (simp add: fmap_def ext_lookup_def ind_block_def demo_inode_def empty_inode_def NDIRECT_def)
qed

lemma demo_file_at: "file_at (demo_fs ty) 0 (demo_inode ty) demo_vol"
proof -
  have e: "ext_ok (i_addrs (demo_inode ty))"
    by (simp add: ext_ok_def ext_slots_def demo_inode_def empty_inode_def NDIRECT_def nth_Cons')
  have i: "ind_block (demo_inode ty) = 0"
    by (simp add: ind_block_def demo_inode_def empty_inode_def NDIRECT_def)
  have "file_ok (demo_inode ty) demo_vol"
    unfolding file_ok_def demo_fmap i using demo_vol_ok e by (simp add: demo_inode_def empty_inode_def)
  moreover have "bio_inv demo_bio" using demo_idle(1) by (simp add: meta_idle_def)
  moreover have "bview demo_bio = Map.empty"
    using boot_bio(3) by (intro bview_none) (simp add: busy_def locked_buf_def demo_bio_def)
  ultimately show ?thesis
    by (simp add: file_at_def demo_fs_def bio_extend demo_idle(2))
      (simp add: kfs.fields_def kbio.extend_def demo_inode_def demo_idle(2))
qed

lemma demo_room: "room (demo_inode ty) demo_vol {0}"
proof -
  have "{5, 6} \<subseteq> {b. vol_free demo_vol b}" by (auto simp: vol_free_def demo_used) (simp_all add: demo_sb)
  then have "card {5 :: uint, 6} \<le> card {b. vol_free demo_vol b}" by (rule card_mono [rotated]) simp
  then have c: "2 \<le> card {b. vol_free demo_vol b}" by simp
  have u: "unmapped (demo_inode ty) demo_vol {0} = {0}" by (auto simp: unmapped_def demo_fmap)
  have "free_slots (i_addrs (demo_inode ty)) = {0, 2, 4, 6, 8, 10}"
    by (auto simp: free_slots_def ext_slots_def demo_inode_def empty_inode_def NDIRECT_def nth_Cons')
  moreover have "\<forall>i\<in>set ext_slots. elen (i_addrs (demo_inode ty)) i = 0"
    by (simp add: ext_slots_def elen_def demo_inode_def empty_inode_def NDIRECT_def nth_Cons')
  ultimately show ?thesis using c
    by (simp add: room_def u MAXFILE_def NDIRECT_def)
qed

lemma demo_roundtrip_pre:
  "room (demo_inode ty) demo_vol (span (unat (0 :: uint)) (unat (3 :: uint)))" "i_inum (demo_inode ty) < sb_ninodes (sb_of demo_vol)"
proof -
  have "span (unat (0 :: uint)) (unat (3 :: uint)) = {0}" by (auto simp: span_def BSIZE_def)
  then show "room (demo_inode ty) demo_vol (span (unat (0 :: uint)) (unat (3 :: uint)))" using demo_room by simp
  show "i_inum (demo_inode ty) < sb_ninodes (sb_of demo_vol)" by (simp add: demo_inode_def demo_sb)
qed

section \<open>Properties\<close>

text \<open>C10: \<open>readi\<close> on a file.  Reading \<open>n\<close> bytes at \<open>off\<close> returns the bytes of the file from \<open>off\<close> on, cut at the
  size of the file, and the number of bytes returned; the bytes of the file, its size and every other
  block in use on the volume stay the same.\<close>

theorem readi_returns_bytes:
  assumes "file_at s ip x D" "i_type x \<noteq> T_DEV" "off \<le> i_size x" "\<not> off + n < off"
    and "span (unat off) (unat (rd_len x off n)) \<subseteq> B" "room x D B"
  shows "returns (readi dsw ip off n s) (\<lambda>r t.
    r = (rd_len x off n, map (fbyte x D) [unat off..<unat off + unat (rd_len x off n)])
    \<and> (\<exists>x' D'. file_at t ip x' D' \<and> i_size x' = i_size x \<and> fbyte x' D' = fbyte x D
        \<and> (\<forall>c. vol_owned D c \<longrightarrow> c \<notin> fblocks x D \<longrightarrow> vol_owned D' c \<and> D' c = D c)))"
proof (rule returns_mono [OF readi_spec [OF assms]], elim conjE exE)
  fix r t x' D'
  assume r: "r = (rd_len x off n, map (fbyte x D) [unat off..<unat off + unat (rd_len x off n)])"
    and t: "fs_after s (i_dev x) D' ip x' t" and k: "keeps x D x' D'"
  note ks = keeps_simps [OF k]
  have "file_at t ip x' D'" by (rule file_at_after [OF assms(1) t ks(5,1)])
  moreover have "\<forall>c. vol_owned D c \<longrightarrow> c \<notin> fblocks x D \<longrightarrow> vol_owned D' c \<and> D' c = D c" using k by (simp add: keeps_def)
  ultimately show "r = (rd_len x off n, map (fbyte x D) [unat off..<unat off + unat (rd_len x off n)])
    \<and> (\<exists>x' D'. file_at t ip x' D' \<and> i_size x' = i_size x \<and> fbyte x' D' = fbyte x D
        \<and> (\<forall>c. vol_owned D c \<longrightarrow> c \<notin> fblocks x D \<longrightarrow> vol_owned D' c \<and> D' c = D c))"
    using r ks by auto
qed

theorem readi_returns_bytes_witness:
  "returns (writei (\<lambda>_. \<lparr>dev_read = None, dev_write = None\<rparr>) 0 [7, 8, 9] 0 3 (demo_fs T_FILE))
     (\<lambda>_ t. returns (readi (\<lambda>_. \<lparr>dev_read = None, dev_write = None\<rparr>) 0 1 5 t) (\<lambda>r _. r = (2, [8, 9])))"
proof -
  let ?d = "\<lambda>_. \<lparr>dev_read = None, dev_write = None\<rparr>" and ?x = "demo_inode T_FILE"
  have n: "(3 :: uint) = wr_len ?x 0 3" by (simp add: wr_len_def MAXFILE_def NDIRECT_def NINDIRECT_def BSIZE_def word_less_nat_alt)
  have "returns (writei ?d 0 [7, 8, 9] 0 3 (demo_fs T_FILE)) (\<lambda>_ t. \<exists>x' D'. file_at t 0 x' D' \<and> i_type x' = T_FILE \<and>
      unat (i_size x') = 3 \<and> fbyte x' D' = overwrite (fbyte ?x demo_vol) 0 [7, 8, 9] \<and> room x' D' (span (unat (0 :: uint)) (unat (3 :: uint))))"
    by (rule returns_mono [OF writei_spec [OF demo_file_at [of T_FILE] _ _ _ _ n _ demo_roundtrip_pre(2) subset_refl demo_roundtrip_pre(1)]])
      (auto simp: type_consts demo_inode_def empty_inode_def)
  then show ?thesis
  proof (rule returns_mono, elim exE conjE)
    fix t x' D'
    assume a: "file_at t 0 x' D'" "i_type x' = T_FILE" "unat (i_size x') = 3"
      "fbyte x' D' = overwrite (fbyte ?x demo_vol) 0 [7, 8, 9]" "room x' D' (span (unat (0 :: uint)) (unat (3 :: uint)))"
    have z: "i_size x' = 3" using a(3) by (simp add: word_unat_eq_iff)
    then have r: "rd_len x' 1 5 = 2" by (simp add: rd_len_def word_less_nat_alt)
    have "[Suc 0..<3] = [1, 2]" by (simp add: upt_conv_Cons)
    then have m: "map (fbyte x' D') [unat (1 :: uint)..<unat (1 :: uint) + unat (2 :: uint)] = [8, 9]" using a(4) by (simp add: overwrite_def)
    have "returns (readi ?d 0 1 5 t) (\<lambda>r u. r = (rd_len x' 1 5, map (fbyte x' D') [unat (1 :: uint)..<unat (1 :: uint) + unat (rd_len x' 1 5)])
      \<and> (\<exists>x'' D''. file_at u 0 x'' D'' \<and> i_size x'' = i_size x' \<and> fbyte x'' D'' = fbyte x' D'
        \<and> (\<forall>c. vol_owned D' c \<longrightarrow> c \<notin> fblocks x' D' \<longrightarrow> vol_owned D'' c \<and> D'' c = D' c)))"
      by (rule readi_returns_bytes [OF a(1) _ _ _ _ a(5)])
        (use a z r in \<open>auto simp: type_consts span_def BSIZE_def word_le_nat_alt word_less_nat_alt\<close>)
    then show "returns (readi ?d 0 1 5 t) (\<lambda>r _. r = (2, [8, 9]))" by (rule returns_mono) (use m in \<open>simp add: r\<close>)
  qed
qed

text \<open>C1: \<open>writei\<close> followed by \<open>readi\<close>.  A write of \<open>n\<close> bytes inside the reach of the file returns \<open>n\<close>; a read of
  the same range then returns exactly the bytes written.  It holds for files with direct and indirect
  blocks and for files made of extents.\<close>

theorem writei_readi_roundtrip:
  fixes s :: "'a kfs_scheme"
  assumes at: "file_at s ip x D" and t: "i_type x \<noteq> T_DEV" and o: "off \<le> i_size x" "\<not> off + n < off"
    and mx: "i_type x \<noteq> T_EXTENT \<longrightarrow> unat off + unat n \<le> MAXFILE * BSIZE"
    and src: "length src = unat n" and i: "i_inum x < sb_ninodes (sb_of D)"
    and r: "room x D (span (unat off) (unat n))"
  shows "returns (and_then (writei dsw ip src off n s) (\<lambda>w t. and_then (readi dsw ip off n t) (\<lambda>r t. Ret (w, r) t)))
    (\<lambda>r t. r = (n, (n, src)))"
proof -
  have n: "wr_len x off n = n"
  proof -
    have "unat (of_nat (MAXFILE * BSIZE) :: uint) = MAXFILE * BSIZE"
      by (simp add: unat_of_nat MAXFILE_def NDIRECT_def NINDIRECT_def BSIZE_def)
    then show ?thesis using no_wrap [OF o(2)] mx by (auto simp: wr_len_def word_less_nat_alt)
  qed
  have mx': "unat off \<le> MAXFILE * BSIZE" if "i_type x \<noteq> T_EXTENT" using mx that by simp
  have w: "returns (writei dsw ip src off n s) (\<lambda>w t. w = n \<and> (\<exists>x' D'. file_at t ip x' D' \<and> i_type x' = i_type x
        \<and> unat off + unat n \<le> unat (i_size x') \<and> fbyte x' D' = overwrite (fbyte x D) (unat off) src
        \<and> room x' D' (span (unat off) (unat n))))"
  proof (rule returns_mono [OF writei_spec [OF at t o mx' n [symmetric] _ i subset_refl r]], assumption)
    show "unat n \<le> length src" using src by simp
  qed (elim conjE exE, intro conjI exI, assumption+, use src in simp_all)
  show ?thesis
  proof (rule returns_bind [OF w], elim conjE exE)
    fix w x' D' and u :: "'a kfs_scheme"
    assume u: "file_at u ip x' D'" "i_type x' = i_type x" "unat off + unat n \<le> unat (i_size x')"
      "fbyte x' D' = overwrite (fbyte x D) (unat off) src" "room x' D' (span (unat off) (unat n))" "w = n"
    have rl: "rd_len x' off n = n" using u(3) no_wrap [OF o(2)] by (simp add: rd_len_def word_less_nat_alt)
    have o': "off \<le> i_size x'" using u(3) by (simp add: word_le_nat_alt)
    have "map (overwrite (fbyte x D) (unat off) src) [unat off..<unat off + unat n] = src"
      using src by (intro nth_equalityI) (simp_all add: overwrite_def)
    then have "returns (readi dsw ip off n u) (\<lambda>r t. r = (n, src))"
      using readi_spec [OF u(1) _ o' o(2) _ u(5), of dsw] t u(2,4) rl by (auto elim!: returns_mono)
    then show "returns (and_then (readi dsw ip off n u) (\<lambda>r t. Ret (w, r) t)) (\<lambda>r t. r = (n, (n, src)))"
      using u(6) by simp
  qed
qed

theorem writei_readi_roundtrip_witness:
  "returns (and_then (writei (\<lambda>_. \<lparr>dev_read = None, dev_write = None\<rparr>) 0 [7, 8, 9] 0 3 (demo_fs T_EXTENT))
      (\<lambda>w t. and_then (readi (\<lambda>_. \<lparr>dev_read = None, dev_write = None\<rparr>) 0 0 3 t) (\<lambda>r t. Ret (w, r) t)))
    (\<lambda>r t. r = (3, (3, [7, 8, 9])))"
  by (rule writei_readi_roundtrip [OF demo_file_at [of T_EXTENT] _ _ _ _ _ demo_roundtrip_pre(2,1)])
    (simp_all add: type_consts demo_inode_def empty_inode_def)

end
