(* ===== verification/Dir.thy ===== *)
theory Dir
  imports Filemap CString
begin

text \<open>
  Directories and path names: the last part of \<^verbatim>\<open>src/5/xv6/fs.c\<close> (namecmp, dirlookup, dirlink,
  skipelem, namex, namei, nameiparent).

  A path is the list of bytes its pointer leads to (see \<open>CString\<close>); the buffer \<^verbatim>\<open>name\<close> of a caller is a
  list of \<open>DIRSIZ\<close> bytes, returned updated.  A directory is locked while it is searched, so its size is read
  once; its loop counters cannot wrap, since bmap panics past \<open>MAXFILE\<close> blocks.
\<close>

section \<open>Directories\<close>

definition namecmp :: "byte list \<Rightarrow> byte list \<Rightarrow> int" where
  "namecmp s t = strncmp s t DIRSIZ"

text \<open>The scan of one block: the first used entry with the name.\<close>

definition dir_match :: "byte list \<Rightarrow> byte list \<Rightarrow> nat option" where
  "dir_match name d =
     find (\<lambda>i. de_inum (get_dirent d i) \<noteq> 0 \<and> namecmp name (de_name (get_dirent d i)) = 0) [0..<BSIZE div 16]"

function dirlookup_loop :: "nat \<Rightarrow> byte list \<Rightarrow> nat \<Rightarrow> nat \<Rightarrow> 'a kfs_scheme \<Rightarrow>
    ((nat \<times> uint) option, 'a kfs_scheme) outcome" where
  "dirlookup_loop dp name sz off s =
     (if off < sz then
        and_then (bmap dp (of_nat (off div BSIZE)) s) (\<lambda>a s.
        and_then (bread (i_dev (icache s ! dp)) a s) (\<lambda>bp s.
        case dir_match name (data_of bp s) of
          Some i \<Rightarrow>
            let inum = ucast (de_inum (get_dirent (data_of bp s) i)) in
            and_then (brelse bp s) (\<lambda>_ s.
            and_then (iget (i_dev (icache s ! dp)) inum s) (\<lambda>ip s. Ret (Some (ip, of_nat (off + i * 16))) s))
        | None \<Rightarrow> and_then (brelse bp s) (\<lambda>_ s. dirlookup_loop dp name sz (off + BSIZE) s)))
      else Ret None s)"
  by pat_completeness auto
termination
  by (relation "measure (\<lambda>(dp, name, sz, off, s). sz - off)") (auto simp: BSIZE_def)

declare dirlookup_loop.simps [simp del]

definition dirlookup :: "nat \<Rightarrow> byte list \<Rightarrow> 'a kfs_scheme \<Rightarrow> ((nat \<times> uint) option, 'a kfs_scheme) outcome" where
  "dirlookup dp name s =
     (if i_type (icache s ! dp) \<noteq> T_DIR then Panic ''dirlookup not DIR''
      else dirlookup_loop dp name (unat (i_size (icache s ! dp))) 0 s)"

text \<open>The offset of the first unused entry, or the size of the directory.\<close>

function dirlink_slot :: "(nat \<Rightarrow> 'a kfs_scheme devsw) \<Rightarrow> nat \<Rightarrow> nat \<Rightarrow> nat \<Rightarrow> 'a kfs_scheme \<Rightarrow>
    (nat, 'a kfs_scheme) outcome" where
  "dirlink_slot dsw dp sz off s =
     (if off < sz then
        and_then (readi dsw dp (of_nat off) 16 s) (\<lambda>(r, d) s.
        if r \<noteq> 16 then Panic ''dirlink read''
        else if de_inum (get_dirent d 0) = 0 then Ret off s
        else dirlink_slot dsw dp sz (off + 16) s)
      else Ret off s)"
  by pat_completeness auto
termination
  by (relation "measure (\<lambda>(dsw, dp, sz, off, s). sz - off)") auto

declare dirlink_slot.simps [simp del]

definition dirlink :: "(nat \<Rightarrow> 'a kfs_scheme devsw) \<Rightarrow> nat \<Rightarrow> byte list \<Rightarrow> uint \<Rightarrow> 'a kfs_scheme \<Rightarrow>
    (uint, 'a kfs_scheme) outcome" where
  "dirlink dsw dp name inum s =
     and_then (dirlookup dp name s) (\<lambda>r s.
     case r of
       Some (ip, _) \<Rightarrow> and_then (iput ip s) (\<lambda>_ s. Ret (-1) s)
     | None \<Rightarrow>
         and_then (dirlink_slot dsw dp (unat (i_size (icache s ! dp))) 0 s) (\<lambda>off s.
         let de = \<lparr>de_inum = ucast inum, de_name = strncpy_out name DIRSIZ\<rparr> in
         and_then (writei dsw dp (enc_dirent de) (of_nat off) 16 s) (\<lambda>r s.
         if r \<noteq> 16 then Panic ''dirlink'' else Ret 0 s)))"

section \<open>Paths\<close>

abbreviation slash :: byte where "slash \<equiv> 47"

definition skip_slashes :: "byte list \<Rightarrow> byte list" where
  "skip_slashes path = dropWhile (\<lambda>c. c = slash) path"

text \<open>\<open>None\<close> is the null pointer; otherwise the rest of the path and the updated name buffer.\<close>

definition skipelem :: "byte list \<Rightarrow> byte list \<Rightarrow> (byte list \<times> byte list) option" where
  "skipelem path name =
     (let path = skip_slashes path in
      if peek0 path = 0 then None
      else
        let e = takeWhile (\<lambda>c. c \<noteq> slash \<and> c \<noteq> 0) path;
            path = dropWhile (\<lambda>c. c \<noteq> slash \<and> c \<noteq> 0) path;
            name = (if length e \<ge> DIRSIZ then put_at name 0 (take DIRSIZ e) else put_at name 0 (e @ [0])) in
        Some (skip_slashes path, name))"

lemma skipelem_shorter: "skipelem path name = Some (rest, name') \<Longrightarrow> length rest < length path"
proof -
  assume a: "skipelem path name = Some (rest, name')"
  let ?P = "\<lambda>c :: byte. c \<noteq> slash \<and> c \<noteq> 0"
  let ?p = "skip_slashes path"
  from a have ne: "peek0 ?p \<noteq> 0" and rest: "rest = skip_slashes (dropWhile ?P ?p)"
    by (auto simp: skipelem_def Let_def split: if_splits)
  from ne obtain c p where p: "?p = c # p" by (cases ?p) auto
  moreover have "c \<noteq> slash" using p hd_dropWhile [of "\<lambda>c. c = slash" path]
    by (simp add: skip_slashes_def)
  ultimately have "?P c" using ne by simp
  then have "length (dropWhile ?P ?p) < length ?p" using p by (simp add: length_dropWhile_le le_imp_less_Suc)
  moreover have "length rest \<le> length (dropWhile ?P ?p)" "length ?p \<le> length path"
    by (simp_all add: rest skip_slashes_def length_dropWhile_le)
  ultimately show ?thesis by simp
qed

text \<open>The walk from inode \<open>ip\<close>.\<close>

function namex_loop :: "bool \<Rightarrow> nat \<Rightarrow> byte list \<Rightarrow> byte list \<Rightarrow> 'a kfs_scheme \<Rightarrow>
    (nat option \<times> byte list, 'a kfs_scheme) outcome" where
  "namex_loop parent ip path name s =
     (case skipelem path name of
        None \<Rightarrow>
          if parent then and_then (iput ip s) (\<lambda>_ s. Ret (None, name) s)
          else Ret (Some ip, name) s
      | Some (path, name) \<Rightarrow>
          and_then (ilock (Some ip) s) (\<lambda>_ s.
          if i_type (icache s ! ip) \<noteq> T_DIR then and_then (iunlockput (Some ip) s) (\<lambda>_ s. Ret (None, name) s)
          else if parent \<and> peek0 path = 0 then and_then (iunlock (Some ip) s) (\<lambda>_ s. Ret (Some ip, name) s)
          else and_then (dirlookup ip name s) (\<lambda>r s.
            case r of
              None \<Rightarrow> and_then (iunlockput (Some ip) s) (\<lambda>_ s. Ret (None, name) s)
            | Some (next, _) \<Rightarrow> and_then (iunlockput (Some ip) s) (\<lambda>_ s. namex_loop parent next path name s))))"
  by pat_completeness auto
termination
  by (relation "measure (\<lambda>(parent, ip, path, name, s). length path)") (auto dest: skipelem_shorter)

declare namex_loop.simps [simp del]

definition namex :: "byte list \<Rightarrow> bool \<Rightarrow> byte list \<Rightarrow> 'a kfs_scheme \<Rightarrow>
    (nat option \<times> byte list, 'a kfs_scheme) outcome" where
  "namex path parent name s =
     and_then
       (if peek0 path = slash then iget ROOTDEV ROOTINO s
        else case cur s of
            None \<Rightarrow> Panic ''null proc''
          | Some p \<Rightarrow> (case p_cwd (procs s ! p) of None \<Rightarrow> Panic ''null cwd'' | Some ip \<Rightarrow> idup ip s))
       (\<lambda>ip s. namex_loop parent ip path name s)"

text \<open>The name buffer of \<open>namei\<close> is not initialised; each element is written before it is read.\<close>

definition namei :: "byte list \<Rightarrow> 'a kfs_scheme \<Rightarrow> (nat option, 'a kfs_scheme) outcome" where
  "namei path s = and_then (namex path False (replicate DIRSIZ 0) s) (\<lambda>r s. Ret (fst r) s)"

definition nameiparent :: "byte list \<Rightarrow> byte list \<Rightarrow> 'a kfs_scheme \<Rightarrow> (nat option \<times> byte list, 'a kfs_scheme) outcome" where
  "nameiparent path name s = namex path True name s"

section \<open>Path elements\<close>

text \<open>The elements that a walk along a path looks up, each as \<open>namecmp\<close> sees the name buffer: up to \<open>DIRSIZ\<close> bytes,
  ended by a zero byte if it is shorter.\<close>

function walk_elems :: "byte list \<Rightarrow> byte list \<Rightarrow> byte list list" where
  "walk_elems path name =
     (case skipelem path name of None \<Rightarrow> []
      | Some (rest, name') \<Rightarrow> cstr (take DIRSIZ name') # walk_elems rest name')"
  by pat_completeness auto
termination
  by (relation "measure (\<lambda>(path, name). length path)") (auto dest: skipelem_shorter)

declare walk_elems.simps [simp del]

text \<open>The reference: the path cut at every slash, without the empty pieces.\<close>

fun split_path :: "byte list \<Rightarrow> byte list list" where
  "split_path [] = [[]]"
| "split_path (c # cs) =
     (if c = slash then [] # split_path cs
      else (case split_path cs of e # es \<Rightarrow> (c # e) # es | [] \<Rightarrow> [[c]]))"

definition path_elems :: "byte list \<Rightarrow> byte list list" where
  "path_elems path = filter (\<lambda>e. e \<noteq> []) (split_path (cstr path))"

lemma split_path_nonempty [simp]: "split_path cs \<noteq> []"
  by (induction cs) (auto split: list.splits)

lemma split_path_elem:
  "slash \<notin> set e \<Longrightarrow> split_path (e @ cs) = (e @ hd (split_path cs)) # tl (split_path cs)"
proof (induction e)
  case (Cons c e)
  then show ?case by simp
qed simp

lemma path_elems_skip: "path_elems (skip_slashes path) = path_elems path"
  by (induction path) (auto simp: skip_slashes_def path_elems_def)

lemma split_rest: "hd (split_path (cstr (dropWhile (\<lambda>c. c \<noteq> slash \<and> c \<noteq> 0) p))) = []"
  by (induction p) auto

lemma cstr_buf: "0 \<notin> set e \<Longrightarrow> length e < n \<Longrightarrow> cstr (take n (put_at name 0 (e @ [0]))) = e"
  by (simp add: put_at_def take_Cons' cstr_append_nonzero)

lemma skipelem_cases:
  assumes "length name = DIRSIZ"
  shows "(skipelem path name = None \<and> path_elems path = []) \<or>
    (\<exists>e rest name'. skipelem path name = Some (rest, name') \<and> path_elems path = e # path_elems rest \<and>
      length name' = DIRSIZ \<and> cstr (take DIRSIZ name') = take DIRSIZ e)"
proof -
  let ?p = "skip_slashes path"
  let ?P = "\<lambda>c :: byte. c \<noteq> slash \<and> c \<noteq> 0"
  let ?e = "takeWhile ?P ?p" and ?r = "dropWhile ?P ?p"
  show ?thesis
  proof (cases "peek0 ?p = 0")
    case True
    then have "path_elems ?p = []" by (cases ?p) (auto simp: path_elems_def)
    then show ?thesis using True by (auto simp: skipelem_def path_elems_skip)
  next
    case False
    have e: "slash \<notin> set ?e" "0 \<notin> set ?e" by (auto dest: set_takeWhileD)
    obtain c p where p: "?p = c # p" using False by (cases ?p) auto
    have "c \<noteq> slash" using p hd_dropWhile [of "\<lambda>c. c = slash" path] by (simp add: skip_slashes_def)
    then have ne: "?e \<noteq> []" using p False by simp
    have "hd (split_path (cstr ?r)) = []" by (rule split_rest)
    then have "path_elems ?p = ?e # path_elems ?r"
      using split_path_elem [OF e(1), of "cstr ?r"] cstr_append_nonzero [OF e(2), of ?r] ne
      by (cases "split_path (cstr ?r)") (auto simp: path_elems_def)
    then have el: "path_elems path = ?e # path_elems (skip_slashes ?r)" by (simp add: path_elems_skip)
    let ?n = "if length ?e \<ge> DIRSIZ then put_at name 0 (take DIRSIZ ?e) else put_at name 0 (?e @ [0])"
    have "length ?n = DIRSIZ" using assms by (auto simp: put_at_def DIRSIZ_def)
    moreover have "cstr (take DIRSIZ ?n) = take DIRSIZ ?e"
    proof (cases "length ?e \<ge> DIRSIZ")
      case True
      have "0 \<notin> set (take DIRSIZ ?e)" using e(2) by (meson in_set_takeD)
      then show ?thesis using True cstr_append_nonzero [of "take DIRSIZ ?e" "[]"] by (simp add: put_at_def)
    next
      case False
      then show ?thesis using cstr_buf [OF e(2), of DIRSIZ name] by simp
    qed
    ultimately show ?thesis using False el by (auto simp: skipelem_def Let_def)
  qed
qed

text \<open>C25: the walk along a path looks up exactly the non-empty pieces between its slashes, in order, each cut
  to \<open>DIRSIZ\<close> bytes.\<close>

theorem walk_elems_split:
  assumes "length name = DIRSIZ"
  shows "walk_elems path name = map (take DIRSIZ) (path_elems path)"
  using assms
proof (induction path name rule: walk_elems.induct)
  case (1 path name)
  then show ?case using skipelem_cases [OF 1(2), of path] by (subst walk_elems.simps) auto
qed

theorem walk_elems_split_witness:
  "walk_elems (bytes_of ''//usr///a.very.long.file.name/x/'') (replicate DIRSIZ 7) =
     [bytes_of ''usr'', bytes_of ''a.very.long.fi'', bytes_of ''x'']"
proof -
  have "path_elems (bytes_of ''//usr///a.very.long.file.name/x/'') =
      [bytes_of ''usr'', bytes_of ''a.very.long.file.name'', bytes_of ''x'']"
    by code_simp
  then show ?thesis
    using walk_elems_split [of "replicate DIRSIZ 7" "bytes_of ''//usr///a.very.long.file.name/x/''"]
    by (simp only: length_replicate list.map) code_simp
qed

section \<open>The inode cache\<close>

definition names_inode :: "uint \<Rightarrow> uint \<Rightarrow> inode \<Rightarrow> bool" where
  "names_inode dev inum x \<longleftrightarrow> i_ref x > 0 \<and> i_dev x = dev \<and> i_inum x = inum"

text \<open>There is an entry for the inode in the cache, or a free one.\<close>

definition iget_avail :: "uint \<Rightarrow> uint \<Rightarrow> inode list \<Rightarrow> bool" where
  "iget_avail dev inum xs \<longleftrightarrow> (\<exists>i < length xs. names_inode dev inum (xs ! i) \<or> i_ref (xs ! i) = 0)"

lemma iget_scan_cases:
  "case iget_scan dev inum xs i slot of
     Inl j \<Rightarrow> i \<le> j \<and> j < i + length xs \<and> names_inode dev inum (xs ! (j - i))
   | Inr None \<Rightarrow> slot = None \<and> (\<forall>x \<in> set xs. \<not> names_inode dev inum x \<and> i_ref x \<noteq> 0)
   | Inr (Some j) \<Rightarrow> (\<forall>x \<in> set xs. \<not> names_inode dev inum x) \<and>
       (slot = Some j \<or> slot = None \<and> i \<le> j \<and> j < i + length xs \<and> i_ref (xs ! (j - i)) = 0)"
proof (induction xs arbitrary: i slot)
  case (Cons x xs)
  show ?case
  proof (cases "names_inode dev inum x")
    case True
    then show ?thesis by (simp add: names_inode_def)
  next
    case False
    let ?slot = "if slot = None \<and> i_ref x = 0 then Some i else slot"
    have e: "iget_scan dev inum (x # xs) i slot = iget_scan dev inum xs (i + 1) ?slot"
      using False by (auto simp: names_inode_def)
    show ?thesis unfolding e using Cons.IH [of "i + 1" ?slot] False
      by (auto simp: nth_Cons' split: sum.splits option.splits if_splits)
  qed
qed (simp split: option.split)

lemma iget_spec:
  fixes s :: "'a kfs_scheme"
  assumes "LIcache \<notin> held s" and "iget_avail dev inum (icache s)"
  shows "returns (iget dev inum s) (\<lambda>ip t. \<exists>x. t = upd_inode ip (\<lambda>_. x) s \<and> ip < length (icache s) \<and> names_inode dev inum x)"
proof -
  let ?s = "s\<lparr>held := insert LIcache (held s)\<rparr>"
  have h: "(upd_inode ip f ?s)\<lparr>held := held s - {LIcache}\<rparr> = upd_inode ip (\<lambda>_. f (icache s ! ip)) s" for ip f
    using assms(1) by (simp add: upd_inode_def)
  have r: "lk_release LIcache (upd_inode ip f ?s) = Ret () (upd_inode ip (\<lambda>_. f (icache s ! ip)) s)" for ip f
    using assms(1) by (simp add: upd_inode_def)
  note sc = iget_scan_cases [where xs = "icache s" and i = 0 and slot = None and dev = dev and inum = inum]
  consider j where "iget_scan dev inum (icache s) 0 None = Inl j" "j < length (icache s)" "names_inode dev inum (icache s ! j)"
    | j where "iget_scan dev inum (icache s) 0 None = Inr (Some j)" "j < length (icache s)"
    using sc assms(2) by (auto simp: iget_avail_def split: sum.splits option.splits)
  then show ?thesis
  proof cases
    case 1
    then show ?thesis using assms(1)
      by (simp add: iget_def r) (auto simp: names_inode_def intro!: exI)
  next
    case 2
    then show ?thesis using assms(1)
      by (simp add: iget_def r) (auto simp: names_inode_def intro!: exI)
  qed
qed

text \<open>Only the keys and the reference counts matter.\<close>

lemma iget_avail_upd:
  assumes "x' = x\<lparr>i_addrs := i_addrs x', i_size := i_size x'\<rparr>" and "xs ! ip = x"
  shows "iget_avail dev inum (xs[ip := x']) = iget_avail dev inum xs"
proof -
  have k: "i_ref x' = i_ref x" "i_dev x' = i_dev x" "i_inum x' = i_inum x" by (subst assms(1), simp)+
  have "i_ref ((xs[ip := x']) ! i) = i_ref (xs ! i) \<and> names_inode dev inum ((xs[ip := x']) ! i) = names_inode dev inum (xs ! i)"
    if "i < length xs" for i
    using that k assms(2) by (cases "i = ip") (simp_all add: names_inode_def)
  then show ?thesis by (auto simp: iget_avail_def)
qed

section \<open>Directories as lists of entries\<close>

definition dentry :: "(nat \<Rightarrow> byte) \<Rightarrow> nat \<Rightarrow> dirent" where
  "dentry f j = dec_dirent (map f [j * 16..<j * 16 + 16])"

definition dhit :: "byte list \<Rightarrow> (nat \<Rightarrow> byte) \<Rightarrow> nat \<Rightarrow> bool" where
  "dhit name f j \<longleftrightarrow> de_inum (dentry f j) \<noteq> 0 \<and> namecmp name (de_name (dentry f j)) = 0"

text \<open>The entries that \<open>dirlookup\<close> scans, whole blocks of them.\<close>

definition nentries :: "nat \<Rightarrow> nat" where
  "nentries sz = (sz + BSIZE - 1) div BSIZE * (BSIZE div 16)"

lemma find_append: "find P (xs @ ys) = (case find P xs of None \<Rightarrow> find P ys | Some x \<Rightarrow> Some x)"
  by (induction xs) auto

lemma upt_split: "a \<le> b \<Longrightarrow> b \<le> c \<Longrightarrow> [a..<c] = [a..<b] @ [b..<c]"
  by (metis le_add_diff_inverse upt_add_eq_append)

lemma find_map_upt: "find P [a..<a + n] = map_option (\<lambda>i. a + i) (find (\<lambda>i. P (a + i)) [0..<n])"
proof -
  have "[a..<a + n] = map (\<lambda>i. a + i) [0..<n]" using map_add_upt [of a n] by (simp add: add.commute)
  moreover have "find P (map g xs) = map_option g (find (\<lambda>i. P (g i)) xs)" for g xs by (induction xs) auto
  ultimately show ?thesis by simp
qed

lemma block_dentry:
  assumes "d = map f [k * BSIZE..<k * BSIZE + BSIZE]" and "i < BSIZE div 16"
  shows "get_dirent d i = dentry f (k * (BSIZE div 16) + i)"
proof -
  have "chunk d (i * 16) 16 = map f [(k * (BSIZE div 16) + i) * 16..<(k * (BSIZE div 16) + i) * 16 + 16]"
    using assms by (intro nth_equalityI) (auto simp: chunk_def BSIZE_def algebra_simps)
  then show ?thesis by (simp add: get_dirent_def dentry_def)
qed

lemma dir_match_find:
  assumes "d = map f [k * BSIZE..<k * BSIZE + BSIZE]"
  shows "map_option (\<lambda>i. k * (BSIZE div 16) + i) (dir_match name d) =
    find (dhit name f) [k * (BSIZE div 16)..<Suc k * (BSIZE div 16)]"
proof -
  have "find (\<lambda>i. de_inum (get_dirent d i) \<noteq> 0 \<and> namecmp name (de_name (get_dirent d i)) = 0) [0..<BSIZE div 16] =
      find (\<lambda>i. dhit name f (k * (BSIZE div 16) + i)) [0..<BSIZE div 16]"
    by (rule find_cong) (simp_all add: block_dentry [OF assms] dhit_def)
  then show ?thesis
    using find_map_upt [of "dhit name f" "k * (BSIZE div 16)" "BSIZE div 16"] by (simp add: dir_match_def add.commute)
qed

section \<open>dirlookup\<close>

text \<open>After a lookup from \<open>s\<close>: the entry found, if any, and the directory as it was.\<close>

definition dir_after :: "'a kfs_scheme \<Rightarrow> nat \<Rightarrow> inode \<Rightarrow> (uint \<Rightarrow> byte list) \<Rightarrow> nat set \<Rightarrow> 'a kfs_scheme \<Rightarrow> bool" where
  "dir_after s dp x D B t \<longleftrightarrow> (\<exists>x' D'. fs_after s (i_dev x) D' dp x' t \<and> keeps x D x' D' \<and> room x' D' B)"

definition lookup_post :: "'a kfs_scheme \<Rightarrow> nat \<Rightarrow> inode \<Rightarrow> (uint \<Rightarrow> byte list) \<Rightarrow> nat set \<Rightarrow> nat option \<Rightarrow>
    (nat \<times> uint) option \<Rightarrow> 'a kfs_scheme \<Rightarrow> bool" where
  "lookup_post s dp x D B i r t \<longleftrightarrow>
     (case i of None \<Rightarrow> r = None \<and> dir_after s dp x D B t
      | Some i \<Rightarrow> \<exists>ip u. dir_after s dp x D B u \<and>
          iget (i_dev x) (ucast (de_inum (dentry (fbyte x D) i))) u = Ret ip t \<and> r = Some (ip, of_nat (i * 16)))"

lemma dir_after_trans:
  assumes "fs_after s (i_dev x) D' dp x' y" and "keeps x D x' D'" and "dir_after y dp x' D' B t"
  shows "dir_after s dp x D B t"
proof -
  obtain x'' D'' where "fs_after y (i_dev x) D'' dp x'' t" "keeps x' D' x'' D''" "room x'' D'' B"
    using assms(3) keeps_simps(1) [OF assms(2)] by (auto simp: dir_after_def)
  then show ?thesis using fs_after_trans [OF assms(1)] keeps_trans [OF assms(2)] unfolding dir_after_def by blast
qed

lemma dir_after_icache:
  assumes "file_at s dp x D" and "dir_after s dp x D B t"
  shows "iget_avail dev inum (icache t) = iget_avail dev inum (icache s)" "held t = {}"
proof -
  obtain x' D' where t: "fs_after s (i_dev x) D' dp x' t" "keeps x D x' D'" using assms(2) by (auto simp: dir_after_def)
  have "x' = x\<lparr>i_addrs := i_addrs x'\<rparr>" using t(2) by (simp add: keeps_def)
  then have "x' = x\<lparr>i_addrs := i_addrs x', i_size := i_size x'\<rparr>" by (metis inode.surjective inode.update_convs(9,10) inode.select_convs(9))
  then show "iget_avail dev inum (icache t) = iget_avail dev inum (icache s)"
    using iget_avail_upd [of x' x "icache s" dp] assms(1) fs_after_icache [OF t(1)] by (simp add: file_at_def)
  show "held t = {}" using t(1) by (simp add: fs_after_def bio_inv_def)
qed

lemma block_bytes:
  assumes "file_ok x D" and "fmap x D k \<noteq> 0"
  shows "D (fmap x D k) = map (fbyte x D) [k * BSIZE..<k * BSIZE + BSIZE]"
proof -
  have l: "length (D (fmap x D k)) = BSIZE" using file_block [OF assms] by simp
  have "chunk (D (fmap x D k)) (k * BSIZE mod BSIZE) BSIZE = map (fbyte x D) [k * BSIZE..<k * BSIZE + BSIZE]"
    using assms l by (intro chunk_fbyte) simp_all
  then show ?thesis using l by simp
qed

lemma dirlookup_body:
  "(case dir_match name (data_of bp s) of
      Some i \<Rightarrow>
        let inum = ucast (de_inum (get_dirent (data_of bp s) i)) in
        and_then (brelse bp s) (\<lambda>_ s.
        and_then (iget (i_dev (icache s ! dp)) inum s) (\<lambda>ip s. Ret (Some (ip, of_nat (off + i * 16))) s))
    | None \<Rightarrow> and_then (brelse bp s) (\<lambda>_ s. f s)) =
   and_then (brelse bp s) (\<lambda>_ s'. case dir_match name (data_of bp s) of
      Some i \<Rightarrow> and_then (iget (i_dev (icache s' ! dp)) (ucast (de_inum (get_dirent (data_of bp s) i))) s')
        (\<lambda>ip s. Ret (Some (ip, of_nat (off + i * 16))) s)
    | None \<Rightarrow> f s')"
  by (simp split: option.split)

lemma find_Some_upt: "find P [a..<b] = Some i \<Longrightarrow> a \<le> i \<and> i < b \<and> P i"
  by (auto simp: find_Some_iff)

lemma dirlookup_loop_spec:
  fixes s :: "'a kfs_scheme"
  assumes "file_at s dp x D" and "off = k * BSIZE" and "{k..<(sz + BSIZE - 1) div BSIZE} \<subseteq> B" and "room x D B"
    and "\<And>i. find (dhit name (fbyte x D)) [k * (BSIZE div 16)..<nentries sz] = Some i \<Longrightarrow>
      iget_avail (i_dev x) (ucast (de_inum (dentry (fbyte x D) i))) (icache s)"
  shows "returns (dirlookup_loop dp name sz off s)
    (lookup_post s dp x D B (find (dhit name (fbyte x D)) [k * (BSIZE div 16)..<nentries sz]))"
  using assms
proof (induction "sz - off" arbitrary: k off s x D rule: less_induct)
  case less
  note at = \<open>file_at s dp x D\<close> and r = \<open>room x D B\<close> and off = \<open>off = k * BSIZE\<close>
  let ?f = "fbyte x D" and ?e = "BSIZE div 16"
  let ?F = "\<lambda>k. find (dhit name ?f) [k * ?e..<nentries sz]"
  show ?case
  proof (cases "off < sz")
    case False
    then have "nentries sz \<le> k * ?e" using off by (simp add: nentries_def BSIZE_def)
    moreover have "dir_after s dp x D B s"
      using at r keeps_refl unfolding dir_after_def by (auto simp: file_at_def intro!: exI fs_after_refl)
    ultimately show ?thesis using False by (subst dirlookup_loop.simps) (simp add: lookup_post_def)
  next
    case True
    then have k: "Suc k \<le> (sz + BSIZE - 1) div BSIZE" using off by (simp add: BSIZE_def)
    then have kB: "k \<in> B" using less.prems(3) by auto
    have ke: "Suc k * ?e \<le> nentries sz" unfolding nentries_def by (rule mult_le_mono1 [OF k])
    have split: "?F k = (case find (dhit name ?f) [k * ?e..<Suc k * ?e] of None \<Rightarrow> ?F (Suc k) | Some i \<Rightarrow> Some i)"
      using ke find_append [of "dhit name ?f" "[k * ?e..<Suc k * ?e]" "[Suc k * ?e..<nentries sz]"]
        upt_split [of "k * ?e" "Suc k * ?e" "nentries sz"] by simp
    have dv: "off div BSIZE = k" using off by simp
    show ?thesis unfolding dirlookup_loop.simps [of dp name sz off s] if_P [OF True] dv dirlookup_body
    proof (rule file_read_block [OF at kB r])
      fix y x' D'
      assume aty: "file_at y dp x' D'" and fy: "fs_after s (i_dev x) D' dp x' y" and ks: "keeps x D x' D'"
        and rm: "room x' D' B" and a: "fmap x' D' k \<noteq> 0"
      note kp = keeps_simps [OF ks]
      have da: "dir_after s dp x D B y" using fy ks rm unfolding dir_after_def by blast
      have d: "D' (fmap x' D' k) = map ?f [k * BSIZE..<k * BSIZE + BSIZE]"
        using block_bytes [OF kp(5) a] kp(6) by simp
      note dm = dir_match_find [OF d, of name]
      have dev: "i_dev (icache y ! dp) = i_dev x" using aty kp(1) by (simp add: file_at_def)
      show "returns (case dir_match name (D' (fmap x' D' k)) of
          Some i \<Rightarrow> and_then (iget (i_dev (icache y ! dp)) (ucast (de_inum (get_dirent (D' (fmap x' D' k)) i))) y)
            (\<lambda>ip s. Ret (Some (ip, of_nat (off + i * 16))) s)
        | None \<Rightarrow> dirlookup_loop dp name sz (off + BSIZE) y) (lookup_post s dp x D B (?F k))"
      proof (cases "dir_match name (D' (fmap x' D' k))")
        case None
        then have F: "?F k = ?F (Suc k)" using split dm by simp
        have sB: "{Suc k..<(sz + BSIZE - 1) div BSIZE} \<subseteq> B" using less.prems(3) by auto
        have dec: "sz - (off + BSIZE) < sz - off" using True by (simp add: BSIZE_def)
        have "returns (dirlookup_loop dp name sz (off + BSIZE) y) (lookup_post y dp x' D' B (?F (Suc k)))"
          using less.hyps [where off = "off + BSIZE" and k = "Suc k" and s = y and x = x' and D = D'] dec aty off sB less.prems(5) rm F kp(1,6)
            dir_after_icache(1) [OF at da]
          by (simp add: add.commute)
        then show ?thesis unfolding None option.case F
        proof (rule returns_mono)
          fix z t assume "lookup_post y dp x' D' B (?F (Suc k)) z t"
          then show "lookup_post s dp x D B (?F (Suc k)) z t"
            using dir_after_trans [OF fy ks] kp(1,6) by (auto simp: lookup_post_def split: option.splits)
        qed
      next
        case (Some i)
        have i: "i < ?e" using Some find_Some_upt [of _ 0 ?e i] by (simp add: dir_match_def)
        have F: "?F k = Some (k * ?e + i)" unfolding split dm [symmetric] Some by simp
        have inum: "get_dirent (D' (fmap x' D' k)) i = dentry ?f (k * ?e + i)" by (rule block_dentry [OF d i])
        have av: "iget_avail (i_dev x) (ucast (de_inum (dentry ?f (k * ?e + i)))) (icache y)"
          using less.prems(5) [OF F] dir_after_icache(1) [OF at da] by simp
        have "returns (iget (i_dev x) (ucast (de_inum (dentry ?f (k * ?e + i)))) y) (\<lambda>_ _. True)"
          by (rule returns_mono [OF iget_spec [OF _ av]]) (simp_all add: dir_after_icache(2) [OF at da])
        then obtain ip t where t: "iget (i_dev x) (ucast (de_inum (dentry ?f (k * ?e + i)))) y = Ret ip t"
          by (auto simp: returns_def)
        have "off + i * 16 = (k * ?e + i) * 16" using off by (simp add: BSIZE_def)
        then show ?thesis unfolding Some option.case F inum dev t and_then.simps returns_Ret lookup_post_def
          using da t by auto
      qed
    qed
  qed
qed

section \<open>dirlink\<close>

definition free_entry :: "(nat \<Rightarrow> byte) \<Rightarrow> nat \<Rightarrow> nat \<Rightarrow> nat" where
  "free_entry f j n = (case find (\<lambda>i. de_inum (dentry f i) = 0) [j..<n] of None \<Rightarrow> n | Some i \<Rightarrow> i)"

lemma free_entry_step: "j < n \<Longrightarrow> free_entry f j n = (if de_inum (dentry f j) = 0 then j else free_entry f (Suc j) n)"
  by (simp add: free_entry_def upt_conv_Cons)

lemma free_entry_le: "j \<le> n \<Longrightarrow> free_entry f j n \<le> n"
  by (auto simp: free_entry_def find_Some_iff split: option.splits)

lemma dir_after_refl: "file_at s dp x D \<Longrightarrow> room x D B \<Longrightarrow> dir_after s dp x D B s"
  using keeps_refl unfolding dir_after_def by (auto simp: file_at_def intro!: exI fs_after_refl)

lemma dir_read_entry:
  fixes s :: "'a kfs_scheme"
  assumes at: "file_at s dp x D" and ty: "i_type x = T_DIR" and j: "j * 16 + 16 \<le> unat (i_size x)"
    and B: "{..<(unat (i_size x) + BSIZE - 1) div BSIZE} \<subseteq> B" and r: "room x D B"
  shows "returns (readi dsw dp (of_nat (j * 16)) 16 s) (\<lambda>(n, d) t. n = 16 \<and> get_dirent d 0 = dentry (fbyte x D) j
    \<and> dir_after s dp x D B t)"
proof -
  let ?off = "of_nat (j * 16) :: uint"
  have u: "unat ?off = j * 16" using j unat_lt [of "i_size x"] by (intro of_nat_small [of _ "i_size x"]) simp
  have "unat (?off + 16) = j * 16 + 16"
    using u j unat_lt [of "i_size x"] by (subst unat_word_ariths) (simp del: of_nat_mult)
  then have o: "?off \<le> i_size x" "\<not> ?off + 16 < ?off" and rl: "rd_len x ?off 16 = 16"
    using u j by (simp_all add: word_le_nat_alt word_less_nat_alt rd_len_def del: of_nat_mult)
  have sp: "span (unat ?off) (unat (rd_len x ?off 16)) \<subseteq> B"
  proof -
    have "j * 16 + 16 + 511 \<le> unat (i_size x) + 511" using j by simp
    then have "(j * 16 + 16 + 511) div 512 \<le> (unat (i_size x) + 511) div 512" by (rule div_le_mono)
    then have "span (j * 16) 16 \<subseteq> {..<(unat (i_size x) + BSIZE - 1) div BSIZE}" by (auto simp: span_def BSIZE_def)
    then show ?thesis using B unfolding u rl by simp
  qed
  have dv: "i_type x \<noteq> T_DEV" using ty by (simp add: type_consts)
  show ?thesis
  proof (rule returns_mono [OF readi_spec [OF at dv o sp r]], elim conjE)
    fix rr t
    assume rr: "rr = (rd_len x ?off 16, map (fbyte x D) [unat ?off..<unat ?off + unat (rd_len x ?off 16)])"
      and t: "\<exists>x' D'. fs_after s (i_dev x) D' dp x' t \<and> keeps x D x' D' \<and> room x' D' B"
    have "get_dirent (map (fbyte x D) [j * 16..<j * 16 + 16]) 0 = dentry (fbyte x D) j"
      by (simp add: get_dirent_def dentry_def)
    then show "(case rr of (n, d) \<Rightarrow> \<lambda>t. n = 16 \<and> get_dirent d 0 = dentry (fbyte x D) j \<and> dir_after s dp x D B t) t"
      using rr t u rl by (simp add: dir_after_def del: of_nat_mult)
  qed
qed

lemma dirlink_slot_spec:
  fixes s :: "'a kfs_scheme"
  assumes "file_at s dp x D" and "i_type x = T_DIR" and "sz = unat (i_size x)" and "sz = n * 16" and "j \<le> n"
    and "{..<(sz + BSIZE - 1) div BSIZE} \<subseteq> B" and "room x D B"
  shows "returns (dirlink_slot dsw dp sz (j * 16) s) (\<lambda>r t. r = free_entry (fbyte x D) j n * 16 \<and> dir_after s dp x D B t)"
  using assms
proof (induction "n - j" arbitrary: j s x D rule: less_induct)
  case less
  show ?case
  proof (cases "j < n")
    case False
    then show ?thesis using less.prems dir_after_refl [OF less.prems(1,7)]
      by (subst dirlink_slot.simps) (simp add: free_entry_def)
  next
    case True
    then have lt: "j * 16 < sz" and le: "j * 16 + 16 \<le> unat (i_size x)" using less.prems(3,4) by simp_all
    have B: "{..<(unat (i_size x) + BSIZE - 1) div BSIZE} \<subseteq> B" using less.prems(3,6) by simp
    show ?thesis unfolding dirlink_slot.simps [of dsw dp sz "j * 16" s] if_P [OF lt]
    proof (rule returns_bind [OF dir_read_entry [OF less.prems(1,2) le B less.prems(7)]])
      fix rr t
      assume "(case rr of (k, d) \<Rightarrow> \<lambda>t. k = 16 \<and> get_dirent d 0 = dentry (fbyte x D) j \<and> dir_after s dp x D B t) t"
      then obtain d where rr: "rr = (16, d)" "get_dirent d 0 = dentry (fbyte x D) j" and da: "dir_after s dp x D B t"
        by (cases rr) auto
      obtain x' D' where t: "fs_after s (i_dev x) D' dp x' t" "keeps x D x' D'" "room x' D' B"
        using da by (auto simp: dir_after_def)
      note kp = keeps_simps [OF t(2)]
      have at': "file_at t dp x' D'" by (rule file_at_after [OF less.prems(1) t(1) kp(5,1)])
      have "returns (dirlink_slot dsw dp sz (Suc j * 16) t)
          (\<lambda>r u. r = free_entry (fbyte x' D') (Suc j) n * 16 \<and> dir_after t dp x' D' B u)"
        using less.hyps [of "Suc j" t x' D'] True less.prems at' t(3) kp by simp
      then have "returns (dirlink_slot dsw dp sz (Suc j * 16) t)
          (\<lambda>r u. r = free_entry (fbyte x D) (Suc j) n * 16 \<and> dir_after s dp x D B u)"
        by (rule returns_mono) (use dir_after_trans [OF t(1,2)] kp(6) in auto)
      then show "returns ((case rr of (r, d) \<Rightarrow> \<lambda>s. if r \<noteq> 16 then Panic ''dirlink read''
          else if de_inum (get_dirent d 0) = 0 then Ret (j * 16) s else dirlink_slot dsw dp sz (j * 16 + 16) s) t)
          (\<lambda>r t. r = free_entry (fbyte x D) j n * 16 \<and> dir_after s dp x D B t)"
        using rr da True by (simp add: free_entry_step add.commute)
    qed
  qed
qed

text \<open>A directory whose entries fill its size, with nothing but zeros behind them.\<close>

definition dir_ok :: "(nat \<Rightarrow> byte) \<Rightarrow> nat \<Rightarrow> bool" where
  "dir_ok f sz \<longleftrightarrow> sz mod 16 = 0 \<and> (\<forall>i \<ge> sz. f i = 0)"

lemma strncmp_copy: "strncmp p (strncpy_out p n) n = 0"
  by (induction p n rule: strncpy_out.induct) auto

lemma namecmp_copy [simp]: "namecmp name (strncpy_out name DIRSIZ) = 0"
  by (simp add: namecmp_def strncmp_copy)

lemma dentry_overwrite:
  assumes "dirent_ok de"
  shows "dentry (overwrite f (j * 16) (enc_dirent de)) i = (if i = j then de else dentry f i)"
proof -
  have l: "length (enc_dirent de) = 16" using assms by (rule de.length_enc)
  have "map (overwrite f (j * 16) (enc_dirent de)) [i * 16..<i * 16 + 16] =
      (if i = j then enc_dirent de else map f [i * 16..<i * 16 + 16])"
    using l by (auto simp: overwrite_def intro!: nth_equalityI)
  then show ?thesis using assms by (simp add: dentry_def de.dec_enc)
qed

lemma dentry_past: "dir_ok f sz \<Longrightarrow> sz div 16 \<le> i \<Longrightarrow> de_inum (dentry f i) = 0"
proof -
  assume a: "dir_ok f sz" "sz div 16 \<le> i"
  then have "sz \<le> i * 16" by (auto simp: dir_ok_def)
  then have "map f [i * 16..<i * 16 + 16] = replicate 16 0" using a by (intro nth_equalityI) (auto simp: dir_ok_def)
  moreover have "de_inum (dec_dirent (replicate 16 0)) = 0" by code_simp
  ultimately show ?thesis by (simp only: dentry_def)
qed

lemma find_eq_upt: "j < n \<Longrightarrow> find (\<lambda>i. i = j) [0..<n] = Some j"
proof -
  assume j: "j < n"
  have "find (\<lambda>i. i = j) [0..<j] = None" by (simp add: find_None_iff)
  then show ?thesis using j upt_split [of 0 j n] by (simp add: find_append upt_conv_Cons)
qed

text \<open>The new entry is the only one that matches.\<close>

lemma find_new_entry:
  assumes "find (dhit name f) [0..<nentries sz] = None" and "dir_ok f sz" and "j \<le> sz div 16" and "j < nentries sz'"
    and "dirent_ok de" and "de_inum de \<noteq> 0" and "namecmp name (de_name de) = 0"
  shows "find (dhit name (overwrite f (j * 16) (enc_dirent de))) [0..<nentries sz'] = Some j"
proof -
  let ?g = "overwrite f (j * 16) (enc_dirent de)"
  have "\<not> dhit name f i" for i
  proof (cases "i < nentries sz")
    case True
    then show ?thesis using assms(1) by (auto simp: find_None_iff)
  next
    case False
    then have "sz div 16 \<le> i" by (simp add: nentries_def BSIZE_def)
    then show ?thesis using dentry_past [OF assms(2)] by (simp add: dhit_def)
  qed
  then have "dhit name ?g = (\<lambda>i. i = j)"
    using assms(6,7) by (simp add: fun_eq_iff dhit_def dentry_overwrite [OF assms(5)])
  then show ?thesis using find_eq_upt [OF assms(4)] by simp
qed

text \<open>A lookup in a directory of the right type.\<close>

lemma dirlookup_spec:
  fixes s :: "'a kfs_scheme"
  assumes at: "file_at s dp x D" and ty: "i_type x = T_DIR"
    and B: "{..<(unat (i_size x) + BSIZE - 1) div BSIZE} \<subseteq> B" and r: "room x D B"
    and av: "\<And>i. find (dhit name (fbyte x D)) [0..<nentries (unat (i_size x))] = Some i \<Longrightarrow>
      iget_avail (i_dev x) (ucast (de_inum (dentry (fbyte x D) i))) (icache s)"
  shows "returns (dirlookup dp name s)
    (lookup_post s dp x D B (find (dhit name (fbyte x D)) [0..<nentries (unat (i_size x))]))"
proof -
  have x: "icache s ! dp = x" using at by (simp add: file_at_def)
  have "returns (dirlookup_loop dp name (unat (i_size x)) 0 s)
      (lookup_post s dp x D B (find (dhit name (fbyte x D)) [0 * (BSIZE div 16)..<nentries (unat (i_size x))]))"
    using B av by (intro dirlookup_loop_spec [OF at _ _ r]) (simp_all add: lessThan_atLeast0)
  then show ?thesis using ty by (simp add: dirlookup_def x)
qed

definition others_same :: "nat \<Rightarrow> 'a kfs_scheme \<Rightarrow> 'a kfs_scheme \<Rightarrow> bool" where
  "others_same ip s t \<longleftrightarrow> length (icache t) = length (icache s) \<and> (\<forall>k. k \<noteq> ip \<longrightarrow> icache t ! k = icache s ! k)"

lemma fs_after_others: "fs_after s dev D ip x t \<Longrightarrow> others_same ip s t"
  using fs_after_icache [of s dev D ip x t] by (simp add: others_same_def)

lemma others_same_trans: "others_same ip s t \<Longrightarrow> others_same ip t u \<Longrightarrow> others_same ip s u"
  by (simp add: others_same_def)

lemma dir_after_at:
  assumes "file_at s dp x D" and "dir_after s dp x D B t"
  obtains x' D' where "file_at t dp x' D'" "room x' D' B" "fbyte x' D' = fbyte x D" "i_type x' = i_type x"
    "i_size x' = i_size x" "i_dev x' = i_dev x" "i_inum x' = i_inum x" "sb_of D' = sb_of D" "others_same dp s t"
proof -
  obtain x' D' where t: "fs_after s (i_dev x) D' dp x' t" "keeps x D x' D'" "room x' D' B"
    using assms(2) by (auto simp: dir_after_def)
  note kp = keeps_simps [OF t(2)]
  have at: "file_at t dp x' D'" by (rule file_at_after [OF assms(1) t(1) kp(5,1)])
  show thesis by (rule that [OF at t(3) kp(6,2,3,1,4,7) fs_after_others [OF t(1)]])
qed

text \<open>Entry \<open>j\<close> of a directory is written.\<close>

lemma dir_write_entry:
  fixes s :: "'a kfs_scheme"
  assumes at: "file_at s dp x D" and ty: "i_type x = T_DIR" and j: "j * 16 \<le> unat (i_size x)" and de: "dirent_ok de"
    and mx: "unat (i_size x) + 16 \<le> MAXFILE * BSIZE" and i: "i_inum x < sb_ninodes (sb_of D)"
    and B: "span 0 (unat (i_size x) + 16) \<subseteq> B" and r: "room x D B"
  shows "returns (writei dsw dp (enc_dirent de) (of_nat (j * 16)) 16 s) (\<lambda>r t. r = 16 \<and> others_same dp s t \<and>
    (\<exists>x' D'. file_at t dp x' D' \<and> i_type x' = T_DIR \<and> i_dev x' = i_dev x \<and> room x' D' B \<and>
      unat (i_size x') = max (unat (i_size x)) (j * 16 + 16) \<and>
      fbyte x' D' = overwrite (fbyte x D) (j * 16) (enc_dirent de)))"
proof -
  let ?off = "of_nat (j * 16) :: uint"
  have M: "unat (of_nat (MAXFILE * BSIZE) :: uint) = MAXFILE * BSIZE" "MAXFILE * BSIZE = 71680"
    by (simp_all add: unat_of_nat MAXFILE_def NDIRECT_def NINDIRECT_def BSIZE_def)
  have u: "unat ?off = j * 16" using j by (intro of_nat_small [of _ "i_size x"]) simp
  have u16: "unat (?off + 16) = j * 16 + 16"
    using u j mx M by (subst unat_word_ariths) (simp del: of_nat_mult)
  have o: "?off \<le> i_size x" "\<not> ?off + 16 < ?off" using u u16 j by (simp_all add: word_le_nat_alt word_less_nat_alt del: of_nat_mult)
  have w: "16 = wr_len x ?off 16" using u16 j mx M by (auto simp: wr_len_def word_less_nat_alt simp del: of_nat_mult)
  have l: "length (enc_dirent de) = 16" using de by (rule de.length_enc)
  have sp: "span (unat ?off) (unat (16 :: uint)) \<subseteq> B"
  proof -
    have "span (j * 16) 16 \<subseteq> span 0 (unat (i_size x) + 16)"
      using div_le_mono [of "j * 16 + 16 + 511" "unat (i_size x) + 16 + 511" 512] j by (auto simp: span_def BSIZE_def)
    then show ?thesis using B by (simp add: u del: of_nat_mult)
  qed
  have ndv: "i_type x \<noteq> T_DEV" using ty by (simp add: type_consts)
  show ?thesis
  proof (rule returns_mono [OF writei_spec [OF at ndv o _ w _ i sp r]], goal_cases)
    case (3 rr t)
    then obtain x' D' where "fs_after s (i_dev x) D' dp x' t" "file_at t dp x' D'" "i_type x' = i_type x"
      "i_dev x' = i_dev x" "unat (i_size x') = max (unat (i_size x)) (unat ?off + unat (16 :: uint))"
      "fbyte x' D' = overwrite (fbyte x D) (unat ?off) (take (unat (16 :: uint)) (enc_dirent de))" "room x' D' B" "rr = 16"
      by blast
    then show ?case using ty l fs_after_others by (auto simp: u simp del: of_nat_mult)
  qed (use l j mx u in \<open>simp_all del: of_nat_mult\<close>)
qed

lemma span_all: "span 0 n = {..<(n + BSIZE - 1) div BSIZE}"
  by (auto simp: span_def BSIZE_def)

definition new_dirent :: "byte list \<Rightarrow> uint \<Rightarrow> dirent" where
  "new_dirent name inum = \<lparr>de_inum = ucast inum, de_name = strncpy_out name DIRSIZ\<rparr>"

lemma new_dirent_ok [simp]: "dirent_ok (new_dirent name inum)"
  by (simp add: dirent_ok_def new_dirent_def)

text \<open>\<open>dirlink\<close> of a name that is not there writes the entry into the first free slot.\<close>

lemma dirlink_spec:
  fixes s :: "'a kfs_scheme"
  assumes at: "file_at s dp x D" and ty: "i_type x = T_DIR" and ok: "dir_ok (fbyte x D) (unat (i_size x))"
    and mx: "unat (i_size x) + 16 \<le> MAXFILE * BSIZE" and i: "i_inum x < sb_ninodes (sb_of D)"
    and r: "room x D (span 0 (unat (i_size x) + 16))"
    and new: "find (dhit name (fbyte x D)) [0..<nentries (unat (i_size x))] = None"
    and j: "j = free_entry (fbyte x D) 0 (unat (i_size x) div 16)"
  shows "returns (dirlink dsw dp name inum s) (\<lambda>r t. r = 0 \<and> others_same dp s t \<and>
    (\<exists>x' D'. file_at t dp x' D' \<and> i_type x' = T_DIR \<and> i_dev x' = i_dev x \<and> room x' D' (span 0 (unat (i_size x) + 16)) \<and>
      unat (i_size x') = max (unat (i_size x)) (j * 16 + 16) \<and>
      fbyte x' D' = overwrite (fbyte x D) (j * 16) (enc_dirent (new_dirent name inum))))"
    (is "returns _ ?Q")
proof -
  let ?B = "span 0 (unat (i_size x) + 16)" and ?sz = "unat (i_size x)"
  have "(?sz + 511) div 512 \<le> (?sz + 16 + 511) div 512" by (rule div_le_mono) simp
  then have B: "{..<(?sz + BSIZE - 1) div BSIZE} \<subseteq> ?B" by (auto simp: span_all BSIZE_def)
  have n: "?sz = ?sz div 16 * 16" using ok by (auto simp: dir_ok_def)
  have L: "returns (dirlookup dp name s) (\<lambda>l t. l = None \<and> dir_after s dp x D ?B t)"
    by (rule returns_mono [OF dirlookup_spec [OF at ty B r, of name]]) (simp_all add: new lookup_post_def)
  show ?thesis unfolding dirlink_def
  proof (rule returns_bind [OF L], elim conjE)
    fix l :: "(nat \<times> uint) option" and t :: "'a kfs_scheme" assume l: "l = None" and t: "dir_after s dp x D ?B t"
    obtain x1 D1 where 1: "file_at t dp x1 D1" "room x1 D1 ?B" "fbyte x1 D1 = fbyte x D" "i_type x1 = i_type x"
      "i_size x1 = i_size x" "i_dev x1 = i_dev x" "i_inum x1 = i_inum x" "sb_of D1 = sb_of D" "others_same dp s t"
      by (rule dir_after_at [OF at t])
    have c: "icache t ! dp = x1" using 1(1) by (simp add: file_at_def)
    have S: "returns (dirlink_slot dsw dp ?sz (0 * 16) t) (\<lambda>r u. r = j * 16 \<and> dir_after t dp x1 D1 ?B u)"
      using dirlink_slot_spec [OF 1(1) _ _ n _ _ 1(2), of 0] ty 1 B j by simp
    show "returns (case l of
        Some (ip, off) \<Rightarrow> and_then (iput ip t) (\<lambda>_ s. Ret (-1) s)
      | None \<Rightarrow>
          and_then (dirlink_slot dsw dp (unat (i_size (icache t ! dp))) 0 t) (\<lambda>off s.
          let de = \<lparr>de_inum = ucast inum, de_name = strncpy_out name DIRSIZ\<rparr> in
          and_then (writei dsw dp (enc_dirent de) (of_nat off) 16 s) (\<lambda>r s.
          if r \<noteq> 16 then Panic ''dirlink'' else Ret 0 s))) ?Q"
      unfolding l option.case c 1(5) Let_def new_dirent_def [symmetric]
    proof (rule returns_bind [OF S [unfolded mult_0]], elim conjE)
      fix off u assume off: "off = j * 16" and u: "dir_after t dp x1 D1 ?B u"
      obtain x2 D2 where 2: "file_at u dp x2 D2" "room x2 D2 ?B" "fbyte x2 D2 = fbyte x1 D1" "i_type x2 = i_type x1"
        "i_size x2 = i_size x1" "i_dev x2 = i_dev x1" "i_inum x2 = i_inum x1" "sb_of D2 = sb_of D1" "others_same dp t u"
        by (rule dir_after_at [OF 1(1) u])
      have "j \<le> ?sz div 16" unfolding j by (rule free_entry_le) simp
      then have "j * 16 \<le> ?sz" using n by linarith
      then have jn: "j * 16 \<le> unat (i_size x2)" using 1(5) 2(5) by simp
      have W: "returns (writei dsw dp (enc_dirent (new_dirent name inum)) (of_nat (j * 16)) 16 u) (\<lambda>r t. r = 16 \<and> others_same dp u t \<and>
        (\<exists>x' D'. file_at t dp x' D' \<and> i_type x' = T_DIR \<and> i_dev x' = i_dev x2 \<and> room x' D' ?B \<and>
          unat (i_size x') = max (unat (i_size x2)) (j * 16 + 16) \<and>
          fbyte x' D' = overwrite (fbyte x2 D2) (j * 16) (enc_dirent (new_dirent name inum))))"
        using dir_write_entry [OF 2(1) _ jn new_dirent_ok _ _ _ 2(2)] ty 1 2 mx i by simp
      show "returns (and_then (writei dsw dp (enc_dirent (new_dirent name inum)) (of_nat off) 16 u) (\<lambda>r s.
          if r \<noteq> 16 then Panic ''dirlink'' else Ret 0 s)) ?Q"
        unfolding off
      proof (rule returns_bind [OF W], elim conjE)
        fix w v assume w: "w = 16" "others_same dp u v"
          and ex: "\<exists>x' D'. file_at v dp x' D' \<and> i_type x' = T_DIR \<and> i_dev x' = i_dev x2 \<and> room x' D' ?B \<and>
          unat (i_size x') = max (unat (i_size x2)) (j * 16 + 16) \<and>
          fbyte x' D' = overwrite (fbyte x2 D2) (j * 16) (enc_dirent (new_dirent name inum))"
        have "others_same dp s v" using others_same_trans [OF others_same_trans [OF 1(9) 2(9)] w(2)] .
        then show "returns (if w \<noteq> 16 then Panic ''dirlink'' else Ret 0 v) ?Q"
          using ex w(1) 1(3,5,6) 2(3,5,6) by simp
      qed
    qed
  qed
qed

text \<open>C6: \<open>dirlink\<close> followed by \<open>dirlookup\<close>.  Linking a new name into a directory with room returns 0, and looking the
  name up then finds the inode number it was linked to, in a referenced entry of the inode cache.\<close>

theorem dirlink_dirlookup:
  fixes s :: "'a kfs_scheme"
  assumes "file_at s dp x D" and "i_type x = T_DIR" and "dir_ok (fbyte x D) (unat (i_size x))"
    and "unat (i_size x) + 16 \<le> MAXFILE * BSIZE" and "i_inum x < sb_ninodes (sb_of D)"
    and "room x D (span 0 (unat (i_size x) + 16))"
    and "find (dhit name (fbyte x D)) [0..<nentries (unat (i_size x))] = None"
    and "(ucast inum :: ushort) \<noteq> 0" and "\<exists>k < length (icache s). k \<noteq> dp \<and> i_ref (icache s ! k) = 0"
  shows "returns (and_then (dirlink dsw dp name inum s) (\<lambda>r t. and_then (dirlookup dp name t) (\<lambda>l u. Ret (r, l) u)))
    (\<lambda>(r, l) u. r = 0 \<and> (\<exists>ip off. l = Some (ip, off) \<and>
      names_inode (i_dev x) (ucast (ucast inum :: ushort)) (icache u ! ip)))"
proof -
  let ?sz = "unat (i_size x)" and ?de = "new_dirent name inum"
  let ?j = "free_entry (fbyte x D) 0 (?sz div 16)" and ?B = "span 0 (?sz + 16)"
  show ?thesis
  proof (rule returns_bind [OF dirlink_spec [OF assms(1-7) refl]], elim conjE exE)
    fix r t x' D'
    assume r: "r = 0" and o: "others_same dp s t" and at: "file_at t dp x' D'" and ty: "i_type x' = T_DIR"
      and dev: "i_dev x' = i_dev x" and rm: "room x' D' ?B" and size': "unat (i_size x') = max ?sz (?j * 16 + 16)"
      and fb: "fbyte x' D' = overwrite (fbyte x D) (?j * 16) (enc_dirent ?de)"
    have j: "?j \<le> ?sz div 16" by (rule free_entry_le) simp
    have jn: "?j < nentries (unat (i_size x'))"
    proof -
      have "?j * 16 + 16 \<le> unat (i_size x')" using size' by simp
      then show ?thesis by (simp add: nentries_def BSIZE_def)
    qed
    have f: "find (dhit name (fbyte x' D')) [0..<nentries (unat (i_size x'))] = Some ?j"
      unfolding fb using assms(3,7,8) j jn by (intro find_new_entry new_dirent_ok) (simp_all add: new_dirent_def)
    have "unat (i_size x') \<le> ?sz + 16" using size' j by (auto simp: max_def)
    then have "(unat (i_size x') + 511) div 512 \<le> (?sz + 16 + 511) div 512" by (intro div_le_mono) simp
    then have B: "{..<(unat (i_size x') + BSIZE - 1) div BSIZE} \<subseteq> ?B" by (auto simp: span_all BSIZE_def)
    have av: "iget_avail dev' n' (icache t)" for dev' n'
      using assms(9) o by (auto simp: iget_avail_def others_same_def)
    have "returns (dirlookup dp name t) (lookup_post t dp x' D' ?B (Some ?j))"
      using dirlookup_spec [OF at ty B rm, of name] av f by simp
    then show "returns (and_then (dirlookup dp name t) (\<lambda>l u. Ret (r, l) u))
      (\<lambda>(r, l) u. r = 0 \<and> (\<exists>ip off. l = Some (ip, off) \<and>
        names_inode (i_dev x) (ucast (ucast inum :: ushort)) (icache u ! ip)))"
    proof (rule returns_bind)
      fix l u assume "lookup_post t dp x' D' ?B (Some ?j) l u"
      then obtain ip v where v: "dir_after t dp x' D' ?B v" "l = Some (ip, of_nat (?j * 16))"
        "iget (i_dev x') (ucast (de_inum (dentry (fbyte x' D') ?j))) v = Ret ip u" by (auto simp: lookup_post_def)
      have de: "de_inum (dentry (fbyte x' D') ?j) = ucast inum"
        unfolding fb dentry_overwrite [OF new_dirent_ok] by (simp add: new_dirent_def)
      have "names_inode (i_dev x) (ucast (ucast inum :: ushort)) (icache u ! ip)"
        using iget_spec [of v "i_dev x" "ucast (ucast inum :: ushort)"] dir_after_icache [OF at v(1)] av v(3) dev de by auto
      then show "returns (Ret (r, l) u) (\<lambda>(r, l) u. r = 0 \<and> (\<exists>ip off. l = Some (ip, off) \<and>
        names_inode (i_dev x) (ucast (ucast inum :: ushort)) (icache u ! ip)))"
        using r v(2) by simp
    qed
  qed
qed

theorem dirlink_dirlookup_witness:
  "returns (and_then (dirlink (\<lambda>_. \<lparr>dev_read = None, dev_write = None\<rparr>) 0 [97] 7 (demo_fs T_DIR))
      (\<lambda>r t. and_then (dirlookup 0 [97] t) (\<lambda>l u. Ret (r, l) u)))
    (\<lambda>(r, l) u. r = 0 \<and> (\<exists>ip off. l = Some (ip, off) \<and>
      names_inode (i_dev (demo_inode T_DIR)) (ucast (ucast (7 :: uint) :: ushort)) (icache u ! ip)))"
proof (rule dirlink_dirlookup [OF demo_file_at [of T_DIR]])
  have e: "i_size (demo_inode T_DIR) = 0" by (simp add: demo_inode_def empty_inode_def)
  have "span 0 16 = {0 :: nat}" by (auto simp: span_all BSIZE_def)
  then show "room (demo_inode T_DIR) demo_vol (span 0 (unat (i_size (demo_inode T_DIR)) + 16))" using e demo_room by simp
  show "i_inum (demo_inode T_DIR) < sb_ninodes (sb_of demo_vol)" by (simp add: demo_inode_def demo_sb)
  show "i_type (demo_inode T_DIR) = T_DIR" by (simp add: demo_inode_def)
  show "dir_ok (fbyte (demo_inode T_DIR) demo_vol) (unat (i_size (demo_inode T_DIR)))" by (simp add: dir_ok_def e fbyte_def demo_fmap Let_def)
  show "unat (i_size (demo_inode T_DIR)) + 16 \<le> MAXFILE * BSIZE" by (simp add: e MAXFILE_def NDIRECT_def BSIZE_def)
  show "find (dhit [97] (fbyte (demo_inode T_DIR) demo_vol)) [0..<nentries (unat (i_size (demo_inode T_DIR)))] = None"
    by (simp add: e nentries_def BSIZE_def)
  show "\<exists>k<length (icache (demo_fs T_DIR)). k \<noteq> 0 \<and> i_ref (icache (demo_fs T_DIR) ! k) = 0"
    by (rule exI [of _ 1]) (simp add: demo_fs_def kfs.fields_def kbio.extend_def empty_inode_def)
qed simp

end
