(* ===== verification/File.thy ===== *)
theory File
  imports Pipe Dir
begin

text \<open>
  Open files: \<^verbatim>\<open>src/5/xv6/file.c\<close> and \<open>pipealloc\<close> of \<^verbatim>\<open>src/5/xv6/pipe.c\<close>.

  A file pointer is an index into the table \<open>ftable\<close>; a null pointer is \<open>None\<close>.  The address that
  \<open>fileread\<close> and \<open>filewrite\<close> get is a pointer into user memory, followed through the current page table
  (\<open>user_read\<close>, \<open>user_write\<close>); \<open>filewrite\<close> reads exactly the bytes that the pipe or the inode consumes.
\<close>

section \<open>State\<close>

definition NFILE :: nat where "NFILE = 100"

datatype ftype = FD_NONE | FD_PIPE | FD_INODE

record openfile =
  f_type :: ftype
  f_ref :: uint
  f_readable :: bool
  f_writable :: bool
  f_pipe :: uint
  f_ip :: "nat option"
  f_off :: uint

record kfile = kpipe +
  ftable :: "openfile list"

definition upd_file :: "nat \<Rightarrow> (openfile \<Rightarrow> openfile) \<Rightarrow> 'a kfile_scheme \<Rightarrow> 'a kfile_scheme" where
  "upd_file f g s = s\<lparr>ftable := (ftable s)[f := g (ftable s ! f)]\<rparr>"

section \<open>References\<close>

definition filealloc :: "'a kfile_scheme \<Rightarrow> (nat option, 'a kfile_scheme) outcome" where
  "filealloc s =
     and_then (lk_acquire LFtable s) (\<lambda>_ s.
     case find (\<lambda>f. f_ref (ftable s ! f) = 0) [0..<length (ftable s)] of
       Some f \<Rightarrow> and_then (lk_release LFtable (upd_file f (\<lambda>x. x\<lparr>f_ref := 1\<rparr>) s)) (\<lambda>_ s. Ret (Some f) s)
     | None \<Rightarrow> and_then (lk_release LFtable s) (\<lambda>_ s. Ret None s))"

definition filedup :: "nat \<Rightarrow> 'a kfile_scheme \<Rightarrow> (nat, 'a kfile_scheme) outcome" where
  "filedup f s =
     and_then (lk_acquire LFtable s) (\<lambda>_ s.
     if sint (f_ref (ftable s ! f)) < 1 then Panic ''filedup''
     else and_then (lk_release LFtable (upd_file f (\<lambda>x. x\<lparr>f_ref := f_ref x + 1\<rparr>) s)) (\<lambda>_ s. Ret f s))"

definition fileclose :: "nat \<Rightarrow> 'a kfile_scheme \<Rightarrow> (unit, 'a kfile_scheme) outcome" where
  "fileclose f s =
     and_then (lk_acquire LFtable s) (\<lambda>_ s.
     if sint (f_ref (ftable s ! f)) < 1 then Panic ''fileclose''
     else
       let s = upd_file f (\<lambda>x. x\<lparr>f_ref := f_ref x - 1\<rparr>) s in
       if sint (f_ref (ftable s ! f)) > 0 then lk_release LFtable s
       else
         let ff = ftable s ! f in
         and_then (lk_release LFtable (upd_file f (\<lambda>x. x\<lparr>f_ref := 0, f_type := FD_NONE\<rparr>) s)) (\<lambda>_ s.
         case f_type ff of
           FD_PIPE \<Rightarrow> pipeclose (f_pipe ff) (f_writable ff) s
         | FD_INODE \<Rightarrow> (case f_ip ff of None \<Rightarrow> Panic ''null inode'' | Some ip \<Rightarrow> iput ip s)
         | FD_NONE \<Rightarrow> Ret () s))"

section \<open>Reading and writing\<close>

definition filestat :: "nat \<Rightarrow> 'a kfile_scheme \<Rightarrow> (uint \<times> stat option, 'a kfile_scheme) outcome" where
  "filestat f s =
     (let x = ftable s ! f in
      if f_type x = FD_INODE then
        and_then (ilock (f_ip x) s) (\<lambda>_ s.
        let st = stati (icache s ! the (f_ip x)) in
        and_then (iunlock (f_ip x) s) (\<lambda>_ s. Ret (0, Some st) s))
      else Ret (-1, None) s)"

definition fileread :: "(nat \<Rightarrow> 'a kfile_scheme devsw) \<Rightarrow> nat \<Rightarrow> uint \<Rightarrow> uint \<Rightarrow> 'a kfile_scheme \<Rightarrow>
    (uint, 'a kfile_scheme) outcome" where
  "fileread dsw f addr n s =
     (let x = ftable s ! f in
      if \<not> f_readable x then Ret (-1) s
      else case f_type x of
        FD_PIPE \<Rightarrow>
          and_then (piperead (f_pipe x) n s) (\<lambda>(r, bs) s.
          and_then (user_write addr bs s) (\<lambda>_ s. Ret r s))
      | FD_INODE \<Rightarrow>
          and_then (ilock (f_ip x) s) (\<lambda>_ s.
          and_then (readi dsw (the (f_ip x)) (f_off (ftable s ! f)) n s) (\<lambda>(r, bs) s.
          and_then (user_write addr bs s) (\<lambda>_ s.
          let s = (if sint r > 0 then upd_file f (\<lambda>x. x\<lparr>f_off := f_off x + r\<rparr>) s else s) in
          and_then (iunlock (f_ip x) s) (\<lambda>_ s. Ret r s))))
      | FD_NONE \<Rightarrow> Panic ''fileread'')"

text \<open>How many bytes \<open>writei\<close> takes from its source: a device driver takes the request, a file what is left
  after the checks on its size.\<close>

definition writei_takes :: "inode \<Rightarrow> uint \<Rightarrow> uint \<Rightarrow> nat" where
  "writei_takes x off n =
     (if i_type x = T_DEV then nat (sint n)
      else if off > i_size x \<or> off + n < off then 0
      else unat (wr_len x off n))"

definition filewrite :: "(nat \<Rightarrow> 'a kfile_scheme devsw) \<Rightarrow> nat \<Rightarrow> uint \<Rightarrow> uint \<Rightarrow> 'a kfile_scheme \<Rightarrow>
    (uint, 'a kfile_scheme) outcome" where
  "filewrite dsw f addr n s =
     (let x = ftable s ! f in
      if \<not> f_writable x then Ret (-1) s
      else case f_type x of
        FD_PIPE \<Rightarrow> and_then (user_read addr (nat (sint n)) s) (\<lambda>bs s. pipewrite (f_pipe x) bs n s)
      | FD_INODE \<Rightarrow>
          and_then (ilock (f_ip x) s) (\<lambda>_ s.
          let ip = the (f_ip x); off = f_off (ftable s ! f) in
          and_then (user_read addr (writei_takes (icache s ! ip) off n) s) (\<lambda>bs s.
          and_then (writei dsw ip bs off n s) (\<lambda>r s.
          let s = (if sint r > 0 then upd_file f (\<lambda>x. x\<lparr>f_off := f_off x + r\<rparr>) s else s) in
          and_then (iunlock (f_ip x) s) (\<lambda>_ s. Ret r s))))
      | FD_NONE \<Rightarrow> Panic ''filewrite'')"

text \<open>The comparison of the offset, an \<^verbatim>\<open>int\<close>, with the size is unsigned.\<close>

definition filelseek :: "nat \<Rightarrow> uint \<Rightarrow> 'a kfile_scheme \<Rightarrow> (uint, 'a kfile_scheme) outcome" where
  "filelseek f offset s =
     (let x = ftable s ! f in
      if f_type x = FD_INODE then
        and_then (ilock (f_ip x) s) (\<lambda>_ s.
        let s = upd_file f (\<lambda>x. x\<lparr>f_off := offset\<rparr>) s;
            ip = the (f_ip x);
            s = (if offset > i_size (icache s ! ip) then upd_inode ip (\<lambda>x. x\<lparr>i_size := offset\<rparr>) s else s) in
        and_then (iunlock (f_ip x) s) (\<lambda>_ s. Ret (f_off (ftable s ! f)) s))
      else Ret (-1) s)"

section \<open>pipealloc\<close>

definition close_if :: "nat option \<Rightarrow> 'a kfile_scheme \<Rightarrow> (unit, 'a kfile_scheme) outcome" where
  "close_if f s = (case f of None \<Rightarrow> Ret () s | Some f \<Rightarrow> fileclose f s)"

text \<open>The error exit is taken before the page is allocated, so there is never a page to free there.\<close>

definition pipealloc_bad :: "nat option \<Rightarrow> nat option \<Rightarrow> 'a kfile_scheme \<Rightarrow> ((nat \<times> nat) option, 'a kfile_scheme) outcome" where
  "pipealloc_bad f0 f1 s = and_then (close_if f0 s) (\<lambda>_ s. and_then (close_if f1 s) (\<lambda>_ s. Ret None s))"

definition pipealloc :: "'a kfile_scheme \<Rightarrow> ((nat \<times> nat) option, 'a kfile_scheme) outcome" where
  "pipealloc s =
     and_then (filealloc s) (\<lambda>f0 s.
     case f0 of None \<Rightarrow> pipealloc_bad None None s
     | Some f0 \<Rightarrow>
       and_then (filealloc s) (\<lambda>f1 s.
       case f1 of None \<Rightarrow> pipealloc_bad (Some f0) None s
       | Some f1 \<Rightarrow>
         and_then (kalloc s) (\<lambda>p s.
         if p = 0 then pipealloc_bad (Some f0) (Some f1) s
         else
           let s = upd_pipe p (\<lambda>q. q\<lparr>pi_readopen := True, pi_writeopen := True, pi_nwrite := 0, pi_nread := 0\<rparr>) s;
               s = upd_file f0 (\<lambda>x. x\<lparr>f_type := FD_PIPE, f_readable := True, f_writable := False, f_pipe := p\<rparr>) s;
               s = upd_file f1 (\<lambda>x. x\<lparr>f_type := FD_PIPE, f_readable := False, f_writable := True, f_pipe := p\<rparr>) s in
           Ret (Some (f0, f1)) s)))"

end
