(* ===== verification/Proc.thy ===== *)
theory Proc
  imports File
begin

text \<open>
  Processes: \<^verbatim>\<open>src/5/xv6/proc.c\<close> (sched, sleep and wakeup are in \<open>Kbase\<close>).

  A process pointer is an index into \<open>procs\<close>.  The trap frame and the saved context, which the code keeps on the
  kernel stack, are records of the process.  The addresses of \<^verbatim>\<open>forkret\<close> and \<^verbatim>\<open>trapret\<close> and the bytes of
  \<^verbatim>\<open>initcode\<close> come from the linker and are constants of the state.

  A routine that switches to the scheduler ends in \<open>Sleep\<close>, with \<open>ChNull\<close> when it does not wait for anything
  (yield, exit).  \<open>scheduler_scan\<close> is one stretch of the scheduler, from slot \<open>i\<close> of the table to the next switch
  or to the end of the pass.
\<close>

section \<open>State\<close>

record kproc = kfile +
  k_forkret :: uint
  k_trapret :: uint
  k_initcode :: "byte list"

abbreviation proc_at :: "nat \<Rightarrow> 'a kbase_scheme \<Rightarrow> proc" where
  "proc_at p s \<equiv> procs s ! p"

text \<open>Code that reads \<^verbatim>\<open>proc->...\<close>; with no process running that is a null pointer.\<close>

definition with_proc :: "'a kbase_scheme \<Rightarrow> (nat \<Rightarrow> ('b, 'a kbase_scheme) outcome) \<Rightarrow> ('b, 'a kbase_scheme) outcome" where
  "with_proc s f = (case cur s of None \<Rightarrow> Panic ''null proc'' | Some p \<Rightarrow> f p)"

definition sizeof_trapframe :: uint where "sizeof_trapframe = 76"

section \<open>Creation\<close>

definition find_proc :: "(proc \<Rightarrow> bool) \<Rightarrow> 'a kbase_scheme \<Rightarrow> nat option" where
  "find_proc P s = find (\<lambda>p. P (proc_at p s)) [0..<length (procs s)]"

definition allocproc :: "'a kproc_scheme \<Rightarrow> (nat option, 'a kproc_scheme) outcome" where
  "allocproc s =
     and_then (lk_acquire LPtable s) (\<lambda>_ s.
     case find_proc (\<lambda>x. p_state x = UNUSED) s of
       None \<Rightarrow> and_then (lk_release LPtable s) (\<lambda>_ s. Ret None s)
     | Some p \<Rightarrow>
         let s = (upd_proc p (\<lambda>x. x\<lparr>p_state := EMBRYO, p_pid := nextpid s\<rparr>) s)\<lparr>nextpid := nextpid s + 1\<rparr> in
         and_then (lk_release LPtable s) (\<lambda>_ s.
         and_then (kalloc s) (\<lambda>k s.
         let s = upd_proc p (\<lambda>x. x\<lparr>p_kstack := k\<rparr>) s in
         if k = 0 then Ret None (upd_proc p (\<lambda>x. x\<lparr>p_state := UNUSED\<rparr>) s)
         else
           let sp = k + KSTACKSIZE - sizeof_trapframe - 4;
               s = s\<lparr>pmem := wr_word (pmem s) sp (k_trapret s)\<rparr> in
           Ret (Some p) (upd_proc p (\<lambda>x. x\<lparr>p_context := zero_context\<lparr>ctx_eip := k_forkret s\<rparr>\<rparr>) s))))"

definition userinit :: "'a kproc_scheme \<Rightarrow> (unit, 'a kproc_scheme) outcome" where
  "userinit s =
     and_then (allocproc s) (\<lambda>p s.
     let s = s\<lparr>initproc := p\<rparr> in
     case p of None \<Rightarrow> Panic ''null proc''
     | Some p \<Rightarrow>
       and_then (setupkvm s) (\<lambda>d s.
       let s = upd_proc p (\<lambda>x. x\<lparr>p_pgdir := d\<rparr>) s in
       if d = 0 then Panic ''userinit: out of memory?''
       else
         and_then (inituvm d (k_initcode s) s) (\<lambda>_ s.
         let ds = push_bit 3 (of_nat SEG_UDATA) OR ucast DPL_USER;
             tf = zero_tf\<lparr>tf_cs := push_bit 3 (of_nat SEG_UCODE) OR ucast DPL_USER, tf_ds := ds, tf_es := ds, tf_ss := ds,
               tf_eflags := FL_IF, tf_esp := of_nat PGSIZE, tf_eip := 0\<rparr>;
             s = upd_proc p (\<lambda>x. x\<lparr>p_sz := of_nat PGSIZE, p_tf := tf,
               p_name := safestrcpy (p_name x) (bytes_of ''initcode'') 16\<rparr>) s in
         and_then (namei (bytes_of ''/'') s) (\<lambda>ip s.
         Ret () (upd_proc p (\<lambda>x. x\<lparr>p_cwd := ip, p_state := RUNNABLE\<rparr>) s)))))"

definition growproc :: "uint \<Rightarrow> 'a kproc_scheme \<Rightarrow> (uint, 'a kproc_scheme) outcome" where
  "growproc n s =
     with_proc s (\<lambda>p.
     let sz = p_sz (proc_at p s); d = p_pgdir (proc_at p s) in
     and_then
       (if sint n > 0 then allocuvm d sz (sz + n) s
        else if sint n < 0 then deallocuvm d sz (sz + n) s
        else Ret sz s) (\<lambda>sz s.
     if n \<noteq> 0 \<and> sz = 0 then Ret (-1) s
     else and_then (switchuvm p (upd_proc p (\<lambda>x. x\<lparr>p_sz := sz\<rparr>) s)) (\<lambda>_ s. Ret 0 s)))"

definition fork :: "'a kproc_scheme \<Rightarrow> (uint, 'a kproc_scheme) outcome" where
  "fork s =
     and_then (allocproc s) (\<lambda>np s.
     case np of None \<Rightarrow> Ret (-1) s
     | Some np \<Rightarrow>
       with_proc s (\<lambda>p.
       and_then (copyuvm (p_pgdir (proc_at p s)) (p_sz (proc_at p s)) s) (\<lambda>d s.
       let s = upd_proc np (\<lambda>x. x\<lparr>p_pgdir := d\<rparr>) s in
       if d = 0 then
         and_then (kfree (p_kstack (proc_at np s)) s) (\<lambda>_ s.
         Ret (-1) (upd_proc np (\<lambda>x. x\<lparr>p_kstack := 0, p_state := UNUSED\<rparr>) s))
       else
         let s = upd_proc np (\<lambda>x. x\<lparr>p_sz := p_sz (proc_at p s), p_parent := Some p,
                   p_tf := (p_tf (proc_at p s))\<lparr>tf_eax := 0\<rparr>\<rparr>) s in
         and_then (for_each (\<lambda>i s.
             case p_ofile (proc_at p s) ! i of None \<Rightarrow> Ret () s
             | Some f \<Rightarrow> and_then (filedup f s) (\<lambda>f s.
                 Ret () (upd_proc np (\<lambda>x. x\<lparr>p_ofile := (p_ofile x)[i := Some f]\<rparr>) s))) [0..<NOFILE] s) (\<lambda>_ s.
         case p_cwd (proc_at p s) of None \<Rightarrow> Panic ''null cwd''
         | Some cwd \<Rightarrow>
           and_then (idup cwd s) (\<lambda>cwd s.
           let pid = p_pid (proc_at np s) in
           Ret pid (upd_proc np (\<lambda>x. x\<lparr>p_cwd := Some cwd, p_state := RUNNABLE,
             p_name := safestrcpy (p_name x) (p_name (proc_at p s)) 16\<rparr>) s))))))"

section \<open>Exit and wait\<close>

definition chan_of :: "nat option \<Rightarrow> chan" where
  "chan_of p = (case p of None \<Rightarrow> ChNull | Some p \<Rightarrow> ChProc p)"

text \<open>One step of the loop that passes the children of \<open>p\<close> to init.\<close>

definition abandon :: "nat \<Rightarrow> nat \<Rightarrow> 'a kbase_scheme \<Rightarrow> 'a kbase_scheme" where
  "abandon p q s =
     (if p_parent (proc_at q s) = Some p then
        let s = upd_proc q (\<lambda>x. x\<lparr>p_parent := initproc s\<rparr>) s in
        if p_state (proc_at q s) = ZOMBIE then wakeup1 (chan_of (initproc s)) s else s
      else s)"

definition exit :: "'a kproc_scheme \<Rightarrow> ('b, 'a kproc_scheme) outcome" where
  "exit s =
     (if cur s = initproc s then Panic ''init exiting''
      else with_proc s (\<lambda>p.
        and_then (for_each (\<lambda>fd s.
            case p_ofile (proc_at p s) ! fd of None \<Rightarrow> Ret () s
            | Some f \<Rightarrow> and_then (fileclose f s) (\<lambda>_ s.
                Ret () (upd_proc p (\<lambda>x. x\<lparr>p_ofile := (p_ofile x)[fd := None]\<rparr>) s))) [0..<NOFILE] s) (\<lambda>_ s.
        case p_cwd (proc_at p s) of None \<Rightarrow> Panic ''null cwd''
        | Some cwd \<Rightarrow>
          and_then (iput cwd s) (\<lambda>_ s.
          and_then (lk_acquire LPtable (upd_proc p (\<lambda>x. x\<lparr>p_cwd := None\<rparr>) s)) (\<lambda>_ s.
          let s = wakeup1 (chan_of (p_parent (proc_at p s))) s;
              s = fold (abandon p) [0..<length (procs s)] s in
          and_then (sched (upd_proc p (\<lambda>x. x\<lparr>p_state := ZOMBIE\<rparr>) s)) (\<lambda>_ s. Sleep ChNull s))))))"

definition reap :: "nat \<Rightarrow> 'a kproc_scheme \<Rightarrow> (uint, 'a kproc_scheme) outcome" where
  "reap q s =
     (let pid = p_pid (proc_at q s) in
      and_then (kfree (p_kstack (proc_at q s)) s) (\<lambda>_ s.
      let s = upd_proc q (\<lambda>x. x\<lparr>p_kstack := 0\<rparr>) s in
      and_then (freevm (p_pgdir (proc_at q s)) s) (\<lambda>_ s.
      let s = upd_proc q (\<lambda>x. x\<lparr>p_state := UNUSED, p_pid := 0, p_parent := None, p_name := (p_name x)[0 := 0],
                p_killed := False\<rparr>) s in
      and_then (lk_release LPtable s) (\<lambda>_ s. Ret pid s))))"

text \<open>One round of \<open>wait\<close> with the table locked; a process that is woken from its sleep starts another.\<close>

definition wait_round :: "'a kproc_scheme \<Rightarrow> (uint, 'a kproc_scheme) outcome" where
  "wait_round s =
     with_proc s (\<lambda>p.
     case find_proc (\<lambda>x. p_parent x = Some p \<and> p_state x = ZOMBIE) s of
       Some q \<Rightarrow> reap q s
     | None \<Rightarrow>
         if (\<forall>x \<in> set (procs s). p_parent x \<noteq> Some p) \<or> p_killed (proc_at p s)
         then and_then (lk_release LPtable s) (\<lambda>_ s. Ret (-1) s)
         else sleep (ChProc p) LPtable s)"

definition wait :: "'a kproc_scheme \<Rightarrow> (uint, 'a kproc_scheme) outcome" where
  "wait s = and_then (lk_acquire LPtable s) (\<lambda>_ s. wait_round s)"

section \<open>Scheduling\<close>

function scheduler_scan :: "nat \<Rightarrow> 'a kproc_scheme \<Rightarrow> (nat option, 'a kproc_scheme) outcome" where
  "scheduler_scan i s =
     (if i < length (procs s) then
        if p_state (proc_at i s) \<noteq> RUNNABLE then scheduler_scan (i + 1) s
        else
          and_then (switchuvm i (s\<lparr>cur := Some i\<rparr>)) (\<lambda>_ s.
          Ret (Some i) (upd_proc i (\<lambda>x. x\<lparr>p_state := RUNNING\<rparr>) s))
      else Ret None s)"
  by pat_completeness auto
termination
  by (relation "measure (\<lambda>(i, s). length (procs s) - i)") auto

declare scheduler_scan.simps [simp del]

text \<open>A pass of the scheduler starts by taking the lock; after a process gives the processor back the pass goes
  on; at the end of the pass the lock is released.\<close>

definition scheduler_start :: "'a kproc_scheme \<Rightarrow> (nat option, 'a kproc_scheme) outcome" where
  "scheduler_start s = and_then (lk_acquire LPtable s) (\<lambda>_ s. scheduler_scan 0 s)"

definition scheduler_resume :: "nat \<Rightarrow> 'a kproc_scheme \<Rightarrow> (nat option, 'a kproc_scheme) outcome" where
  "scheduler_resume i s = scheduler_scan (i + 1) ((switchkvm s)\<lparr>cur := None\<rparr>)"

definition scheduler_end :: "'a kproc_scheme \<Rightarrow> (unit, 'a kproc_scheme) outcome" where
  "scheduler_end s = lk_release LPtable s"

definition yield :: "'a kbase_scheme \<Rightarrow> ('b, 'a kbase_scheme) outcome" where
  "yield s =
     and_then (lk_acquire LPtable s) (\<lambda>_ s.
     with_proc s (\<lambda>p.
     and_then (sched (upd_proc p (\<lambda>x. x\<lparr>p_state := RUNNABLE\<rparr>) s)) (\<lambda>_ s. Sleep ChNull s)))"

text \<open>What a process does when it is switched to again, after \<open>yield\<close> and for the first time after \<open>fork\<close>.\<close>

definition yield_return :: "'a kbase_scheme \<Rightarrow> (unit, 'a kbase_scheme) outcome" where
  "yield_return s = lk_release LPtable s"

definition forkret :: "'a kbase_scheme \<Rightarrow> (unit, 'a kbase_scheme) outcome" where
  "forkret s = lk_release LPtable s"

definition kill :: "uint \<Rightarrow> 'a kbase_scheme \<Rightarrow> (uint, 'a kbase_scheme) outcome" where
  "kill pid s =
     and_then (lk_acquire LPtable s) (\<lambda>_ s.
     case find_proc (\<lambda>x. p_pid x = pid) s of
       Some p \<Rightarrow>
         let s = upd_proc p (\<lambda>x. x\<lparr>p_killed := True\<rparr>) s;
             s = (if p_state (proc_at p s) = SLEEPING then upd_proc p (\<lambda>x. x\<lparr>p_state := RUNNABLE\<rparr>) s else s) in
         and_then (lk_release LPtable s) (\<lambda>_ s. Ret 0 s)
     | None \<Rightarrow> and_then (lk_release LPtable s) (\<lambda>_ s. Ret (-1) s))"

section \<open>The scheduler\<close>

text \<open>The slots a pass of the scheduler switches to, up to \<open>n\<close> of them; \<open>run j\<close> is what happens from the switch to
  process \<open>j\<close> until the scheduler is back.\<close>

primrec dispatches :: "nat \<Rightarrow> (nat \<Rightarrow> 'a kproc_scheme \<Rightarrow> 'a kproc_scheme) \<Rightarrow> (nat option, 'a kproc_scheme) outcome \<Rightarrow>
    (nat list, 'a kproc_scheme) outcome" where
  "dispatches 0 run m = and_then m (\<lambda>_ s. Ret [] s)"
| "dispatches (Suc n) run m =
     and_then m (\<lambda>j s. case j of None \<Rightarrow> Ret [] s
     | Some j \<Rightarrow> and_then (dispatches n run (scheduler_resume j (run j s))) (\<lambda>js s. Ret (j # js) s))"

text \<open>A process that can run has an address space.\<close>

definition runnable_ok :: "'a kproc_scheme \<Rightarrow> bool" where
  "runnable_ok s \<longleftrightarrow> length (procs s) = NPROC \<and> (\<forall>q < NPROC. p_state (proc_at q s) = RUNNABLE \<longrightarrow> p_pgdir (proc_at q s) \<noteq> 0)"

text \<open>While process \<open>j\<close> runs, a runnable process stays runnable.\<close>

definition fair_run :: "(nat \<Rightarrow> 'a kproc_scheme \<Rightarrow> 'a kproc_scheme) \<Rightarrow> bool" where
  "fair_run run \<longleftrightarrow> (\<forall>j t. runnable_ok t \<longrightarrow> runnable_ok (run j t) \<and>
     (\<forall>q < NPROC. q \<noteq> j \<longrightarrow> p_state (proc_at q t) = RUNNABLE \<longrightarrow> p_state (proc_at q (run j t)) = RUNNABLE))"

lemma scheduler_scan_spec:
  assumes "runnable_ok s"
  shows "returns (scheduler_scan i s) (\<lambda>r t. runnable_ok t \<and>
    (\<forall>q < NPROC. Some q \<noteq> r \<longrightarrow> p_state (proc_at q t) = p_state (proc_at q s)) \<and>
    (case r of None \<Rightarrow> \<forall>q. i \<le> q \<longrightarrow> q < NPROC \<longrightarrow> p_state (proc_at q s) \<noteq> RUNNABLE
     | Some j \<Rightarrow> i \<le> j \<and> j < NPROC \<and> p_state (proc_at j s) = RUNNABLE \<and> p_state (proc_at j t) = RUNNING \<and> cur t = Some j \<and>
         cr3 t = p_pgdir (proc_at j s) \<and> (\<forall>q. i \<le> q \<longrightarrow> q < j \<longrightarrow> p_state (proc_at q s) \<noteq> RUNNABLE)))"
  using assms
proof (induction "NPROC - i" arbitrary: i)
  case 0
  then show ?case by (subst scheduler_scan.simps) (simp add: runnable_ok_def)
next
  case (Suc n)
  then have i: "i < NPROC" "n = NPROC - Suc i" by simp_all
  show ?case
  proof (cases "p_state (proc_at i s) = RUNNABLE")
    case True
    then show ?thesis using Suc.prems i
      by (subst scheduler_scan.simps) (auto simp: runnable_ok_def switchuvm_def Let_def upd_proc_def nth_list_update)
  next
    case False
    have "scheduler_scan i s = scheduler_scan (Suc i) s"
      using False i Suc.prems by (subst scheduler_scan.simps) (simp add: runnable_ok_def)
    moreover have "i = q \<or> Suc i \<le> q" if "i \<le> q" for q using that by auto
    ultimately show ?thesis using Suc.hyps(1) [OF i(2) Suc.prems] False
      by (auto elim!: returns_mono split: option.splits)
  qed
qed

lemma resume_state: "runnable_ok ((switchkvm s)\<lparr>cur := None\<rparr>) = runnable_ok s" "procs ((switchkvm s)\<lparr>cur := None\<rparr>) = procs s"
  by (simp_all add: runnable_ok_def switchkvm_def)

lemma dispatches_spec:
  fixes s :: "'a kproc_scheme"
  assumes "runnable_ok s" and "fair_run run" and "NPROC \<le> i + n"
  shows "returns (dispatches n run (scheduler_scan i s)) (\<lambda>js t. sorted_wrt (<) js \<and> (\<forall>j \<in> set js. i \<le> j \<and> j < NPROC) \<and>
    (\<forall>p < NPROC. i \<le> p \<longrightarrow> p_state (proc_at p s) = RUNNABLE \<longrightarrow> p \<in> set js))"
  using assms
proof (induction n arbitrary: i s)
  case 0
  then show ?case using scheduler_scan_spec [OF 0(1), of i] by (auto elim!: returns_mono)
next
  case (Suc n)
  show ?case unfolding dispatches.simps
  proof (rule returns_bind [OF scheduler_scan_spec [OF Suc.prems(1), of i]], elim conjE)
    fix r and t :: "'a kproc_scheme"
    assume ok: "runnable_ok t" and same: "\<forall>q < NPROC. Some q \<noteq> r \<longrightarrow> p_state (proc_at q t) = p_state (proc_at q s)"
      and c: "case r of None \<Rightarrow> \<forall>q. i \<le> q \<longrightarrow> q < NPROC \<longrightarrow> p_state (proc_at q s) \<noteq> RUNNABLE
       | Some j \<Rightarrow> i \<le> j \<and> j < NPROC \<and> p_state (proc_at j s) = RUNNABLE \<and> p_state (proc_at j t) = RUNNING \<and> cur t = Some j \<and>
           cr3 t = p_pgdir (proc_at j s) \<and> (\<forall>q. i \<le> q \<longrightarrow> q < j \<longrightarrow> p_state (proc_at q s) \<noteq> RUNNABLE)"
    let ?Q = "\<lambda>js t. sorted_wrt (<) js \<and> (\<forall>j \<in> set js. i \<le> j \<and> j < NPROC) \<and>
      (\<forall>p < NPROC. i \<le> p \<longrightarrow> p_state (proc_at p s) = RUNNABLE \<longrightarrow> p \<in> set js)"
    show "returns (case r of None \<Rightarrow> Ret [] t
      | Some j \<Rightarrow> and_then (dispatches n run (scheduler_resume j (run j t))) (\<lambda>js s. Ret (j # js) s)) ?Q"
    proof (cases r)
      case None
      then show ?thesis using c by auto
    next
      case (Some j)
      let ?u = "(switchkvm (run j t))\<lparr>cur := None\<rparr>"
      have j: "i \<le> j" "j < NPROC" "\<forall>q. i \<le> q \<longrightarrow> q < j \<longrightarrow> p_state (proc_at q s) \<noteq> RUNNABLE" using c Some by auto
      have u: "runnable_ok ?u" "\<forall>q < NPROC. q \<noteq> j \<longrightarrow> p_state (proc_at q t) = RUNNABLE \<longrightarrow> p_state (proc_at q ?u) = RUNNABLE"
        using Suc.prems(2) ok by (auto simp: fair_run_def resume_state)
      have "returns (dispatches n run (scheduler_resume j (run j t))) (\<lambda>js v. sorted_wrt (<) js \<and> (\<forall>k \<in> set js. Suc j \<le> k \<and> k < NPROC) \<and>
          (\<forall>p < NPROC. Suc j \<le> p \<longrightarrow> p_state (proc_at p ?u) = RUNNABLE \<longrightarrow> p \<in> set js))"
        using Suc.prems(3) j(1) Suc.IH [OF u(1) Suc.prems(2), of "Suc j"] by (simp add: scheduler_resume_def)
      moreover have "p = j \<or> Suc j \<le> p \<and> p_state (proc_at p ?u) = RUNNABLE"
        if "p < NPROC" "i \<le> p" "p_state (proc_at p s) = RUNNABLE" for p
      proof (cases "p = j")
        case False
        then have "j < p" using that j(3) by (meson linorder_neqE_nat)
        moreover have "p_state (proc_at p t) = RUNNABLE" using same that Some False by auto
        ultimately show ?thesis using u(2) that(1) False by auto
      qed simp
      ultimately show ?thesis unfolding Some option.case
        by (elim returns_bind) (use j in \<open>auto simp: Suc_le_eq\<close>)
    qed
  qed
qed

text \<open>C13: no process starves.  In a pass of the scheduler every process that is runnable when the pass starts is
  switched to, once, after at most as many switches as the table has slots, whatever the processes that run before it do,
  as long as they leave it runnable.\<close>

theorem scheduler_no_starvation:
  fixes s :: "'a kproc_scheme"
  assumes "runnable_ok s" and "fair_run run" and "LPtable \<notin> held s" and "p < NPROC" and "p_state (proc_at p s) = RUNNABLE"
  shows "returns (dispatches NPROC run (scheduler_start s)) (\<lambda>js t. p \<in> set js \<and> distinct js \<and> length js \<le> NPROC)"
proof -
  let ?s = "s\<lparr>held := insert LPtable (held s)\<rparr>"
  have "runnable_ok ?s" using assms(1) by (simp add: runnable_ok_def)
  from dispatches_spec [OF this assms(2), of 0 NPROC]
  have "returns (dispatches NPROC run (scheduler_scan 0 ?s)) (\<lambda>js t. sorted_wrt (<) js \<and> (\<forall>j \<in> set js. 0 \<le> j \<and> j < NPROC) \<and>
    (\<forall>p < NPROC. 0 \<le> p \<longrightarrow> p_state (proc_at p ?s) = RUNNABLE \<longrightarrow> p \<in> set js))" by simp
  moreover have "scheduler_start s = scheduler_scan 0 ?s" using assms(3) by (simp add: scheduler_start_def)
  moreover have "distinct js \<and> length js \<le> NPROC" if "sorted_wrt (<) js" "\<forall>j \<in> set js. j < NPROC" for js :: "nat list"
  proof -
    have d: "distinct js" using that(1) by (simp add: strict_sorted_iff)
    have "card (set js) \<le> card {..<NPROC}" using that(2) by (intro card_mono) auto
    then show ?thesis using d by (simp add: distinct_card)
  qed
  ultimately show ?thesis using assms(4,5) by (auto elim!: returns_mono)
qed

text \<open>A machine with an empty process table.\<close>

definition bare_proc :: kproc where
  "bare_proc = kfile.extend (kpipe.extend bare_pipe (kfile.fields (replicate NFILE \<lparr>f_type = FD_NONE, f_ref = 0, f_readable = False,
     f_writable = False, f_pipe = 0, f_ip = None, f_off = 0\<rparr>))) (kproc.fields 0x101000 0x102000 [])"

lemma bare_proc_simps [simp]:
  "held bare_proc = {}" "procs bare_proc = replicate NPROC zero_proc" "cur bare_proc = None" "nextpid bare_proc = 1"
  "length (ftable bare_proc) = NFILE" "i < NFILE \<Longrightarrow> f_ref (ftable bare_proc ! i) = 0"
  by (simp_all add: bare_proc_def bare_pipe_def bare_mem_def kvm.defs kmem.defs kpipe.defs kfile.defs kproc.defs)

lemma NPROC_slots: "2 < NPROC" "3 < NPROC" "5 < NPROC" "0 < NPROC"
  by (simp_all add: NPROC_def)

theorem scheduler_no_starvation_witness:
  "\<exists>s :: kproc. p_state (proc_at 2 s) = RUNNABLE \<and>
     returns (dispatches NPROC (\<lambda>j. upd_proc j (\<lambda>x. x\<lparr>p_state := ZOMBIE\<rparr>)) (scheduler_start s)) (\<lambda>js t. 2 \<in> set js)"
proof -
  let ?p = "zero_proc\<lparr>p_state := RUNNABLE, p_pgdir := 0x200000\<rparr>"
  let ?s = "bare_proc\<lparr>procs := (replicate NPROC zero_proc)[2 := ?p, 5 := ?p]\<rparr>"
  let ?run = "\<lambda>j. upd_proc j (\<lambda>x. x\<lparr>p_state := ZOMBIE\<rparr>) :: kproc \<Rightarrow> kproc"
  have ok: "runnable_ok ?s" by (auto simp: runnable_ok_def nth_list_update zero_proc_def NPROC_slots)
  have n: "(procs t)[j := f (proc_at j t)] ! q = (if q = j then f (proc_at j t) else proc_at q t)"
    if "q < length (procs t)" for t :: kproc and j q f using that by (auto simp: nth_list_update)
  have fr: "fair_run ?run" by (auto simp: fair_run_def runnable_ok_def n split: if_splits)
  have r: "p_state (proc_at 2 ?s) = RUNNABLE" by (simp add: NPROC_slots nth_list_update)
  have "returns (dispatches NPROC ?run (scheduler_start ?s)) (\<lambda>js t. 2 \<in> set js \<and> distinct js \<and> length js \<le> NPROC)"
    by (rule scheduler_no_starvation [OF ok fr _ _ r]) (simp_all add: NPROC_slots)
  then have "returns (dispatches NPROC ?run (scheduler_start ?s)) (\<lambda>js t. 2 \<in> set js)" by (rule returns_mono) simp
  with r show ?thesis by blast
qed

section \<open>kill\<close>

lemma find_proc_Some:
  "find_proc P s = Some p \<longleftrightarrow> p < length (procs s) \<and> P (proc_at p s) \<and> (\<forall>q < p. \<not> P (proc_at q s))"
  by (auto simp: find_proc_def find_Some_iff)

lemma find_proc_None: "find_proc P s = None \<longleftrightarrow> (\<forall>p < length (procs s). \<not> P (proc_at p s))"
  by (auto simp: find_proc_def find_None_iff)

text \<open>\<open>kill\<close> marks the process with the given id, makes it runnable if it sleeps, and changes no other process; without
  such a process it returns -1 and changes nothing.\<close>

theorem kill_marks:
  fixes s :: "'a kbase_scheme"
  assumes "LPtable \<notin> held s"
  shows "returns (kill pid s) (\<lambda>r t.
    case find_proc (\<lambda>x. p_pid x = pid) s of
      None \<Rightarrow> r = -1 \<and> t = s
    | Some p \<Rightarrow> r = 0 \<and> p_killed (proc_at p t) \<and> p_state (proc_at p t) \<noteq> SLEEPING \<and>
        (p_state (proc_at p s) \<noteq> SLEEPING \<longrightarrow> p_state (proc_at p t) = p_state (proc_at p s)) \<and>
        (\<forall>q. q \<noteq> p \<longrightarrow> proc_at q t = proc_at q s) \<and> held t = held s)"
proof -
  have f: "find_proc P (s\<lparr>held := h\<rparr>) = find_proc P s" for P h by (simp add: find_proc_def)
  show ?thesis
  proof (cases "find_proc (\<lambda>x. p_pid x = pid) s")
    case None
    then show ?thesis using assms by (simp add: kill_def f)
  next
    case (Some p)
    then have "p < length (procs s)" by (simp add: find_proc_Some)
    then show ?thesis using assms Some by (auto simp: kill_def f Let_def upd_proc_def)
  qed
qed

theorem kill_marks_witness:
  "\<exists>s :: kproc. returns (kill 7 s) (\<lambda>r t. r = 0 \<and> p_killed (proc_at 3 t) \<and> p_state (proc_at 3 t) = RUNNABLE)"
proof -
  let ?s = "bare_proc\<lparr>procs := (replicate NPROC zero_proc)[3 := zero_proc\<lparr>p_state := RUNNABLE, p_pid := 7\<rparr>]\<rparr>"
  have "find_proc (\<lambda>x. p_pid x = 7) ?s = Some 3" using NPROC_slots(2) by (auto simp: find_proc_Some nth_list_update zero_proc_def)
  then show ?thesis using kill_marks [of ?s 7] by (intro exI [of _ ?s]) (auto elim!: returns_mono simp: NPROC_slots nth_list_update)
qed

text \<open>C32: killing id 0.  Every free slot of the table has id 0, so \<open>kill 0\<close> succeeds and marks the first of them as killed;
  \<open>allocproc\<close> takes that slot for the next process without clearing the mark.\<close>

theorem kill_zero_poisons:
  fixes s :: "'a kproc_scheme"
  assumes "LPtable \<notin> held s" and "pool_ok s (k # ks)" and "p < length (procs s)" and "p_state (proc_at p s) = UNUSED" and "p_pid (proc_at p s) = 0"
    and "\<And>q. q < p \<Longrightarrow> p_state (proc_at q s) \<noteq> UNUSED \<and> p_pid (proc_at q s) \<noteq> 0"
  shows "returns (and_then (kill 0 s) (\<lambda>r t. and_then (allocproc t) (\<lambda>np u. Ret (r, np) u)))
    (\<lambda>(r, np) u. r = 0 \<and> np = Some p \<and> p_state (proc_at p u) = EMBRYO \<and> p_killed (proc_at p u))"
proof -
  let ?k = "\<lambda>x. x\<lparr>p_killed := True\<rparr>"
  let ?t = "upd_proc p ?k s"
  have f0: "find_proc (\<lambda>x. p_pid x = 0) (s\<lparr>held := h\<rparr>) = Some p" for h using assms(3-6) by (simp add: find_proc_Some)
  have K: "kill 0 s = Ret 0 ?t" using assms(1,3,4) f0 by (simp add: kill_def Let_def upd_proc_def)
  let ?e = "\<lambda>x. x\<lparr>p_state := EMBRYO, p_pid := nextpid s\<rparr>"
  let ?u = "(upd_proc p ?e ?t)\<lparr>nextpid := nextpid s + 1\<rparr>"
  have f1: "find_proc (\<lambda>x. p_state x = UNUSED) (?t\<lparr>held := h\<rparr>) = Some p" for h
    using assms(3-6) by (auto simp: find_proc_Some)
  have "pool_ok ?u (k # ks)" using assms(2) by (simp add: pool_ok_def page_ok_def upd_proc_def)
  then obtain v where v: "kalloc ?u = Ret k v" "nomem v = nomem ?u" "k \<noteq> 0"
    using pp.alloc_pop [of ?u k ks] pp.pool_usable [of ?u "k # ks" k] pp.usable_nonzero by (auto simp: returns_def)
  have pv: "procs v = procs ?u" using arg_cong [OF v(2), of procs] by (simp add: nomem_def)
  have A: "allocproc ?t = and_then (kalloc ?u) (\<lambda>k s.
      let s = upd_proc p (\<lambda>x. x\<lparr>p_kstack := k\<rparr>) s in
      if k = 0 then Ret None (upd_proc p (\<lambda>x. x\<lparr>p_state := UNUSED\<rparr>) s)
      else
        let sp = k + KSTACKSIZE - sizeof_trapframe - 4;
            s = s\<lparr>pmem := wr_word (pmem s) sp (k_trapret s)\<rparr> in
        Ret (Some p) (upd_proc p (\<lambda>x. x\<lparr>p_context := zero_context\<lparr>ctx_eip := k_forkret s\<rparr>\<rparr>) s))"
    using assms(1,3) f1 by (simp add: allocproc_def Let_def upd_proc_def)
  show ?thesis using K A v pv assms(3) by (simp add: Let_def upd_proc_def)
qed

theorem kill_zero_poisons_witness:
  "\<exists>s :: kproc. returns (and_then (kill 0 s) (\<lambda>r t. and_then (allocproc t) (\<lambda>np u. Ret (r, np) u)))
     (\<lambda>(r, np) u. r = 0 \<and> np = Some 0 \<and> p_killed (proc_at 0 u))"
proof -
  let ?s = "bare_proc\<lparr>freelist := 0x200000, pmem := \<lambda>_. 0, k_end := 0x107000\<rparr>"
  have "pool_ok ?s [0x200000]"
    by (simp add: pool_ok_def page_ok_def aligned_def PGSIZE_def PHYSTOP_def rd_word_def mem_read_def of_le32_def)
  then have "returns (and_then (kill 0 ?s) (\<lambda>r t. and_then (allocproc t) (\<lambda>np u. Ret (r, np) u)))
     (\<lambda>(r, np) u. r = 0 \<and> np = Some 0 \<and> p_state (proc_at 0 u) = EMBRYO \<and> p_killed (proc_at 0 u))"
    by (intro kill_zero_poisons) (simp_all add: NPROC_slots zero_proc_def)
  then show ?thesis by (intro exI [of _ ?s]) (auto elim!: returns_mono)
qed

end
