(* ===== verification/Exec.thy ===== *)
theory Exec
  imports Proc
begin

text \<open>
  Program loading: \<^verbatim>\<open>src/5/xv6/exec.c\<close> and the file format of \<^verbatim>\<open>src/5/xv6/elf.h\<close>.

  The path and the arguments are byte strings, read by the caller from user memory.  The header \<^verbatim>\<open>elf\<close> is an
  uninitialised local variable of \<open>exec\<close>; its contents are the parameter \<open>junk\<close>, which matters only when the file is a
  device that cannot be read: \<open>readi\<close> then returns \<^verbatim>\<open>-1\<close>, which the unsigned comparison lets through.
\<close>

definition MAXARG :: nat where "MAXARG = 32"
definition ELF_MAGIC :: uint where "ELF_MAGIC = 0x464C457F"
definition ELF_PROG_LOAD :: uint where "ELF_PROG_LOAD = 1"

record elfhdr =
  elf_magic :: uint
  elf_elf :: "byte list"
  elf_type :: ushort
  elf_machine :: ushort
  elf_version :: uint
  elf_entry :: uint
  elf_phoff :: uint
  elf_shoff :: uint
  elf_flags :: uint
  elf_ehsize :: ushort
  elf_phentsize :: ushort
  elf_phnum :: ushort
  elf_shentsize :: ushort
  elf_shnum :: ushort
  elf_shstrndx :: ushort

record proghdr =
  ph_type :: uint
  ph_offset :: uint
  ph_va :: uint
  ph_pa :: uint
  ph_filesz :: uint
  ph_memsz :: uint
  ph_flags :: uint
  ph_align :: uint

definition dec_elfhdr :: "byte list \<Rightarrow> elfhdr" where
  "dec_elfhdr b =
     \<lparr>elf_magic = of_le32 (chunk b 0 4), elf_elf = chunk b 4 12, elf_type = of_le16 (chunk b 16 2),
      elf_machine = of_le16 (chunk b 18 2), elf_version = of_le32 (chunk b 20 4), elf_entry = of_le32 (chunk b 24 4),
      elf_phoff = of_le32 (chunk b 28 4), elf_shoff = of_le32 (chunk b 32 4), elf_flags = of_le32 (chunk b 36 4),
      elf_ehsize = of_le16 (chunk b 40 2), elf_phentsize = of_le16 (chunk b 42 2), elf_phnum = of_le16 (chunk b 44 2),
      elf_shentsize = of_le16 (chunk b 46 2), elf_shnum = of_le16 (chunk b 48 2), elf_shstrndx = of_le16 (chunk b 50 2)\<rparr>"

definition dec_proghdr :: "byte list \<Rightarrow> proghdr" where
  "dec_proghdr b =
     (let w = dec_uints 8 b in
      \<lparr>ph_type = w ! 0, ph_offset = w ! 1, ph_va = w ! 2, ph_pa = w ! 3, ph_filesz = w ! 4, ph_memsz = w ! 5,
       ph_flags = w ! 6, ph_align = w ! 7\<rparr>)"

text \<open>The exit \<^verbatim>\<open>bad\<close>.\<close>

definition exec_bad :: "uint \<Rightarrow> nat option \<Rightarrow> 'a kproc_scheme \<Rightarrow> (uint, 'a kproc_scheme) outcome" where
  "exec_bad pgdir ip s =
     and_then (if pgdir \<noteq> 0 then freevm pgdir s else Ret () s) (\<lambda>_ s.
     and_then (if ip \<noteq> None then iunlockput ip s else Ret () s) (\<lambda>_ s. Ret (-1) s))"

text \<open>The program headers, \<open>n\<close> of them left; the size of the image, or \<open>None\<close> for the exit \<^verbatim>\<open>bad\<close>.\<close>

fun exec_load :: "(nat \<Rightarrow> 'a kproc_scheme devsw) \<Rightarrow> nat \<Rightarrow> nat \<Rightarrow> uint \<Rightarrow> uint \<Rightarrow> uint \<Rightarrow> 'a kproc_scheme \<Rightarrow>
    (uint option, 'a kproc_scheme) outcome" where
  "exec_load dsw 0 ip pgdir off sz s = Ret (Some sz) s"
| "exec_load dsw (Suc n) ip pgdir off sz s =
     and_then (readi dsw ip off 32 s) (\<lambda>(r, b) s.
     if r \<noteq> 32 then Ret None s
     else
       let ph = dec_proghdr b in
       if ph_type ph \<noteq> ELF_PROG_LOAD then exec_load dsw n ip pgdir (off + 32) sz s
       else if ph_memsz ph < ph_filesz ph then Ret None s
       else
         and_then (allocuvm pgdir sz (ph_va ph + ph_memsz ph) s) (\<lambda>sz s.
         if sz = 0 then Ret None s
         else
           and_then (loaduvm dsw pgdir (ph_va ph) ip (ph_offset ph) (ph_filesz ph) s) (\<lambda>r s.
           if sint r < 0 then Ret None s else exec_load dsw n ip pgdir (off + 32) sz s)))"

text \<open>The argument strings, pushed on the stack; the stack pointer and the addresses of the strings.\<close>

fun exec_push :: "uint \<Rightarrow> nat \<Rightarrow> byte list list \<Rightarrow> uint \<Rightarrow> 'a kproc_scheme \<Rightarrow>
    ((uint \<times> uint list) option, 'a kproc_scheme) outcome" where
  "exec_push pgdir argc [] sp s = Ret (Some (sp, [])) s"
| "exec_push pgdir argc (a # as) sp s =
     (if argc \<ge> MAXARG then Ret None s
      else
        let sp = (sp - of_nat (strlen a + 1)) AND NOT 3 in
        and_then (copyout pgdir sp (cstr a @ [0]) s) (\<lambda>r s.
        if sint r < 0 then Ret None s
        else and_then (exec_push pgdir (argc + 1) as sp s) (\<lambda>r s.
          case r of None \<Rightarrow> Ret None s | Some (sp', ptrs) \<Rightarrow> Ret (Some (sp', sp # ptrs)) s)))"

definition last_elem :: "byte list \<Rightarrow> byte list" where
  "last_elem path = rev (takeWhile (\<lambda>c. c \<noteq> slash) (rev (cstr path)))"

definition exec_commit :: "byte list \<Rightarrow> uint \<Rightarrow> uint \<Rightarrow> uint \<Rightarrow> uint \<Rightarrow> 'a kproc_scheme \<Rightarrow> (uint, 'a kproc_scheme) outcome" where
  "exec_commit path pgdir sz entry sp s =
     with_proc s (\<lambda>p.
     let oldpgdir = p_pgdir (proc_at p s);
         s = upd_proc p (\<lambda>x. x\<lparr>p_name := safestrcpy (p_name x) (last_elem path) 16, p_pgdir := pgdir, p_sz := sz,
               p_tf := (p_tf x)\<lparr>tf_eip := entry, tf_esp := sp\<rparr>\<rparr>) s in
     and_then (switchuvm p s) (\<lambda>_ s.
     and_then (freevm oldpgdir s) (\<lambda>_ s. Ret 0 s)))"

definition exec_stack :: "byte list \<Rightarrow> byte list list \<Rightarrow> uint \<Rightarrow> uint \<Rightarrow> uint \<Rightarrow> 'a kproc_scheme \<Rightarrow> (uint, 'a kproc_scheme) outcome" where
  "exec_stack path argv pgdir sz entry s =
     (let sz = PGROUNDUP sz in
      and_then (allocuvm pgdir sz (sz + of_nat PGSIZE) s) (\<lambda>sz s.
      if sz = 0 then exec_bad pgdir None s
      else
        and_then (exec_push pgdir 0 argv sz s) (\<lambda>r s.
        case r of None \<Rightarrow> exec_bad pgdir None s
        | Some (sp, ptrs) \<Rightarrow>
            let argc = of_nat (length ptrs);
                ustack = [0xffffffff, argc, sp - (argc + 1) * 4] @ ptrs @ [0];
                sp = sp - (3 + argc + 1) * 4 in
            and_then (copyout pgdir sp (enc_uints ustack) s) (\<lambda>r s.
            if sint r < 0 then exec_bad pgdir None s
            else exec_commit path pgdir sz entry sp s))))"

definition exec :: "(nat \<Rightarrow> 'a kproc_scheme devsw) \<Rightarrow> byte list \<Rightarrow> byte list \<Rightarrow> byte list list \<Rightarrow> 'a kproc_scheme \<Rightarrow>
    (uint, 'a kproc_scheme) outcome" where
  "exec dsw junk path argv s =
     and_then (namei path s) (\<lambda>oip s.
     case oip of None \<Rightarrow> Ret (-1) s
     | Some ip \<Rightarrow>
       and_then (ilock oip s) (\<lambda>_ s.
       and_then (readi dsw ip 0 52 s) (\<lambda>(r, b) s.
       if r < 52 then exec_bad 0 oip s
       else
         let elf = dec_elfhdr (put_at junk 0 b) in
         if elf_magic elf \<noteq> ELF_MAGIC then exec_bad 0 oip s
         else
           and_then (setupkvm s) (\<lambda>pgdir s.
           if pgdir = 0 then exec_bad 0 oip s
           else
             and_then (exec_load dsw (unat (elf_phnum elf)) ip pgdir (elf_phoff elf) 0 s) (\<lambda>sz s.
             case sz of None \<Rightarrow> exec_bad pgdir oip s
             | Some sz \<Rightarrow>
                 and_then (iunlockput oip s) (\<lambda>_ s. exec_stack path argv pgdir sz (elf_entry elf) s))))))"

end
