(* ===== verification/Syscall.thy ===== *)
theory Syscall
  imports Exec
begin

text \<open>
  Fetching the arguments of system calls (\<^verbatim>\<open>src/5/xv6/syscall.c\<close>) and the system calls on processes
  (\<^verbatim>\<open>src/5/xv6/sysproc.c\<close>).

  The result \<^verbatim>\<open>-1\<close> of the fetching routines is \<open>None\<close>.  A string is returned with its bytes: the process is
  the only one that could write them and it is in the kernel.
\<close>

section \<open>Arguments\<close>

text \<open>\<^verbatim>\<open>if(... < 0) return -1\<close>.\<close>

definition or_fail :: "('a option, 's) outcome \<Rightarrow> ('a \<Rightarrow> 's \<Rightarrow> (uint, 's) outcome) \<Rightarrow> (uint, 's) outcome" where
  "or_fail m f = and_then m (\<lambda>r s. case r of None \<Rightarrow> Ret (-1) s | Some x \<Rightarrow> f x s)"

definition fetchint :: "nat \<Rightarrow> uint \<Rightarrow> 'a kproc_scheme \<Rightarrow> (uint option, 'a kproc_scheme) outcome" where
  "fetchint p addr s =
     (let sz = p_sz (proc_at p s) in
      if addr \<ge> sz \<or> addr + 4 > sz then Ret None s
      else and_then (user_read addr 4 s) (\<lambda>b s. Ret (Some (of_le32 b)) s))"

text \<open>The string at \<open>a\<close>, of which at most \<open>n\<close> bytes belong to the process.\<close>

fun fetchstr_loop :: "nat \<Rightarrow> uint \<Rightarrow> byte list \<Rightarrow> 'a kproc_scheme \<Rightarrow> (byte list option, 'a kproc_scheme) outcome" where
  "fetchstr_loop 0 a str s = Ret None s"
| "fetchstr_loop (Suc n) a str s =
     and_then (user_read a 1 s) (\<lambda>b s.
     if hd b = 0 then Ret (Some str) s else fetchstr_loop n (a + 1) (str @ b) s)"

definition fetchstr :: "nat \<Rightarrow> uint \<Rightarrow> 'a kproc_scheme \<Rightarrow> (byte list option, 'a kproc_scheme) outcome" where
  "fetchstr p addr s =
     (let sz = p_sz (proc_at p s) in
      if addr \<ge> sz then Ret None s else fetchstr_loop (unat (sz - addr)) addr [] s)"

definition argint :: "uint \<Rightarrow> 'a kproc_scheme \<Rightarrow> (uint option, 'a kproc_scheme) outcome" where
  "argint n s = with_proc s (\<lambda>p. fetchint p (tf_esp (p_tf (proc_at p s)) + 4 + 4 * n) s)"

text \<open>\<open>sz\<close>, an \<^verbatim>\<open>int\<close>, is added as an unsigned number; the sum may wrap around.\<close>

definition argptr :: "uint \<Rightarrow> uint \<Rightarrow> 'a kproc_scheme \<Rightarrow> (uint option, 'a kproc_scheme) outcome" where
  "argptr n sz s =
     and_then (argint n s) (\<lambda>i s.
     case i of None \<Rightarrow> Ret None s
     | Some i \<Rightarrow>
         with_proc s (\<lambda>p.
         if i \<ge> p_sz (proc_at p s) \<or> i + sz > p_sz (proc_at p s) then Ret None s else Ret (Some i) s))"

definition argstr :: "uint \<Rightarrow> 'a kproc_scheme \<Rightarrow> (byte list option, 'a kproc_scheme) outcome" where
  "argstr n s =
     and_then (argint n s) (\<lambda>a s.
     case a of None \<Rightarrow> Ret None s | Some a \<Rightarrow> with_proc s (\<lambda>p. fetchstr p a s))"

section \<open>System calls on processes\<close>

definition sys_fork :: "'a kproc_scheme \<Rightarrow> (uint, 'a kproc_scheme) outcome" where
  "sys_fork s = fork s"

definition sys_exit :: "'a kproc_scheme \<Rightarrow> (uint, 'a kproc_scheme) outcome" where
  "sys_exit s = and_then (exit s :: (unit, 'a kproc_scheme) outcome) (\<lambda>_ s. Ret 0 s)"

definition sys_wait :: "'a kproc_scheme \<Rightarrow> (uint, 'a kproc_scheme) outcome" where
  "sys_wait s = wait s"

definition sys_kill :: "'a kproc_scheme \<Rightarrow> (uint, 'a kproc_scheme) outcome" where
  "sys_kill s = or_fail (argint 0 s) (\<lambda>pid s. kill pid s)"

definition sys_getpid :: "'a kproc_scheme \<Rightarrow> (uint, 'a kproc_scheme) outcome" where
  "sys_getpid s = with_proc s (\<lambda>p. Ret (p_pid (proc_at p s)) s)"

definition sys_sbrk :: "'a kproc_scheme \<Rightarrow> (uint, 'a kproc_scheme) outcome" where
  "sys_sbrk s =
     or_fail (argint 0 s) (\<lambda>n s.
     with_proc s (\<lambda>p.
     let addr = p_sz (proc_at p s) in
     and_then (growproc n s) (\<lambda>r s. if sint r < 0 then Ret (-1) s else Ret addr s)))"

text \<open>The loop of \<open>sys_sleep\<close> with the lock held; a process that is woken comes back here.  The comparison with
  \<open>n\<close>, an \<^verbatim>\<open>int\<close>, is unsigned.\<close>

definition sleep_round :: "uint \<Rightarrow> uint \<Rightarrow> 'a kproc_scheme \<Rightarrow> (uint, 'a kproc_scheme) outcome" where
  "sleep_round n ticks0 s =
     (if ticks s - ticks0 < n then
        if proc_killed s then and_then (lk_release LTicks s) (\<lambda>_ s. Ret (-1) s)
        else sleep ChTicks LTicks s
      else and_then (lk_release LTicks s) (\<lambda>_ s. Ret 0 s))"

definition sys_sleep :: "'a kproc_scheme \<Rightarrow> (uint, 'a kproc_scheme) outcome" where
  "sys_sleep s =
     or_fail (argint 0 s) (\<lambda>n s.
     and_then (lk_acquire LTicks s) (\<lambda>_ s. sleep_round n (ticks s) s))"

definition sys_uptime :: "'a kproc_scheme \<Rightarrow> (uint, 'a kproc_scheme) outcome" where
  "sys_uptime s =
     and_then (lk_acquire LTicks s) (\<lambda>_ s.
     let xticks = ticks s in and_then (lk_release LTicks s) (\<lambda>_ s. Ret xticks s))"

end
