(* ===== verification/Sysfile.thy ===== *)
theory Sysfile
  imports Syscall
begin

text \<open>
  The system calls on files: \<^verbatim>\<open>src/5/xv6/sysfile.c\<close>, with the open modes of \<^verbatim>\<open>fcntl.h\<close> and the
  layout of \<^verbatim>\<open>struct stat\<close> (\<^verbatim>\<open>stat.h\<close>).  Each call is the whole routine: it fetches its arguments
  from user memory and returns the word that goes to the caller.  The device switch is a parameter.
\<close>

section \<open>Descriptors\<close>

definition O_RDONLY :: uint where "O_RDONLY = 0"
definition O_WRONLY :: uint where "O_WRONLY = 1"
definition O_RDWR :: uint where "O_RDWR = 2"
definition O_EXTENT :: uint where "O_EXTENT = 4"
definition O_CREATE :: uint where "O_CREATE = 0x200"

definition argfd :: "uint \<Rightarrow> 'a kproc_scheme \<Rightarrow> ((nat \<times> nat) option, 'a kproc_scheme) outcome" where
  "argfd n s =
     and_then (argint n s) (\<lambda>fd s.
     case fd of None \<Rightarrow> Ret None s
     | Some fd \<Rightarrow>
         with_proc s (\<lambda>p.
         if sint fd < 0 \<or> sint fd \<ge> int NOFILE then Ret None s
         else case p_ofile (proc_at p s) ! nat (sint fd) of
             None \<Rightarrow> Ret None s
           | Some f \<Rightarrow> Ret (Some (nat (sint fd), f)) s))"

definition set_ofile :: "nat \<Rightarrow> nat \<Rightarrow> nat option \<Rightarrow> 'a kbase_scheme \<Rightarrow> 'a kbase_scheme" where
  "set_ofile p fd f s = upd_proc p (\<lambda>x. x\<lparr>p_ofile := (p_ofile x)[fd := f]\<rparr>) s"

text \<open>\<open>None\<close> when the process has no free descriptor.\<close>

definition fdalloc :: "nat \<Rightarrow> 'a kproc_scheme \<Rightarrow> (nat option, 'a kproc_scheme) outcome" where
  "fdalloc f s =
     with_proc s (\<lambda>p.
     case find (\<lambda>fd. p_ofile (proc_at p s) ! fd = None) [0..<NOFILE] of
       None \<Rightarrow> Ret None s
     | Some fd \<Rightarrow> Ret (Some fd) (set_ofile p fd (Some f) s))"

definition sys_dup :: "'a kproc_scheme \<Rightarrow> (uint, 'a kproc_scheme) outcome" where
  "sys_dup s =
     or_fail (argfd 0 s) (\<lambda>(_, f) s.
     or_fail (fdalloc f s) (\<lambda>fd s.
     and_then (filedup f s) (\<lambda>_ s. Ret (of_nat fd) s)))"

definition sys_read :: "(nat \<Rightarrow> 'a kproc_scheme devsw) \<Rightarrow> 'a kproc_scheme \<Rightarrow> (uint, 'a kproc_scheme) outcome" where
  "sys_read dsw s =
     or_fail (argfd 0 s) (\<lambda>(_, f) s.
     or_fail (argint 2 s) (\<lambda>n s.
     or_fail (argptr 1 n s) (\<lambda>p s. fileread dsw f p n s)))"

definition sys_write :: "(nat \<Rightarrow> 'a kproc_scheme devsw) \<Rightarrow> 'a kproc_scheme \<Rightarrow> (uint, 'a kproc_scheme) outcome" where
  "sys_write dsw s =
     or_fail (argfd 0 s) (\<lambda>(_, f) s.
     or_fail (argint 2 s) (\<lambda>n s.
     or_fail (argptr 1 n s) (\<lambda>p s. filewrite dsw f p n s)))"

definition sys_close :: "'a kproc_scheme \<Rightarrow> (uint, 'a kproc_scheme) outcome" where
  "sys_close s =
     or_fail (argfd 0 s) (\<lambda>(fd, f) s.
     with_proc s (\<lambda>p.
     and_then (fileclose f (set_ofile p fd None s)) (\<lambda>_ s. Ret 0 s)))"

definition sizeof_stat :: uint where "sizeof_stat = 72"

text \<open>The fields of \<^verbatim>\<open>struct stat\<close> at their offsets; the padding is not written.\<close>

definition write_stat :: "uint \<Rightarrow> stat \<Rightarrow> 'a kvm_scheme \<Rightarrow> (unit, 'a kvm_scheme) outcome" where
  "write_stat a st s =
     and_then (user_write a (le16 (st_type st)) s) (\<lambda>_ s.
     and_then (user_write (a + 4) (le32 (st_dev st) @ le32 (st_ino st) @ le16 (st_nlink st)) s) (\<lambda>_ s.
     user_write (a + 16) (le32 (st_size st) @ enc_uints (st_addrs st)) s))"

definition sys_fstat :: "'a kproc_scheme \<Rightarrow> (uint, 'a kproc_scheme) outcome" where
  "sys_fstat s =
     or_fail (argfd 0 s) (\<lambda>(_, f) s.
     or_fail (argptr 1 sizeof_stat s) (\<lambda>a s.
     and_then (filestat f s) (\<lambda>(r, st) s.
     case st of None \<Rightarrow> Ret r s | Some st \<Rightarrow> and_then (write_stat a st s) (\<lambda>_ s. Ret r s))))"

definition sys_lseek :: "'a kproc_scheme \<Rightarrow> (uint, 'a kproc_scheme) outcome" where
  "sys_lseek s =
     or_fail (argfd 0 s) (\<lambda>(_, f) s.
     or_fail (argint 1 s) (\<lambda>offset s. filelseek f offset s))"

section \<open>Names\<close>

abbreviation name_buf :: "byte list" where "name_buf \<equiv> replicate DIRSIZ 0"

text \<open>The exit \<^verbatim>\<open>bad\<close> of \<open>sys_link\<close>.\<close>

definition link_bad :: "nat \<Rightarrow> 'a kproc_scheme \<Rightarrow> (uint, 'a kproc_scheme) outcome" where
  "link_bad ip s =
     and_then (ilock (Some ip) s) (\<lambda>_ s.
     and_then (iupdate ip (upd_inode ip (\<lambda>x. x\<lparr>i_nlink := i_nlink x - 1\<rparr>) s)) (\<lambda>_ s.
     and_then (iunlockput (Some ip) s) (\<lambda>_ s. Ret (-1) s)))"

definition sys_link :: "(nat \<Rightarrow> 'a kproc_scheme devsw) \<Rightarrow> 'a kproc_scheme \<Rightarrow> (uint, 'a kproc_scheme) outcome" where
  "sys_link dsw s =
     or_fail (argstr 0 s) (\<lambda>old s.
     or_fail (argstr 1 s) (\<lambda>new s.
     or_fail (namei old s) (\<lambda>ip s.
     and_then (ilock (Some ip) s) (\<lambda>_ s.
     if i_type (icache s ! ip) = T_DIR then and_then (iunlockput (Some ip) s) (\<lambda>_ s. Ret (-1) s)
     else
       and_then (iupdate ip (upd_inode ip (\<lambda>x. x\<lparr>i_nlink := i_nlink x + 1\<rparr>) s)) (\<lambda>_ s.
       and_then (iunlock (Some ip) s) (\<lambda>_ s.
       and_then (nameiparent new name_buf s) (\<lambda>(dp, name) s.
       case dp of None \<Rightarrow> link_bad ip s
       | Some dp \<Rightarrow>
         and_then (ilock (Some dp) s) (\<lambda>_ s.
         and_then
           (if i_dev (icache s ! dp) \<noteq> i_dev (icache s ! ip) then Ret (-1) s
            else dirlink dsw dp name (i_inum (icache s ! ip)) s) (\<lambda>r s.
         and_then (iunlockput (Some dp) s) (\<lambda>_ s.
         if sint r < 0 then link_bad ip s
         else and_then (iput ip s) (\<lambda>_ s. Ret 0 s)))))))))))"

function isdirempty_loop :: "(nat \<Rightarrow> 'a kfs_scheme devsw) \<Rightarrow> nat \<Rightarrow> nat \<Rightarrow> nat \<Rightarrow> 'a kfs_scheme \<Rightarrow>
    (bool, 'a kfs_scheme) outcome" where
  "isdirempty_loop dsw dp sz off s =
     (if off < sz then
        and_then (readi dsw dp (of_nat off) 16 s) (\<lambda>(r, d) s.
        if r \<noteq> 16 then Panic ''isdirempty: readi''
        else if de_inum (get_dirent d 0) \<noteq> 0 then Ret False s
        else isdirempty_loop dsw dp sz (off + 16) s)
      else Ret True s)"
  by pat_completeness auto
termination
  by (relation "measure (\<lambda>(dsw, dp, sz, off, s). sz - off)") auto

declare isdirempty_loop.simps [simp del]

definition isdirempty :: "(nat \<Rightarrow> 'a kfs_scheme devsw) \<Rightarrow> nat \<Rightarrow> 'a kfs_scheme \<Rightarrow> (bool, 'a kfs_scheme) outcome" where
  "isdirempty dsw dp s = isdirempty_loop dsw dp (unat (i_size (icache s ! dp))) (2 * 16) s"

text \<open>\<open>sys_unlink\<close> once the entry of \<open>ip\<close> at \<open>off\<close> in \<open>dp\<close> may go.\<close>

definition unlink_entry :: "(nat \<Rightarrow> 'a kproc_scheme devsw) \<Rightarrow> nat \<Rightarrow> nat \<Rightarrow> uint \<Rightarrow> 'a kproc_scheme \<Rightarrow>
    (uint, 'a kproc_scheme) outcome" where
  "unlink_entry dsw dp ip off s =
     and_then (writei dsw dp (replicate 16 0) off 16 s) (\<lambda>r s.
     if r \<noteq> 16 then Panic ''unlink: writei''
     else
       and_then
         (if i_type (icache s ! ip) = T_DIR
          then iupdate dp (upd_inode dp (\<lambda>x. x\<lparr>i_nlink := i_nlink x - 1\<rparr>) s) else Ret () s) (\<lambda>_ s.
       and_then (iunlockput (Some dp) s) (\<lambda>_ s.
       and_then (iupdate ip (upd_inode ip (\<lambda>x. x\<lparr>i_nlink := i_nlink x - 1\<rparr>) s)) (\<lambda>_ s.
       and_then (iunlockput (Some ip) s) (\<lambda>_ s. Ret 0 s)))))"

definition sys_unlink :: "(nat \<Rightarrow> 'a kproc_scheme devsw) \<Rightarrow> 'a kproc_scheme \<Rightarrow> (uint, 'a kproc_scheme) outcome" where
  "sys_unlink dsw s =
     or_fail (argstr 0 s) (\<lambda>path s.
     and_then (nameiparent path name_buf s) (\<lambda>(dp, name) s.
     case dp of None \<Rightarrow> Ret (-1) s
     | Some dp \<Rightarrow>
       and_then (ilock (Some dp) s) (\<lambda>_ s.
       if namecmp name (bytes_of ''.'') = 0 \<or> namecmp name (bytes_of ''..'') = 0
       then and_then (iunlockput (Some dp) s) (\<lambda>_ s. Ret (-1) s)
       else
         and_then (dirlookup dp name s) (\<lambda>r s.
         case r of None \<Rightarrow> and_then (iunlockput (Some dp) s) (\<lambda>_ s. Ret (-1) s)
         | Some (ip, off) \<Rightarrow>
           and_then (ilock (Some ip) s) (\<lambda>_ s.
           if sint (i_nlink (icache s ! ip)) < 1 then Panic ''unlink: nlink < 1''
           else
             and_then (if i_type (icache s ! ip) = T_DIR then isdirempty dsw ip s else Ret True s) (\<lambda>ok s.
             if \<not> ok then
               and_then (iunlockput (Some ip) s) (\<lambda>_ s.
               and_then (iunlockput (Some dp) s) (\<lambda>_ s. Ret (-1) s))
             else unlink_entry dsw dp ip off s))))))"

section \<open>Creation\<close>

text \<open>The new inode \<open>ip\<close> gets its entries: \<^verbatim>\<open>.\<close> and \<^verbatim>\<open>..\<close> in a directory, and its name in \<open>dp\<close>.\<close>

definition create_dots :: "(nat \<Rightarrow> 'a kfs_scheme devsw) \<Rightarrow> nat \<Rightarrow> nat \<Rightarrow> 'a kfs_scheme \<Rightarrow> (unit, 'a kfs_scheme) outcome" where
  "create_dots dsw dp ip s =
     and_then (iupdate dp (upd_inode dp (\<lambda>x. x\<lparr>i_nlink := i_nlink x + 1\<rparr>) s)) (\<lambda>_ s.
     and_then (dirlink dsw ip (bytes_of ''.'') (i_inum (icache s ! ip)) s) (\<lambda>r s.
     if sint r < 0 then Panic ''create dots''
     else
       and_then (dirlink dsw ip (bytes_of ''..'') (i_inum (icache s ! dp)) s) (\<lambda>r s.
       if sint r < 0 then Panic ''create dots'' else Ret () s)))"

definition create :: "(nat \<Rightarrow> 'a kfs_scheme devsw) \<Rightarrow> byte list \<Rightarrow> ushort \<Rightarrow> ushort \<Rightarrow> ushort \<Rightarrow> 'a kfs_scheme \<Rightarrow>
    (nat option, 'a kfs_scheme) outcome" where
  "create dsw path ty major minor s =
     and_then (nameiparent path name_buf s) (\<lambda>(dp, name) s.
     case dp of None \<Rightarrow> Ret None s
     | Some dp \<Rightarrow>
       and_then (ilock (Some dp) s) (\<lambda>_ s.
       and_then (dirlookup dp name s) (\<lambda>r s.
       case r of
         Some (ip, _) \<Rightarrow>
           and_then (iunlockput (Some dp) s) (\<lambda>_ s.
           and_then (ilock (Some ip) s) (\<lambda>_ s.
           if ty = T_FILE \<and> i_type (icache s ! ip) = T_FILE then Ret (Some ip) s
           else and_then (iunlockput (Some ip) s) (\<lambda>_ s. Ret None s)))
       | None \<Rightarrow>
           and_then (ialloc (i_dev (icache s ! dp)) ty s) (\<lambda>ip s.
           and_then (ilock (Some ip) s) (\<lambda>_ s.
           and_then (iupdate ip (upd_inode ip (\<lambda>x. x\<lparr>i_major := major, i_minor := minor, i_nlink := 1\<rparr>) s)) (\<lambda>_ s.
           and_then (if ty = T_DIR then create_dots dsw dp ip s else Ret () s) (\<lambda>_ s.
           and_then (dirlink dsw dp name (i_inum (icache s ! ip)) s) (\<lambda>r s.
           if sint r < 0 then Panic ''create: dirlink''
           else and_then (iunlockput (Some dp) s) (\<lambda>_ s. Ret (Some ip) s)))))))))"

text \<open>The inode that \<open>sys_open\<close> opens, locked.\<close>

definition open_inode :: "(nat \<Rightarrow> 'a kproc_scheme devsw) \<Rightarrow> byte list \<Rightarrow> uint \<Rightarrow> 'a kproc_scheme \<Rightarrow>
    (nat option, 'a kproc_scheme) outcome" where
  "open_inode dsw path omode s =
     (if omode AND O_CREATE \<noteq> 0 then
        if omode AND O_EXTENT \<noteq> 0 then create dsw path T_EXTENT 0 0 s else create dsw path T_FILE 0 0 s
      else
        and_then (namei path s) (\<lambda>oip s.
        case oip of None \<Rightarrow> Ret None s
        | Some ip \<Rightarrow>
          and_then (ilock oip s) (\<lambda>_ s.
          if i_type (icache s ! ip) = T_DIR \<and> omode \<noteq> O_RDONLY
          then and_then (iunlockput oip s) (\<lambda>_ s. Ret None s) else Ret oip s)))"

definition sys_open :: "(nat \<Rightarrow> 'a kproc_scheme devsw) \<Rightarrow> 'a kproc_scheme \<Rightarrow> (uint, 'a kproc_scheme) outcome" where
  "sys_open dsw s =
     or_fail (argstr 0 s) (\<lambda>path s.
     or_fail (argint 1 s) (\<lambda>omode s.
     or_fail (open_inode dsw path omode s) (\<lambda>ip s.
     and_then (filealloc s) (\<lambda>f s.
     and_then (case f of None \<Rightarrow> Ret None s | Some f \<Rightarrow> fdalloc f s) (\<lambda>fd s.
     case (f, fd) of
       (Some f, Some fd) \<Rightarrow>
         and_then (iunlock (Some ip) s) (\<lambda>_ s.
         Ret (of_nat fd) (upd_file f (\<lambda>x. x\<lparr>f_type := FD_INODE, f_ip := Some ip, f_off := 0,
           f_readable := (omode AND O_WRONLY = 0),
           f_writable := (omode AND O_WRONLY \<noteq> 0 \<or> omode AND O_RDWR \<noteq> 0)\<rparr>) s))
     | _ \<Rightarrow>
         and_then (close_if f s) (\<lambda>_ s.
         and_then (iunlockput (Some ip) s) (\<lambda>_ s. Ret (-1) s)))))))"

definition sys_mkdir :: "(nat \<Rightarrow> 'a kproc_scheme devsw) \<Rightarrow> 'a kproc_scheme \<Rightarrow> (uint, 'a kproc_scheme) outcome" where
  "sys_mkdir dsw s =
     or_fail (argstr 0 s) (\<lambda>path s.
     or_fail (create dsw path T_DIR 0 0 s) (\<lambda>ip s.
     and_then (iunlockput (Some ip) s) (\<lambda>_ s. Ret 0 s)))"

definition sys_mknod :: "(nat \<Rightarrow> 'a kproc_scheme devsw) \<Rightarrow> 'a kproc_scheme \<Rightarrow> (uint, 'a kproc_scheme) outcome" where
  "sys_mknod dsw s =
     or_fail (argstr 0 s) (\<lambda>path s.
     or_fail (argint 1 s) (\<lambda>major s.
     or_fail (argint 2 s) (\<lambda>minor s.
     or_fail (create dsw path T_DEV (ucast major) (ucast minor) s) (\<lambda>ip s.
     and_then (iunlockput (Some ip) s) (\<lambda>_ s. Ret 0 s)))))"

definition sys_chdir :: "'a kproc_scheme \<Rightarrow> (uint, 'a kproc_scheme) outcome" where
  "sys_chdir s =
     or_fail (argstr 0 s) (\<lambda>path s.
     or_fail (namei path s) (\<lambda>ip s.
     and_then (ilock (Some ip) s) (\<lambda>_ s.
     if i_type (icache s ! ip) \<noteq> T_DIR then and_then (iunlockput (Some ip) s) (\<lambda>_ s. Ret (-1) s)
     else
       and_then (iunlock (Some ip) s) (\<lambda>_ s.
       with_proc s (\<lambda>p.
       case p_cwd (proc_at p s) of None \<Rightarrow> Panic ''null cwd''
       | Some cwd \<Rightarrow>
         and_then (iput cwd s) (\<lambda>_ s. Ret 0 (upd_proc p (\<lambda>x. x\<lparr>p_cwd := Some ip\<rparr>) s)))))))"

section \<open>exec and pipe\<close>

text \<open>The argument vector at \<open>uargv\<close>; \<open>n\<close> entries of the kernel's array are left.\<close>

fun exec_args :: "nat \<Rightarrow> nat \<Rightarrow> uint \<Rightarrow> 'a kproc_scheme \<Rightarrow> (byte list list option, 'a kproc_scheme) outcome" where
  "exec_args p 0 uargv s = Ret None s"
| "exec_args p (Suc n) uargv s =
     and_then (fetchint p uargv s) (\<lambda>uarg s.
     case uarg of None \<Rightarrow> Ret None s
     | Some uarg \<Rightarrow>
         if uarg = 0 then Ret (Some []) s
         else
           and_then (fetchstr p uarg s) (\<lambda>a s.
           case a of None \<Rightarrow> Ret None s
           | Some a \<Rightarrow>
               and_then (exec_args p n (uargv + 4) s) (\<lambda>as s.
               case as of None \<Rightarrow> Ret None s | Some as \<Rightarrow> Ret (Some (a # as)) s)))"

definition sys_exec :: "(nat \<Rightarrow> 'a kproc_scheme devsw) \<Rightarrow> byte list \<Rightarrow> 'a kproc_scheme \<Rightarrow> (uint, 'a kproc_scheme) outcome" where
  "sys_exec dsw junk s =
     or_fail (argstr 0 s) (\<lambda>path s.
     or_fail (argint 1 s) (\<lambda>uargv s.
     with_proc s (\<lambda>p.
     or_fail (exec_args p MAXARG uargv s) (\<lambda>argv s. exec dsw junk path argv s))))"

definition sys_pipe :: "'a kproc_scheme \<Rightarrow> (uint, 'a kproc_scheme) outcome" where
  "sys_pipe s =
     or_fail (argptr 0 8 s) (\<lambda>fd s.
     or_fail (pipealloc s) (\<lambda>(rf, wf) s.
     and_then (fdalloc rf s) (\<lambda>fd0 s.
     and_then (case fd0 of None \<Rightarrow> Ret None s | Some _ \<Rightarrow> fdalloc wf s) (\<lambda>fd1 s.
     case (fd0, fd1) of
       (Some fd0, Some fd1) \<Rightarrow>
         and_then (user_write fd (le32 (of_nat fd0) @ le32 (of_nat fd1)) s) (\<lambda>_ s. Ret 0 s)
     | _ \<Rightarrow>
         with_proc s (\<lambda>p.
         let s = (case fd0 of None \<Rightarrow> s | Some fd0 \<Rightarrow> set_ofile p fd0 None s) in
         and_then (fileclose rf s) (\<lambda>_ s.
         and_then (fileclose wf s) (\<lambda>_ s. Ret (-1) s)))))))"

end
