(* ===== verification/Kbd.thy ===== *)
theory Kbd
  imports CString
begin

text \<open>
  The keyboard driver: \<^verbatim>\<open>src/5/xv6/kbd.c\<close> with the tables of \<^verbatim>\<open>src/5/xv6/kbd.h\<close>.

  The modifier state \<^verbatim>\<open>shift\<close> is a word of flags.  \<open>kbd_key\<close> is what the driver does with one byte
  from the controller; \<open>kbdgetc\<close> takes it from the bytes that wait in the controller and returns \<^verbatim>\<open>-1\<close> when
  there are none.
\<close>

section \<open>Tables\<close>

definition SHIFT :: uint where "SHIFT = 1"
definition CTL :: uint where "CTL = 2"
definition ALT :: uint where "ALT = 4"
definition CAPSLOCK :: uint where "CAPSLOCK = 8"
definition NUMLOCK :: uint where "NUMLOCK = 16"
definition SCROLLLOCK :: uint where "SCROLLLOCK = 32"
definition E0ESC :: uint where "E0ESC = 64"

definition shiftcode :: "byte \<Rightarrow> uint" where
  "shiftcode d =
     (if d = 0x1D then CTL else if d = 0x2A then SHIFT else if d = 0x36 then SHIFT
      else if d = 0x38 then ALT else if d = 0x9D then CTL else if d = 0xB8 then ALT else 0)"

definition togglecode :: "byte \<Rightarrow> uint" where
  "togglecode d =
     (if d = 0x3A then CAPSLOCK else if d = 0x45 then NUMLOCK else if d = 0x46 then SCROLLLOCK else 0)"

text \<open>The special keys, the same in all three maps.\<close>

definition special_keys :: "byte \<Rightarrow> byte" where
  "special_keys d =
     (if d = 0xC8 then 0xE2 else if d = 0xD0 then 0xE3 else if d = 0xC9 then 0xE6 else if d = 0xD1 then 0xE7
      else if d = 0xCB then 0xE4 else if d = 0xCD then 0xE5 else if d = 0x97 then 0xE0 else if d = 0xCF then 0xE1
      else if d = 0xD2 then 0xE8 else if d = 0xD3 then 0xE9 else 0)"

definition normalkeys :: "byte list" where
  "normalkeys =
     [0, 0x1B] @ bytes_of ''1234567890-='' @ [8, 9] @
     bytes_of ''qwertyuiop[]'' @ [10, 0] @ bytes_of ''asdfghjkl;'' @
     [39, 96, 0, 92] @ bytes_of ''zxcvbnm,./'' @ [0] @ bytes_of ''*'' @
     [0] @ bytes_of '' '' @ replicate 13 0 @ bytes_of ''789-456+1230.''"

definition shiftkeys :: "byte list" where
  "shiftkeys =
     [0, 27] @ bytes_of ''!@#$%^&*()_+'' @ [8, 9] @
     bytes_of ''QWERTYUIOP{}'' @ [10, 0] @ bytes_of ''ASDFGHJKL:'' @
     [34, 126, 0, 124] @ bytes_of ''ZXCVBNM<>?'' @ [0] @ bytes_of ''*'' @
     [0] @ bytes_of '' '' @ replicate 13 0 @ bytes_of ''789-456+1230.''"

definition ctl :: "char \<Rightarrow> byte" where "ctl x = of_char x - 64"

definition ctlkeys :: "byte list" where
  "ctlkeys =
     replicate 16 0 @ map ctl ''QWERTYUIOP'' @ [0, 0, 13, 0] @ map ctl ''ASDFGHJKL'' @
     replicate 4 0 @ [92 - 64] @ map ctl ''ZXCVBNM'' @ [0, 0] @ [47 - 64] @ [0, 0]"

definition keymap :: "byte list \<Rightarrow> byte \<Rightarrow> byte \<Rightarrow> byte \<Rightarrow> byte" where
  "keymap keys enter kpdiv d =
     (if unat d < length keys then keys ! unat d
      else if d = 0x9C then enter else if d = 0xB5 then kpdiv else special_keys d)"

definition normalmap :: "byte \<Rightarrow> byte" where "normalmap = keymap normalkeys 10 47"
definition shiftmap :: "byte \<Rightarrow> byte" where "shiftmap = keymap shiftkeys 10 47"
definition ctlmap :: "byte \<Rightarrow> byte" where "ctlmap = keymap ctlkeys 13 (47 - 64)"

definition charcode :: "uint \<Rightarrow> byte \<Rightarrow> byte" where
  "charcode k = (if k = 0 then normalmap else if k = 1 then shiftmap else ctlmap)"

section \<open>The driver\<close>

definition swap_case :: "uint \<Rightarrow> uint" where
  "swap_case c = (if 97 \<le> c \<and> c \<le> 122 then c + (65 - 97) else if 65 \<le> c \<and> c \<le> 90 then c + (97 - 65) else c)"

definition kbd_key :: "uint \<Rightarrow> byte \<Rightarrow> uint \<times> uint" where
  "kbd_key shift data =
     (if data = 0xE0 then (shift OR E0ESC, 0)
      else if data AND 0x80 \<noteq> 0 then
        let data = (if shift AND E0ESC \<noteq> 0 then data else data AND 0x7F) in
        (shift AND NOT (shiftcode data OR E0ESC), 0)
      else
        let (data, shift) =
              (if shift AND E0ESC \<noteq> 0 then (data OR 0x80, shift AND NOT E0ESC) else (data, shift));
            shift = shift OR shiftcode data;
            shift = shift XOR togglecode data;
            c = ucast (charcode (shift AND (CTL OR SHIFT)) data);
            c = (if shift AND CAPSLOCK \<noteq> 0 then swap_case c else c) in
        (shift, c))"

definition kbdgetc :: "uint \<Rightarrow> byte list \<Rightarrow> int \<times> uint \<times> byte list" where
  "kbdgetc shift inp =
     (case inp of [] \<Rightarrow> (-1, shift, [])
      | d # inp \<Rightarrow> let (shift, c) = kbd_key shift d in (sint c, shift, inp))"

section \<open>Properties\<close>

lemmas kbd_flags = SHIFT_def CTL_def ALT_def CAPSLOCK_def NUMLOCK_def SCROLLLOCK_def E0ESC_def

lemma shiftcode_no_esc: "shiftcode d AND E0ESC = 0" and togglecode_no_esc: "togglecode d AND E0ESC = 0"
  by (simp_all add: shiftcode_def togglecode_def kbd_flags)

text \<open>The effect of an escape byte lasts for exactly one key: the byte \<^verbatim>\<open>0xE0\<close> sets the escape flag, and
  any other byte, a key pressed or released, leaves it clear.\<close>

theorem kbd_escape_once:
  "(fst (kbd_key shift data) AND E0ESC \<noteq> 0) = (data = 0xE0)"
proof -
  have bits: "(x OR y) AND E0ESC = (x AND E0ESC) OR (y AND E0ESC)"
    "(x XOR y) AND E0ESC = (x AND E0ESC) XOR (y AND E0ESC)" for x y :: uint
    by (rule bit_word_eqI; auto simp: bit_simps)+
  have clear: "(x AND NOT E0ESC) AND E0ESC = 0" "(x AND NOT y AND NOT E0ESC) AND E0ESC = 0" for x y :: uint
    by (rule bit_word_eqI; simp add: bit_simps)+
  show ?thesis
    by (simp add: kbd_key_def Let_def bits clear shiftcode_no_esc togglecode_no_esc E0ESC_def [THEN arg_cong, of "\<lambda>x. x = 0"])
qed

end
