(* ===== verification/Console.thy ===== *)
theory Console
  imports Proc Kbd
begin

text \<open>
  The console: \<^verbatim>\<open>src/5/xv6/console.c\<close>, the serial port of \<^verbatim>\<open>src/5/xv6/uart.c\<close> and \<open>procdump\<close> of
  \<^verbatim>\<open>src/5/xv6/proc.c\<close>.

  The screen is an array of cells, with the cursor position kept in the display controller; the serial port is the
  list of bytes sent.  Input editing works on a ring of 128 characters between the indices \<open>in_r\<close> (read),
  \<open>in_w\<close> (committed) and \<open>in_e\<close> (edited), 32-bit words that wrap around.

  An argument of \<open>cprintf\<close> is a word, with the string it leads to when it is used as a pointer.  \<open>consoleintr\<close> gets
  the list of characters that its source delivers before it returns a negative value.
\<close>

section \<open>State\<close>

definition INPUT_BUF :: nat where "INPUT_BUF = 128"
definition BACKSPACE :: uint where "BACKSPACE = 0x100"

record kcons = kproc +
  cons_locking :: bool
  panicked :: bool
  uart :: bool
  uart_out :: "byte list"
  crt :: "nat \<Rightarrow> ushort"
  crt_pos :: nat
  kbd_shift :: uint
  in_buf :: "byte list"
  in_r :: uint
  in_w :: uint
  in_e :: uint

section \<open>Output\<close>

definition uartputc :: "uint \<Rightarrow> 'a kcons_scheme \<Rightarrow> 'a kcons_scheme" where
  "uartputc c s = (if \<not> uart s then s else s\<lparr>uart_out := uart_out s @ [ucast c]\<rparr>)"

text \<open>The cursor position that \<open>cgaputc\<close> works out for a character, before scrolling.\<close>

definition cga_advance :: "uint \<Rightarrow> nat \<Rightarrow> nat" where
  "cga_advance c pos =
     (if c = 10 then pos + (80 - pos mod 80)
      else if c = BACKSPACE then pos - 1
      else pos + 1)"

text \<open>A cursor past the screen would make the length of the \<^verbatim>\<open>memset\<close> negative.\<close>

definition cgaputc :: "uint \<Rightarrow> 'a kcons_scheme \<Rightarrow> (unit, 'a kcons_scheme) outcome" where
  "cgaputc c s =
     (let pos = crt_pos s;
          m = (if c = 10 \<or> c = BACKSPACE then crt s else (crt s)(pos := ucast (c AND 0xff) OR 0x0700));
          pos = cga_advance c pos in
      if pos div 80 \<ge> 24 then
        if pos - 80 > 24 * 80 then Panic ''trap''
        else
          let m = (\<lambda>i. if i < 23 * 80 then m (i + 80) else m i);
              pos = pos - 80;
              m = (\<lambda>i. if pos \<le> i \<and> i < 24 * 80 then 0 else m i) in
          Ret () (s\<lparr>crt := m(pos := 0x20 OR 0x0700), crt_pos := pos mod 0x10000\<rparr>)
      else Ret () (s\<lparr>crt := m(pos := 0x20 OR 0x0700), crt_pos := pos mod 0x10000\<rparr>))"

definition consputc :: "uint \<Rightarrow> 'a kcons_scheme \<Rightarrow> (unit, 'a kcons_scheme) outcome" where
  "consputc c s =
     (if panicked s then Diverges
      else
        let s = (if c = BACKSPACE then uartputc 8 (uartputc 32 (uartputc 8 s)) else uartputc c s) in
        cgaputc c s)"

definition uartinit :: "'a kcons_scheme \<Rightarrow> 'a kcons_scheme" where
  "uartinit s = fold (\<lambda>c. uartputc (ucast c)) (bytes_of ''xv6...'' @ [10]) (s\<lparr>uart := True\<rparr>)"

section \<open>cprintf\<close>

definition digit :: "uint \<Rightarrow> byte" where
  "digit d = bytes_of ''0123456789abcdef'' ! unat d"

text \<open>The digits of \<open>x\<close>, least significant first, as the loop of \<open>printint\<close> puts them into its buffer.
  Its callers pass the bases 10 and 16.\<close>

function print_digits :: "uint \<Rightarrow> uint \<Rightarrow> byte list" where
  "print_digits base x =
     (if base < 2 then [digit (x mod base)]
      else digit (x mod base) # (if x div base \<noteq> 0 then print_digits base (x div base) else []))"
  by pat_completeness auto
termination
proof (relation "measure (\<lambda>(base, x). unat x)", goal_cases)
  case (2 base x)
  then have "unat x div unat base < unat x"
    by (intro div_less_dividend) (auto simp: word_less_nat_alt unat_div unat_eq_0 neq0_conv [symmetric] intro: ccontr)
  then show ?case by (simp add: unat_div)
qed simp

declare print_digits.simps [simp del]

definition printint_out :: "uint \<Rightarrow> uint \<Rightarrow> bool \<Rightarrow> byte list" where
  "printint_out xx base sign =
     (let neg = sign \<and> sint xx < 0; x = (if neg then - xx else xx) in
      rev (print_digits base x @ (if neg then [45] else [])))"

type_synonym carg = "uint \<times> byte list"

fun cprintf_out :: "byte list \<Rightarrow> carg list \<Rightarrow> byte list" where
  "cprintf_out [] as = []"
| "cprintf_out (c # fmt) as =
     (if c = 0 then []
      else if c \<noteq> 37 then c # cprintf_out fmt as
      else case fmt of [] \<Rightarrow> []
        | c # fmt \<Rightarrow>
            if c = 0 then []
            else if c = 100 then printint_out (fst (hd as)) 10 True @ cprintf_out fmt (tl as)
            else if c = 120 \<or> c = 112 then printint_out (fst (hd as)) 16 False @ cprintf_out fmt (tl as)
            else if c = 115 then
              (if fst (hd as) = 0 then bytes_of ''(null)'' else cstr (snd (hd as))) @ cprintf_out fmt (tl as)
            else if c = 37 then 37 # cprintf_out fmt as
            else 37 # c # cprintf_out fmt as)"

definition cprintf :: "byte list \<Rightarrow> carg list \<Rightarrow> 'a kcons_scheme \<Rightarrow> (unit, 'a kcons_scheme) outcome" where
  "cprintf fmt as s =
     (let locking = cons_locking s in
      and_then (if locking then lk_acquire LCons s else Ret () s) (\<lambda>_ s.
      and_then (for_each (\<lambda>c. consputc (ucast c)) (cprintf_out fmt as) s) (\<lambda>_ s.
      if locking then lk_release LCons s else Ret () s)))"

definition newline :: "byte list" where "newline = [10]"

definition state_name :: "procstate \<Rightarrow> byte list" where
  "state_name st = bytes_of
     (case st of UNUSED \<Rightarrow> ''unused'' | EMBRYO \<Rightarrow> ''embryo'' | SLEEPING \<Rightarrow> ''sleep '' | RUNNABLE \<Rightarrow> ''runble''
      | RUNNING \<Rightarrow> ''run   '' | ZOMBIE \<Rightarrow> ''zombie'')"

definition procdump :: "'a kcons_scheme \<Rightarrow> (unit, 'a kcons_scheme) outcome" where
  "procdump s =
     for_each (\<lambda>i s.
       let p = proc_at i s in
       if p_state p = UNUSED then Ret () s
       else
         and_then (cprintf (bytes_of ''%d %s %s'') [(p_pid p, []), (1, state_name (p_state p)), (1, p_name p)] s) (\<lambda>_ s.
         and_then
           (if p_state p = SLEEPING
            then for_each (\<lambda>pc. cprintf (bytes_of '' %p'') [(pc, [])])
              (takeWhile (\<lambda>pc. pc \<noteq> 0) (getcallerpcs (rd_word (pmem s)) (ctx_ebp (p_context p) + 8))) s
            else Ret () s) (\<lambda>_ s.
         cprintf newline [] s))) [0..<length (procs s)] s"

section \<open>Input\<close>

definition in_at :: "uint \<Rightarrow> 'a kcons_scheme \<Rightarrow> byte" where
  "in_at i s = in_buf s ! unat (i mod of_nat INPUT_BUF)"

text \<open>The loop of kill-line: back to the committed index, \<open>n\<close> characters away, or to the last newline.\<close>

fun kill_line_loop :: "nat \<Rightarrow> 'a kcons_scheme \<Rightarrow> (unit, 'a kcons_scheme) outcome" where
  "kill_line_loop 0 s = Ret () s"
| "kill_line_loop (Suc n) s =
     (if in_at (in_e s - 1) s \<noteq> 10
      then and_then (consputc BACKSPACE (s\<lparr>in_e := in_e s - 1\<rparr>)) (\<lambda>_ s. kill_line_loop n s)
      else Ret () s)"

definition kill_line :: "'a kcons_scheme \<Rightarrow> (unit, 'a kcons_scheme) outcome" where
  "kill_line s = kill_line_loop (unat (in_e s - in_w s)) s"

definition put_input :: "uint \<Rightarrow> 'a kcons_scheme \<Rightarrow> (unit, 'a kcons_scheme) outcome" where
  "put_input c s =
     (if c \<noteq> 0 \<and> in_e s - in_r s < of_nat INPUT_BUF then
        let c = (if c = 13 then 10 else c);
            s = s\<lparr>in_buf := (in_buf s)[unat (in_e s mod of_nat INPUT_BUF) := ucast c], in_e := in_e s + 1\<rparr> in
        and_then (consputc c s) (\<lambda>_ s.
        if c = 10 \<or> c = 4 \<or> in_e s = in_r s + of_nat INPUT_BUF
        then wakeup ChInput (s\<lparr>in_w := in_e s\<rparr>) else Ret () s)
      else Ret () s)"

definition console_key :: "uint \<Rightarrow> 'a kcons_scheme \<Rightarrow> (unit, 'a kcons_scheme) outcome" where
  "console_key c s =
     (if c = 16 then procdump s
      else if c = 21 then kill_line s
      else if c = 8 \<or> c = 127 then
        if in_e s \<noteq> in_w s then consputc BACKSPACE (s\<lparr>in_e := in_e s - 1\<rparr>) else Ret () s
      else put_input c s)"

definition consoleintr :: "uint list \<Rightarrow> 'a kcons_scheme \<Rightarrow> (unit, 'a kcons_scheme) outcome" where
  "consoleintr cs s =
     and_then (lk_acquire LInput s) (\<lambda>_ s.
     and_then (for_each console_key cs s) (\<lambda>_ s. lk_release LInput s))"

text \<open>The reader, with the lock held and \<open>n\<close> characters to go; woken from its sleep it continues here.\<close>

fun consoleread_loop :: "nat \<Rightarrow> nat \<Rightarrow> nat \<Rightarrow> byte list \<Rightarrow> 'a kcons_scheme \<Rightarrow> (uint \<times> byte list, 'a kcons_scheme) outcome" where
  "consoleread_loop ip target 0 out s =
     and_then (lk_release LInput s) (\<lambda>_ s.
     and_then (ilock (Some ip) s) (\<lambda>_ s. Ret (of_nat target, out) s))"
| "consoleread_loop ip target (Suc n) out s =
     (if in_r s = in_w s then
        if proc_killed s then
          and_then (lk_release LInput s) (\<lambda>_ s. and_then (ilock (Some ip) s) (\<lambda>_ s. Ret (-1, out) s))
        else sleep ChInput LInput s
      else
        let c = in_at (in_r s) s; s' = s\<lparr>in_r := in_r s + 1\<rparr> in
        if c = 4 then
          and_then (lk_release LInput (if Suc n < target then s else s')) (\<lambda>_ s.
          and_then (ilock (Some ip) s) (\<lambda>_ s. Ret (of_nat (target - Suc n), out) s))
        else if c = 10 then
          and_then (lk_release LInput s') (\<lambda>_ s.
          and_then (ilock (Some ip) s) (\<lambda>_ s. Ret (of_nat (target - n), out @ [c]) s))
        else consoleread_loop ip target n (out @ [c]) s')"

text \<open>A request of no or of a negative number of bytes reads nothing and returns \<^verbatim>\<open>target - n\<close>, which is 0.\<close>

definition consoleread :: "nat \<Rightarrow> uint \<Rightarrow> 'a kcons_scheme \<Rightarrow> (uint \<times> byte list, 'a kcons_scheme) outcome" where
  "consoleread ip n s =
     and_then (iunlock (Some ip) s) (\<lambda>_ s.
     and_then (lk_acquire LInput s) (\<lambda>_ s.
     if sint n \<le> 0 then
       and_then (lk_release LInput s) (\<lambda>_ s. and_then (ilock (Some ip) s) (\<lambda>_ s. Ret (0, []) s))
     else consoleread_loop ip (unat n) (unat n) [] s))"

definition consolewrite :: "nat \<Rightarrow> byte list \<Rightarrow> uint \<Rightarrow> 'a kcons_scheme \<Rightarrow> (uint, 'a kcons_scheme) outcome" where
  "consolewrite ip buf n s =
     and_then (iunlock (Some ip) s) (\<lambda>_ s.
     and_then (lk_acquire LCons s) (\<lambda>_ s.
     and_then (for_each (\<lambda>c. consputc (ucast c)) (take (nat (sint n)) buf) s) (\<lambda>_ s.
     and_then (lk_release LCons s) (\<lambda>_ s.
     and_then (ilock (Some ip) s) (\<lambda>_ s. Ret n s)))))"

definition CONSOLE :: nat where "CONSOLE = 1"

text \<open>The device switch after \<open>consoleinit\<close>: only the console has a driver.\<close>

definition devsw_console :: "nat \<Rightarrow> 'a kcons_scheme devsw" where
  "devsw_console i =
     (if i = CONSOLE then \<lparr>dev_read = Some consoleread, dev_write = Some consolewrite\<rparr>
      else \<lparr>dev_read = None, dev_write = None\<rparr>)"

definition consoleinit :: "'a kcons_scheme \<Rightarrow> 'a kcons_scheme" where
  "consoleinit s = s\<lparr>cons_locking := True\<rparr>"

text \<open>The two sources of characters.  Bytes that wait in the keyboard controller are translated in turn.\<close>

fun kbd_chars :: "uint \<Rightarrow> byte list \<Rightarrow> uint list \<times> uint" where
  "kbd_chars shift [] = ([], shift)"
| "kbd_chars shift (d # ds) =
     (let (shift, c) = kbd_key shift d; (cs, shift) = kbd_chars shift ds in (c # cs, shift))"

definition kbdintr :: "byte list \<Rightarrow> 'a kcons_scheme \<Rightarrow> (unit, 'a kcons_scheme) outcome" where
  "kbdintr ds s =
     (let (cs, shift) = kbd_chars (kbd_shift s) ds in consoleintr cs (s\<lparr>kbd_shift := shift\<rparr>))"

definition uartintr :: "byte list \<Rightarrow> 'a kcons_scheme \<Rightarrow> (unit, 'a kcons_scheme) outcome" where
  "uartintr ds s = consoleintr (if uart s then map ucast ds else []) s"

section \<open>The screen\<close>

definition screen_ok :: "'a kcons_scheme \<Rightarrow> bool" where
  "screen_ok s \<longleftrightarrow> \<not> panicked s \<and> crt_pos s < 24 * 80"

text \<open>Everything but the screen and the serial line.\<close>

definition noscreen :: "'a kcons_scheme \<Rightarrow> 'a kcons_scheme" where
  "noscreen s = s\<lparr>uart_out := [], crt := \<lambda>_. 0, crt_pos := 0\<rparr>"

lemma uartputc_simps [simp]: "noscreen (uartputc c s) = noscreen s" "crt (uartputc c s) = crt s" "crt_pos (uartputc c s) = crt_pos s"
  "panicked (uartputc c s) = panicked s"
  by (simp_all add: uartputc_def noscreen_def)

lemma cga_advance_bound: "pos < 24 * 80 \<Longrightarrow> cga_advance c pos \<le> 24 * 80"
proof -
  assume p: "pos < 24 * 80"
  have "pos div 80 < 24" using p by (simp add: less_mult_imp_div_less)
  then have "(pos div 80 + 1) * 80 \<le> 24 * 80" by (intro mult_le_mono1) simp
  moreover have "pos + (80 - pos mod 80) = (pos div 80 + 1) * 80" using div_mult_mod_eq [of pos 80] mod_less_divisor [of 80 pos, OF zero_less_numeral] unfolding add_mult_distrib by linarith
  ultimately show ?thesis using p by (auto simp: cga_advance_def)
qed

lemma cgaputc_spec:
  assumes "crt_pos s < 24 * 80"
  shows "returns (cgaputc c s) (\<lambda>_ t. crt_pos t < 24 * 80 \<and> noscreen t = noscreen s \<and> (\<forall>i \<ge> 24 * 80. crt t i = crt s i))"
proof -
  let ?p = "cga_advance c (crt_pos s)"
  have b: "?p \<le> 1920" using cga_advance_bound [OF assms, of c] by simp
  show ?thesis
  proof (cases "?p div 80 \<ge> 24")
    case True
    then have "?p = 1920" using b by simp
    then show ?thesis using assms by (simp add: cgaputc_def Let_def noscreen_def)
  next
    case False
    then have "?p < 1920" by simp
    then show ?thesis using assms False by (simp add: cgaputc_def Let_def noscreen_def)
  qed
qed

lemma consputc_spec:
  assumes "screen_ok s"
  shows "returns (consputc c s) (\<lambda>_ t. screen_ok t \<and> noscreen t = noscreen s \<and> (\<forall>i \<ge> 24 * 80. crt t i = crt s i))"
proof -
  let ?s = "if c = BACKSPACE then uartputc 8 (uartputc 32 (uartputc 8 s)) else uartputc c s"
  have s: "crt_pos ?s < 24 * 80" "noscreen ?s = noscreen s" "crt ?s = crt s" using assms by (simp_all add: screen_ok_def)
  have p: "panicked t = panicked s" if "noscreen t = noscreen s" for t :: "'a kcons_scheme"
    using arg_cong [OF that, of panicked] by (simp add: noscreen_def)
  have "returns (cgaputc c ?s) (\<lambda>_ t. screen_ok t \<and> noscreen t = noscreen s \<and> (\<forall>i \<ge> 24 * 80. crt t i = crt s i))"
  proof (rule returns_mono [OF cgaputc_spec [OF s(1)]], elim conjE)
    fix u and t :: "'a kcons_scheme"
    assume t: "crt_pos t < 24 * 80" "noscreen t = noscreen ?s" "\<forall>i \<ge> 24 * 80. crt t i = crt ?s i"
    have n: "noscreen t = noscreen s" using t(2) s(2) by (rule trans)
    then show "screen_ok t \<and> noscreen t = noscreen s \<and> (\<forall>i \<ge> 24 * 80. crt t i = crt s i)"
      using t(1,3) p [OF n] assms unfolding s(3) by (simp add: screen_ok_def)
  qed
  then show ?thesis using assms by (simp add: consputc_def screen_ok_def Let_def)
qed

lemma puts_spec:
  assumes "screen_ok s"
  shows "returns (for_each (\<lambda>c. consputc (f c)) cs s) (\<lambda>_ t. screen_ok t \<and> noscreen t = noscreen s \<and> (\<forall>i \<ge> 24 * 80. crt t i = crt s i))"
  using assms
proof (induction cs arbitrary: s)
  case (Cons c cs)
  show ?case unfolding for_each.simps
    by (rule returns_bind [OF consputc_spec [OF Cons.prems]]) (auto intro: returns_mono [OF Cons.IH])
qed simp

lemma cprintf_spec:
  fixes s :: "'a kcons_scheme"
  assumes "screen_ok s" and "LCons \<notin> held s"
  shows "returns (cprintf fmt as s) (\<lambda>_ t. screen_ok t \<and> noscreen t = noscreen s \<and> (\<forall>i \<ge> 24 * 80. crt t i = crt s i))"
proof (cases "cons_locking s")
  case True
  let ?s = "s\<lparr>held := insert LCons (held s)\<rparr>"
  have "screen_ok ?s" using assms(1) by (simp add: screen_ok_def)
  then have "returns (for_each (\<lambda>c. consputc (ucast c)) (cprintf_out fmt as) ?s)
      (\<lambda>_ t. screen_ok t \<and> noscreen t = noscreen ?s \<and> (\<forall>i \<ge> 24 * 80. crt t i = crt ?s i))" by (rule puts_spec)
  then have "returns (and_then (for_each (\<lambda>c. consputc (ucast c)) (cprintf_out fmt as) ?s) (\<lambda>_ t. lk_release LCons t))
      (\<lambda>_ t. screen_ok t \<and> noscreen t = noscreen s \<and> (\<forall>i \<ge> 24 * 80. crt t i = crt s i))"
  proof (rule returns_bind, elim conjE)
    fix u t assume t: "screen_ok t" "noscreen t = noscreen ?s" "\<forall>i \<ge> 24 * 80. crt t i = crt ?s i"
    have h: "held t = insert LCons (held s)" using arg_cong [OF t(2), of held] by (simp add: noscreen_def)
    have "noscreen (t\<lparr>held := held s\<rparr>) = (noscreen t)\<lparr>held := held s\<rparr>" by (simp add: noscreen_def)
    also have "\<dots> = noscreen s" unfolding t(2) by (simp add: noscreen_def)
    finally show "returns (lk_release LCons t) (\<lambda>_ t. screen_ok t \<and> noscreen t = noscreen s \<and> (\<forall>i \<ge> 24 * 80. crt t i = crt s i))"
      using t h assms(2) by (simp add: screen_ok_def)
  qed
  then show ?thesis using True assms(2) by (simp add: cprintf_def Let_def)
next
  case False
  then show ?thesis using puts_spec [OF assms(1), of ucast "cprintf_out fmt as"]
    by (auto simp: cprintf_def Let_def screen_ok_def elim!: returns_mono)
qed

text \<open>C27: whatever is printed, the cursor stays on the first 24 lines of the screen and no cell behind them is written;
  \<open>cprintf\<close> returns and gives the console lock back.\<close>

theorem cprintf_on_screen:
  fixes s :: "'a kcons_scheme"
  assumes "screen_ok s" and "LCons \<notin> held s"
  shows "returns (cprintf fmt as s) (\<lambda>_ t. crt_pos t < 24 * 80 \<and> noscreen t = noscreen s \<and> (\<forall>i \<ge> 24 * 80. crt t i = crt s i))"
  by (rule returns_mono [OF cprintf_spec [OF assms]]) (simp add: screen_ok_def)

definition bare_cons :: kcons where
  "bare_cons = kproc.extend bare_proc (kcons.fields True False True [] (\<lambda>_. 0x0720) 1919 0 (replicate INPUT_BUF 0) 0 0 0)"

lemma bare_cons_simps [simp]: "held bare_cons = {}" "procs bare_cons = replicate NPROC zero_proc" "crt_pos bare_cons = 1919"
  "panicked bare_cons = False" "in_r bare_cons = 0" "in_w bare_cons = 0" "in_e bare_cons = 0" "length (in_buf bare_cons) = INPUT_BUF"
  by (simp_all add: bare_cons_def kproc.defs kcons.defs bare_proc_def bare_pipe_def bare_mem_def kvm.defs kmem.defs kpipe.defs kfile.defs)

theorem cprintf_on_screen_witness:
  "returns (cprintf (bytes_of ''x%d'') [(5, [])] bare_cons) (\<lambda>_ t. crt_pos t < 24 * 80)"
  by (rule returns_mono [OF cprintf_on_screen]) (simp_all add: screen_ok_def)

section \<open>Numbers\<close>

text \<open>The value of a string of digits in a base, as \<open>atoi\<close> would read it.\<close>

definition digit_val :: "byte \<Rightarrow> nat" where
  "digit_val b = (if b \<ge> 97 then unat b - 87 else unat b - 48)"

definition digits_val :: "nat \<Rightarrow> byte list \<Rightarrow> nat" where
  "digits_val base ds = foldl (\<lambda>n d. n * base + digit_val d) 0 ds"

lemma digit_val_digit: "unat d < 16 \<Longrightarrow> digit_val (digit d) = unat d"
proof -
  assume "unat d < 16"
  then have "unat d \<in> set [0..<16]" by simp
  moreover have "\<forall>i \<in> set [0..<16]. digit_val (bytes_of ''0123456789abcdef'' ! i) = i" by code_simp
  ultimately show ?thesis by (simp only: digit_def)
qed

lemma print_digits_val:
  assumes "2 \<le> unat base" and "unat base \<le> 16"
  shows "digits_val (unat base) (rev (print_digits base x)) = unat x"
proof (induction "unat x" arbitrary: x rule: less_induct)
  case less
  have b: "\<not> base < 2" using assms(1) by (simp add: word_less_nat_alt)
  have m: "unat (x mod base) = unat x mod unat base" "unat (x div base) = unat x div unat base" by (simp_all add: unat_mod unat_div)
  have "unat x mod unat base < unat base" using assms(1) by simp
  then have d: "digit_val (digit (x mod base)) = unat x mod unat base" using m assms(2) by (simp add: digit_val_digit)
  have z: "x div base = 0 \<longleftrightarrow> unat x div unat base = 0" using m(2) by (simp add: unat_eq_0 [symmetric])
  show ?case
  proof (cases "x div base = 0")
    case True
    then have "unat x mod unat base = unat x" using z by (simp add: div_eq_0_iff) (auto simp: assms)
    then show ?thesis using True b d by (subst print_digits.simps) (simp add: digits_val_def)
  next
    case False
    then have "unat x \<noteq> 0" by (auto simp: unat_eq_0)
    then have "unat (x div base) < unat x" using m(2) assms(1) by simp
    from less [OF this] show ?thesis using False b d m(2) by (subst print_digits.simps) (simp add: digits_val_def)
  qed
qed

lemma print_digits_length:
  assumes "2 \<le> unat base" and "unat x < unat base ^ n" and "0 < n"
  shows "length (print_digits base x) \<le> n"
  using assms
proof (induction n arbitrary: x)
  case (Suc n)
  have b: "\<not> base < 2" using assms(1) by (simp add: word_less_nat_alt)
  show ?case
  proof (cases "x div base = 0")
    case True
    then show ?thesis using b by (subst print_digits.simps) simp
  next
    case False
    have l: "unat (x div base) < unat base ^ n" using Suc.prems(1,2) by (simp add: unat_div less_mult_imp_div_less mult.commute)
    then have "n \<noteq> 0" using False by (cases n) (auto simp: unat_eq_0)
    then show ?thesis using Suc.IH [OF Suc.prems(1) l] False b by (subst print_digits.simps) simp
  qed
qed simp

text \<open>C28: \<open>printint\<close> prints a number so that it can be read back.  For the bases 10 and 16 the digits denote the number, with
  a minus sign in front of a negative one, and with it they fit into the buffer of 16 bytes.\<close>

theorem printint_reads_back:
  assumes "base = 10 \<or> base = 16"
  shows "length (printint_out xx base sign) \<le> 16 \<and>
    (if sign \<and> sint xx < 0
     then hd (printint_out xx base sign) = 45 \<and> - int (digits_val (unat base) (tl (printint_out xx base sign))) = sint xx
     else digits_val (unat base) (printint_out xx base sign) = unat xx)"
proof -
  have b: "2 \<le> unat base" "unat base \<le> 16" using assms by auto
  have "unat base ^ 10 \<ge> 10 ^ 10" using assms by (auto intro!: power_mono)
  then have "unat x < unat base ^ 10" for x :: uint using unat_lt [of x] by simp
  then have l: "length (print_digits base x) \<le> 10" for x using b by (intro print_digits_length) auto
  have n: "- int (unat (- xx)) = sint xx" if "sint xx < 0"
  proof -
    have g: "2 ^ 31 \<le> unat xx" using that sint_small [of "unat xx"] by (cases "unat xx < 2 ^ 31") auto
    have s: "sint xx = int (unat xx) - 2 ^ 32" using g by (rule sint_neg)
    have z: "0 < unat xx" using g by simp
    have "unat (0 - xx) = 2 ^ 32 - unat xx" using z unfolding unat_sub_if' by (auto simp: unat_gt_0)
    then have "unat (- xx) = 2 ^ 32 - unat xx" by simp
    then show ?thesis using s unat_lt [of xx] by simp
  qed
  show ?thesis using l [of xx] l [of "- xx"] n print_digits_val [OF b] by (auto simp: printint_out_def Let_def)
qed

theorem printint_reads_back_witness: "printint_out (- 120) 10 True = bytes_of ''-120'' \<and> digits_val 10 (tl (printint_out (- 120) 10 True)) = 120"
proof -
  have s: "sint (- 120 :: uint) = - 120" by simp
  have "- int (digits_val (unat (10 :: uint)) (tl (printint_out (- 120) 10 True))) = sint (- 120 :: uint)"
    using printint_reads_back [of 10 "- 120" True] s by simp
  then have "digits_val 10 (tl (printint_out (- 120) 10 True)) = 120" by simp
  moreover have "printint_out (- 120) 10 True = bytes_of ''-120''" by code_simp
  ultimately show ?thesis by simp
qed

section \<open>The input ring\<close>

definition input_ok :: "'a kcons_scheme \<Rightarrow> bool" where
  "input_ok s \<longleftrightarrow> length (in_buf s) = INPUT_BUF \<and> in_w s - in_r s \<le> in_e s - in_r s \<and> in_e s - in_r s \<le> of_nat INPUT_BUF"

lemma noscreen_fields:
  assumes "noscreen t = noscreen s"
  shows "in_buf t = in_buf s" "in_r t = in_r s" "in_w t = in_w s" "in_e t = in_e s" "held t = held s" "procs t = procs s" "pmem t = pmem s"
    "input_ok t = input_ok s"
proof -
  show "in_buf t = in_buf s" "in_r t = in_r s" "in_w t = in_w s" "in_e t = in_e s" "held t = held s" "procs t = procs s" "pmem t = pmem s"
    using arg_cong [OF assms, of in_buf] arg_cong [OF assms, of in_r] arg_cong [OF assms, of in_w] arg_cong [OF assms, of in_e]
      arg_cong [OF assms, of held] arg_cong [OF assms, of procs] arg_cong [OF assms, of pmem] by (simp_all add: noscreen_def)
  then show "input_ok t = input_ok s" by (simp add: input_ok_def)
qed

definition shows_only :: "'a kcons_scheme \<Rightarrow> 'b \<Rightarrow> 'a kcons_scheme \<Rightarrow> bool" where
  "shows_only s r t \<longleftrightarrow> screen_ok t \<and> noscreen t = noscreen s"

lemma for_each_shows:
  assumes "screen_ok s" and "LCons \<notin> held s"
    and "\<And>x t. screen_ok t \<Longrightarrow> LCons \<notin> held t \<Longrightarrow> returns (f x t) (shows_only t)"
  shows "returns (for_each f xs s) (shows_only s)"
  using assms(1,2)
proof (induction xs arbitrary: s)
  case (Cons x xs)
  show ?case unfolding for_each.simps
  proof (rule returns_bind [OF assms(3) [OF Cons.prems]])
    fix r t assume t: "shows_only s r t"
    then have "LCons \<notin> held t" "screen_ok t" using noscreen_fields(5) [of t s] Cons.prems(2) by (auto simp: shows_only_def)
    then show "returns (for_each f xs t) (shows_only s)"
      using t by (intro returns_mono [OF Cons.IH]) (auto simp: shows_only_def)
  qed
qed (simp add: shows_only_def)

lemma cprintf_shows: "screen_ok s \<Longrightarrow> LCons \<notin> held s \<Longrightarrow> returns (cprintf fmt as s) (shows_only s)"
  by (rule returns_mono [OF cprintf_spec]) (auto simp: shows_only_def)

lemma shows_bind:
  fixes m :: "('b, 'a kcons_scheme) outcome"
  assumes "returns m (shows_only s)" and "LCons \<notin> held s"
    and "\<And>r t. shows_only s r t \<Longrightarrow> screen_ok t \<Longrightarrow> LCons \<notin> held t \<Longrightarrow> returns (f r t) (shows_only t)"
  shows "returns (and_then m f) (shows_only s)"
proof (rule returns_bind [OF assms(1)])
  fix r :: 'b and t assume t: "shows_only s r t"
  then have "screen_ok t" "LCons \<notin> held t" using assms(2) noscreen_fields(5) [of t s] by (auto simp: shows_only_def)
  from assms(3) [OF t this] show "returns (f r t) (shows_only s)"
    by (rule returns_mono) (use t in \<open>simp add: shows_only_def\<close>)
qed

lemma procdump_shows: "screen_ok s \<Longrightarrow> LCons \<notin> held s \<Longrightarrow> returns (procdump s) (shows_only s)"
  unfolding procdump_def
proof (rule for_each_shows)
  fix i and t :: "'a kcons_scheme"
  let ?p = "proc_at i t"
  assume t: "screen_ok t" "LCons \<notin> held t"
  show "returns (let p = ?p in
       if p_state p = UNUSED then Ret () t
       else
         and_then (cprintf (bytes_of ''%d %s %s'') [(p_pid p, []), (1, state_name (p_state p)), (1, p_name p)] t) (\<lambda>_ s.
         and_then
           (if p_state p = SLEEPING
            then for_each (\<lambda>pc. cprintf (bytes_of '' %p'') [(pc, [])])
              (takeWhile (\<lambda>pc. pc \<noteq> 0) (getcallerpcs (rd_word (pmem s)) (ctx_ebp (p_context p) + 8))) s
            else Ret () s) (\<lambda>_ s.
         cprintf newline [] s))) (shows_only t)"
  proof (cases "p_state ?p = UNUSED")
    case False
    show ?thesis unfolding Let_def if_not_P [OF False]
      by (intro shows_bind [OF cprintf_shows] shows_bind cprintf_shows t) (auto intro!: for_each_shows cprintf_shows simp: shows_only_def)
  qed (use t in \<open>simp add: shows_only_def\<close>)
qed

text \<open>What a key leaves behind.\<close>

definition key_post :: "'a kcons_scheme \<Rightarrow> 'b \<Rightarrow> 'a kcons_scheme \<Rightarrow> bool" where
  "key_post s r t \<longleftrightarrow> screen_ok t \<and> input_ok t \<and> in_r t = in_r s \<and> held t = held s"

lemma consputc_input:
  assumes "screen_ok s" and "input_ok s"
  shows "returns (consputc c s) (\<lambda>r t. key_post s r t \<and> in_w t = in_w s \<and> in_e t = in_e s)"
proof (rule returns_mono [OF consputc_spec [OF assms(1)]], elim conjE)
  fix r t assume t: "screen_ok t" "noscreen t = noscreen s"
  show "key_post s r t \<and> in_w t = in_w s \<and> in_e t = in_e s"
    using t noscreen_fields [OF t(2)] assms(2) by (simp add: key_post_def)
qed

lemma erase_input:
  assumes "input_ok s" and "in_e s \<noteq> in_w s"
  shows "input_ok (s\<lparr>in_e := in_e s - 1\<rparr>)" "unat (in_e s - 1 - in_w s) = unat (in_e s - in_w s) - 1"
proof -
  let ?w = "in_w s - in_r s" and ?e = "in_e s - in_r s"
  have le: "unat ?w \<le> unat ?e" "unat ?e \<le> 128" using assms(1) by (simp_all add: input_ok_def INPUT_BUF_def word_le_nat_alt)
  have "?w \<noteq> ?e" using assms(2) by simp
  then have "unat ?w \<noteq> unat ?e" by (metis unsigned_word_eqI)
  then have l: "unat ?w < unat ?e" using le by simp
  then have u: "unat (?e - 1) = unat ?e - 1" by (simp add: unat_sub word_le_nat_alt)
  have "in_e s - 1 - in_r s = ?e - 1" by simp
  then have "unat (in_e s - 1 - in_r s) = unat ?e - 1" using u by metis
  then show "input_ok (s\<lparr>in_e := in_e s - 1\<rparr>)" using assms(1) l le by (auto simp: input_ok_def word_le_nat_alt INPUT_BUF_def)
  have "in_e s - in_w s \<noteq> 0" using assms(2) by simp
  then have "0 < unat (in_e s - in_w s)" by (simp add: unat_gt_0)
  moreover have "in_e s - 1 - in_w s = in_e s - in_w s - 1" by simp
  moreover have "unat (in_e s - in_w s - 1) = unat (in_e s - in_w s) - 1" if "0 < unat (in_e s - in_w s)"
    using that by (simp add: unat_sub word_le_nat_alt)
  ultimately show "unat (in_e s - 1 - in_w s) = unat (in_e s - in_w s) - 1" by metis
qed

lemma key_post_trans: "key_post s r t \<Longrightarrow> key_post t r' u \<Longrightarrow> key_post s r'' u"
  by (simp add: key_post_def)

lemma kill_line_loop_input:
  assumes "screen_ok s" and "input_ok s" and "n = unat (in_e s - in_w s)"
  shows "returns (kill_line_loop n s) (key_post s)"
  using assms
proof (induction n arbitrary: s)
  case (Suc n)
  let ?t = "s\<lparr>in_e := in_e s - 1\<rparr>"
  have ne: "in_e s \<noteq> in_w s" using Suc.prems(3) by auto
  note e = erase_input [OF Suc.prems(2) ne]
  have "screen_ok ?t" using Suc.prems(1) by (simp add: screen_ok_def)
  note c = consputc_input [OF this e(1), of BACKSPACE]
  show ?case
  proof (cases "in_at (in_e s - 1) s \<noteq> 10")
    case True
    have "returns (and_then (consputc BACKSPACE ?t) (\<lambda>_ s. kill_line_loop n s)) (key_post s)"
    proof (rule returns_bind [OF c], elim conjE)
      fix r :: unit and u assume u: "key_post ?t r u" "in_w u = in_w ?t" "in_e u = in_e ?t"
      then have "returns (kill_line_loop n u) (key_post u)"
        using Suc.prems(3) e(2) by (intro Suc.IH) (auto simp: key_post_def)
      then show "returns (kill_line_loop n u) (key_post s)"
        by (rule returns_mono) (use u in \<open>simp add: key_post_def\<close>)
    qed
    then show ?thesis using True by simp
  next
    case False
    then show ?thesis using Suc.prems(1,2) by (simp add: key_post_def)
  qed
qed (simp add: key_post_def)

lemma put_input_input:
  assumes "screen_ok s" and "input_ok s" and "LPtable \<notin> held s"
  shows "returns (put_input c s) (key_post s)"
proof (cases "c \<noteq> 0 \<and> in_e s - in_r s < of_nat INPUT_BUF")
  case True
  define c' :: uint where "c' = (if c = 13 then 10 else c)"
  let ?t = "s\<lparr>in_buf := (in_buf s)[unat (in_e s mod of_nat INPUT_BUF) := ucast c'], in_e := in_e s + 1\<rparr>"
  have l: "unat (in_e s - in_r s) < 128" using True by (simp add: INPUT_BUF_def word_less_nat_alt)
  have "in_e s + 1 - in_r s = in_e s - in_r s + 1" by simp
  moreover have "unat (in_e s - in_r s + 1) = unat (in_e s - in_r s) + 1" using l by (intro unat_inc) simp
  ultimately have "unat (in_e s + 1 - in_r s) = unat (in_e s - in_r s) + 1" by metis
  then have ok: "input_ok ?t" using assms(2) l by (simp add: input_ok_def word_le_nat_alt INPUT_BUF_def)
  have "screen_ok ?t" using assms(1) by (simp add: screen_ok_def)
  note c = consputc_input [OF this ok, of c']
  have "returns (and_then (consputc c' ?t) (\<lambda>_ s. if c' = 10 \<or> c' = 4 \<or> in_e s = in_r s + of_nat INPUT_BUF
        then wakeup ChInput (s\<lparr>in_w := in_e s\<rparr>) else Ret () s)) (key_post s)"
  proof (rule returns_bind [OF c], elim conjE)
    fix r :: unit and u assume u: "key_post ?t r u" "in_w u = in_w ?t" "in_e u = in_e ?t"
    let ?v = "u\<lparr>in_w := in_e u\<rparr>"
    have u': "screen_ok u" "input_ok u" "in_r u = in_r s" "held u = held s" using u(1) by (simp_all add: key_post_def)
    have w: "wakeup ChInput ?v = Ret () (?v\<lparr>procs := map (wake ChInput) (procs u)\<rparr>)"
      using assms(3) u'(4) by (simp add: wakeup_free)
    have "key_post s () (?v\<lparr>procs := map (wake ChInput) (procs u)\<rparr>)" using u' by (simp add: key_post_def screen_ok_def input_ok_def)
    moreover have "key_post s () u" using u' by (simp add: key_post_def)
    ultimately show "returns (if c' = 10 \<or> c' = 4 \<or> in_e u = in_r u + of_nat INPUT_BUF
        then wakeup ChInput ?v else Ret () u) (key_post s)"
      unfolding w by (simp only: returns_if returns_Ret simp_thms split: if_split)
  qed
  then show ?thesis unfolding put_input_def Let_def c'_def if_P [OF True] .
next
  case False
  then show ?thesis using assms by (auto simp: put_input_def key_post_def)
qed

lemma console_key_input:
  assumes "screen_ok s" and "input_ok s" and "LPtable \<notin> held s" and "LCons \<notin> held s"
  shows "returns (console_key c s) (key_post s)"
proof -
  have pd: "returns (procdump s) (key_post s)"
  proof (rule returns_mono [OF procdump_shows [OF assms(1,4)]])
    fix r :: unit and t assume "shows_only s r t"
    then have t: "screen_ok t" "noscreen t = noscreen s" by (auto simp: shows_only_def)
    show "key_post s r t" using t(1) noscreen_fields [OF t(2)] assms(2) by (simp add: key_post_def)
  qed
  have bs: "returns (consputc BACKSPACE (s\<lparr>in_e := in_e s - 1\<rparr>)) (key_post s)" if "in_e s \<noteq> in_w s"
  proof (rule returns_mono [OF consputc_input [OF _ erase_input(1) [OF assms(2) that]]])
    show "screen_ok (s\<lparr>in_e := in_e s - 1\<rparr>)" using assms(1) by (simp add: screen_ok_def)
  qed (simp add: key_post_def)
  have id: "key_post s () s" using assms by (simp add: key_post_def)
  have kl: "returns (kill_line s) (key_post s)" unfolding kill_line_def by (rule kill_line_loop_input [OF assms(1,2) refl])
  have pi: "returns (put_input c s) (key_post s)" by (rule put_input_input [OF assms(1-3)])
  show ?thesis unfolding console_key_def
    by (cases "c = 16"; cases "c = 21"; cases "c = 8 \<or> c = 127"; cases "in_e s = in_w s") (use pd bs kl pi id in simp_all)
qed

text \<open>C17: the editing ring of the console.  Whatever characters arrive, with backspaces, kill-line and dumps of the process table
  among them, \<open>consoleintr\<close> returns, and the committed index stays between the read index and the edit index, which is never
  more than 128 characters ahead of the reader.\<close>

theorem consoleintr_ring:
  fixes s :: "'a kcons_scheme"
  assumes "screen_ok s" and "input_ok s" and "held s = {}"
  shows "returns (consoleintr cs s) (\<lambda>_ t. input_ok t \<and> in_r t = in_r s \<and> held t = {})"
proof -
  let ?s = "s\<lparr>held := {LInput}\<rparr>"
  have "returns (for_each console_key cs t) (key_post t)" if "screen_ok t" "input_ok t" "held t = {LInput}" for t :: "'a kcons_scheme"
    using that
  proof (induction cs arbitrary: t)
    case (Cons c cs)
    show ?case unfolding for_each.simps
    proof (rule returns_bind [OF console_key_input])
      fix r :: unit and u assume u: "key_post t r u"
      then have "returns (for_each console_key cs u) (key_post u)" using Cons.prems by (intro Cons.IH) (auto simp: key_post_def)
      then show "returns (for_each console_key cs u) (key_post t)" by (rule returns_mono) (use u in \<open>simp add: key_post_def\<close>)
    qed (use Cons.prems in simp_all)
  qed (simp add: key_post_def)
  then have "returns (for_each console_key cs ?s) (key_post ?s)" using assms by (simp add: screen_ok_def input_ok_def)
  then have "returns (and_then (for_each console_key cs ?s) (\<lambda>_ s. lk_release LInput s)) (\<lambda>_ t. input_ok t \<and> in_r t = in_r s \<and> held t = {})"
  proof (rule returns_bind)
    fix r :: unit and t assume "key_post ?s r t"
    then have t: "held t = {LInput}" "input_ok t" "in_r t = in_r s" by (simp_all add: key_post_def)
    have "input_ok (t\<lparr>held := {}\<rparr>)" using t(2) by (simp add: input_ok_def)
    then show "returns (lk_release LInput t) (\<lambda>_ t. input_ok t \<and> in_r t = in_r s \<and> held t = {})" using t(1,3) by simp
  qed
  then show ?thesis using assms(3) unfolding consoleintr_def by simp
qed

theorem consoleintr_ring_witness: "returns (consoleintr [97, 98, 8, 21, 16, 10] bare_cons) (\<lambda>_ t. input_ok t)"
  by (rule returns_mono [OF consoleintr_ring]) (auto simp: screen_ok_def input_ok_def)

end
