(* ===== verification/Trap.thy ===== *)
theory Trap
  imports Sysfile Console
begin

text \<open>
  Traps and the dispatch of system calls: \<^verbatim>\<open>src/5/xv6/trap.c\<close>, \<open>syscall\<close> of \<^verbatim>\<open>src/5/xv6/syscall.c\<close> and
  the numbers of \<^verbatim>\<open>syscall.h\<close> and \<^verbatim>\<open>traps.h\<close>.

  \<open>trap\<close> gets the trap frame, and what it reads from the machine: the number of the processor, the faulting address
  (cr2), the bytes that wait in the keyboard controller and in the serial port.  It ends in \<open>Sleep\<close> when the handler
  switches to the scheduler; a process that yielded continues with \<open>trap_after_yield\<close>.
\<close>

section \<open>System calls\<close>

text \<open>The table, entry \<open>i\<close> for the call with number \<open>i + 1\<close>; no entry is empty.\<close>

definition syscalls :: "byte list \<Rightarrow> ('a kcons_scheme \<Rightarrow> (uint, 'a kcons_scheme) outcome) list" where
  "syscalls junk =
     [sys_fork, sys_exit, sys_wait, sys_pipe, sys_write devsw_console, sys_read devsw_console, sys_close, sys_kill,
      sys_exec devsw_console junk, sys_open devsw_console, sys_mknod devsw_console, sys_unlink devsw_console, sys_fstat,
      sys_link devsw_console, sys_mkdir devsw_console, sys_chdir, sys_dup, sys_getpid, sys_sbrk, sys_sleep, sys_uptime,
      sys_lseek]"

definition set_eax :: "nat \<Rightarrow> uint \<Rightarrow> 'a kbase_scheme \<Rightarrow> 'a kbase_scheme" where
  "set_eax p r s = upd_proc p (\<lambda>x. x\<lparr>p_tf := (p_tf x)\<lparr>tf_eax := r\<rparr>\<rparr>) s"

definition syscall :: "byte list \<Rightarrow> 'a kcons_scheme \<Rightarrow> (unit, 'a kcons_scheme) outcome" where
  "syscall junk s =
     with_proc s (\<lambda>p.
     let num = sint (tf_eax (p_tf (proc_at p s))) in
     if num > 0 \<and> num < 23 then
       and_then ((syscalls junk ! (nat num - 1)) s) (\<lambda>r s. Ret () (set_eax p r s))
     else
       and_then (cprintf (bytes_of ''%d %s: unknown sys call %d'' @ newline)
         [(p_pid (proc_at p s), []), (1, p_name (proc_at p s)), (tf_eax (p_tf (proc_at p s)), [])] s) (\<lambda>_ s.
       Ret () (set_eax p (-1) s)))"

section \<open>Traps\<close>

definition T_SYSCALL :: uint where "T_SYSCALL = 64"
definition T_IRQ0 :: uint where "T_IRQ0 = 32"
definition IRQ_TIMER :: uint where "IRQ_TIMER = 0"
definition IRQ_KBD :: uint where "IRQ_KBD = 1"
definition IRQ_COM1 :: uint where "IRQ_COM1 = 4"
definition IRQ_IDE :: uint where "IRQ_IDE = 14"
definition IRQ_SPURIOUS :: uint where "IRQ_SPURIOUS = 31"

lemmas trap_consts =
  T_SYSCALL_def T_IRQ0_def IRQ_TIMER_def IRQ_KBD_def IRQ_COM1_def IRQ_IDE_def IRQ_SPURIOUS_def

definition tvinit :: "uint list \<Rightarrow> gatedesc list" where
  "tvinit vectors =
     (map (\<lambda>i. SETGATE False (push_bit 3 (of_nat SEG_KCODE)) (vectors ! i) 0) [0..<256])
       [unat T_SYSCALL := SETGATE True (push_bit 3 (of_nat SEG_KCODE)) (vectors ! unat T_SYSCALL) DPL_USER]"

record trap_env =
  te_cpu :: nat
  te_cr2 :: uint
  te_kbd :: "byte list"
  te_uart :: "byte list"
  te_junk :: "byte list"

definition from_user :: "trapframe \<Rightarrow> bool" where
  "from_user tf \<longleftrightarrow> tf_cs tf AND 3 = 3"

definition timer_tick :: "'a kbase_scheme \<Rightarrow> (unit, 'a kbase_scheme) outcome" where
  "timer_tick s =
     and_then (lk_acquire LTicks s) (\<lambda>_ s.
     and_then (wakeup ChTicks (s\<lparr>ticks := ticks s + 1\<rparr>)) (\<lambda>_ s. lk_release LTicks s))"

definition unexpected_trap :: "trap_env \<Rightarrow> trapframe \<Rightarrow> 'a kcons_scheme \<Rightarrow> (unit, 'a kcons_scheme) outcome" where
  "unexpected_trap e tf s =
     (case (if tf_cs tf AND 3 = 0 then None else cur s) of None \<Rightarrow>
          and_then (cprintf (bytes_of ''unexpected trap %d from cpu %d eip %x (cr2=0x%x)'' @ newline)
            [(tf_trapno tf, []), (of_nat (te_cpu e), []), (tf_eip tf, []), (te_cr2 e, [])] s) (\<lambda>_ _. Panic ''trap'')
      | Some p \<Rightarrow>
          and_then (cprintf (bytes_of ''pid %d %s: trap %d err %d on cpu %d eip 0x%x addr 0x%x--kill proc'' @ newline)
            [(p_pid (proc_at p s), []), (1, p_name (proc_at p s)), (tf_trapno tf, []), (tf_err tf, []),
             (of_nat (te_cpu e), []), (tf_eip tf, []), (te_cr2 e, [])] s) (\<lambda>_ s.
          Ret () (upd_proc p (\<lambda>x. x\<lparr>p_killed := True\<rparr>) s)))"

definition trap_dispatch :: "trap_env \<Rightarrow> trapframe \<Rightarrow> 'a kcons_scheme \<Rightarrow> (unit, 'a kcons_scheme) outcome" where
  "trap_dispatch e tf s =
     (let n = tf_trapno tf in
      if n = T_IRQ0 + IRQ_TIMER then (if te_cpu e = 0 then timer_tick s else Ret () s)
      else if n = T_IRQ0 + IRQ_IDE then ideintr s
      else if n = T_IRQ0 + IRQ_IDE + 1 then Ret () s
      else if n = T_IRQ0 + IRQ_KBD then kbdintr (te_kbd e) s
      else if n = T_IRQ0 + IRQ_COM1 then uartintr (te_uart e) s
      else if n = T_IRQ0 + 7 \<or> n = T_IRQ0 + IRQ_SPURIOUS then
        cprintf (bytes_of ''cpu%d: spurious interrupt at %x:%x'' @ newline)
          [(of_nat (te_cpu e), []), (ucast (tf_cs tf), []), (tf_eip tf, [])] s
      else unexpected_trap e tf s)"

definition exit_if_killed :: "trapframe \<Rightarrow> 'a kproc_scheme \<Rightarrow> (unit, 'a kproc_scheme) outcome" where
  "exit_if_killed tf s = (if proc_killed s \<and> from_user tf then exit s else Ret () s)"

definition trap :: "trap_env \<Rightarrow> trapframe \<Rightarrow> 'a kcons_scheme \<Rightarrow> (unit, 'a kcons_scheme) outcome" where
  "trap e tf s =
     (if tf_trapno tf = T_SYSCALL then
        with_proc s (\<lambda>p.
        if p_killed (proc_at p s) then exit s
        else
          and_then (syscall (te_junk e) (upd_proc p (\<lambda>x. x\<lparr>p_tf := tf\<rparr>) s)) (\<lambda>_ s.
          if proc_killed s then exit s else Ret () s))
      else
        and_then (trap_dispatch e tf s) (\<lambda>_ s.
        and_then (exit_if_killed tf s) (\<lambda>_ s.
        case cur s of None \<Rightarrow> Ret () s
        | Some p \<Rightarrow>
            if p_state (proc_at p s) = RUNNING \<and> tf_trapno tf = T_IRQ0 + IRQ_TIMER then yield s
            else exit_if_killed tf s)))"

definition trap_after_yield :: "trapframe \<Rightarrow> 'a kproc_scheme \<Rightarrow> (unit, 'a kproc_scheme) outcome" where
  "trap_after_yield tf s = and_then (yield_return s) (\<lambda>_ s. exit_if_killed tf s)"

text \<open>C21: \<open>sleep\<close> gives up the lock it is called with and leaves the process asleep on the channel, with only the table
  lock held; a later \<open>wakeup\<close> of the channel makes the process runnable and leaves the sleepers on other channels asleep.\<close>

theorem sleep_wakeup:
  fixes s :: "'a kbase_scheme"
  assumes "cur s = Some p" and "p < length (procs s)" and "held s = {lk}" and "lk \<noteq> LPtable"
  shows "\<exists>t. (sleep ch lk s :: ('b, 'a kbase_scheme) outcome) = Sleep ch t \<and> held t = {LPtable} \<and> p_state (proc_at p t) = SLEEPING \<and>
    (\<forall>u :: 'a kbase_scheme. procs u = procs t \<and> LPtable \<notin> held u \<longrightarrow> returns (wakeup ch u) (\<lambda>_ v. p_state (proc_at p v) = RUNNABLE \<and>
      (\<forall>q < length (procs u). p_state (proc_at q u) = SLEEPING \<longrightarrow> p_chan (proc_at q u) \<noteq> ch \<longrightarrow> proc_at q v = proc_at q u)))"
proof -
  let ?f = "\<lambda>q. q\<lparr>p_chan := ch, p_state := SLEEPING\<rparr>"
  let ?t = "upd_proc p ?f (s\<lparr>held := {LPtable}\<rparr>)"
  have "insert LPtable {lk} - {lk} = {LPtable}" using assms(4) by auto
  then have "(sleep ch lk s :: ('b, 'a kbase_scheme) outcome) = Sleep ch ?t"
    using assms by (simp add: sleep_def sleep_enter_def sched_def upd_proc_def)
  moreover have "returns (wakeup ch u) (\<lambda>_ v. p_state (proc_at p v) = RUNNABLE \<and>
      (\<forall>q < length (procs u). p_state (proc_at q u) = SLEEPING \<longrightarrow> p_chan (proc_at q u) \<noteq> ch \<longrightarrow> proc_at q v = proc_at q u))"
    if "procs u = procs ?t" "LPtable \<notin> held u" for u :: "'a kbase_scheme"
    using that assms(2) by (simp add: wakeup_free wake_def)
  moreover have "held ?t = {LPtable}" "p_state (proc_at p ?t) = SLEEPING" using assms(2) by simp_all
  ultimately show ?thesis by blast
qed

theorem sleep_wakeup_witness:
  "\<exists>(s :: kproc) t. (sleep ChTicks LTicks s :: (unit, kproc) outcome) = Sleep ChTicks t \<and> p_state (proc_at 3 t) = SLEEPING \<and>
     returns (wakeup ChTicks (t\<lparr>held := {}\<rparr>)) (\<lambda>_ v. p_state (proc_at 3 v) = RUNNABLE)"
proof -
  let ?s = "bare_proc\<lparr>held := {LTicks}, cur := Some 3\<rparr>"
  have "\<exists>t. (sleep ChTicks LTicks ?s :: (unit, kproc) outcome) = Sleep ChTicks t \<and> held t = {LPtable} \<and> p_state (proc_at 3 t) = SLEEPING \<and>
    (\<forall>u :: kproc. procs u = procs t \<and> LPtable \<notin> held u \<longrightarrow> returns (wakeup ChTicks u) (\<lambda>_ v. p_state (proc_at 3 v) = RUNNABLE \<and>
      (\<forall>q < length (procs u). p_state (proc_at q u) = SLEEPING \<longrightarrow> p_chan (proc_at q u) \<noteq> ChTicks \<longrightarrow> proc_at q v = proc_at q u)))"
    using NPROC_slots(2) by (intro sleep_wakeup) simp_all
  then obtain t where t: "(sleep ChTicks LTicks ?s :: (unit, kproc) outcome) = Sleep ChTicks t" "p_state (proc_at 3 t) = SLEEPING"
    and w: "\<And>u :: kproc. procs u = procs t \<and> LPtable \<notin> held u \<Longrightarrow> returns (wakeup ChTicks u) (\<lambda>_ v. p_state (proc_at 3 v) = RUNNABLE \<and>
      (\<forall>q < length (procs u). p_state (proc_at q u) = SLEEPING \<longrightarrow> p_chan (proc_at q u) \<noteq> ChTicks \<longrightarrow> proc_at q v = proc_at q u))" by blast
  have "returns (wakeup ChTicks (t\<lparr>held := {}\<rparr>)) (\<lambda>_ v. p_state (proc_at 3 v) = RUNNABLE)"
    by (rule returns_mono [OF w]) simp_all
  then show ?thesis using t by blast
qed

section \<open>Arguments\<close>

text \<open>C22: a pointer that \<open>argptr\<close> accepts for a request that is not negative lies in the process's memory with all its
  bytes, without wrapping around; every other pointer is refused.\<close>

theorem argptr_bounds:
  fixes s :: "'a kproc_scheme"
  assumes "cur s = Some p" and "argint n s = Ret (Some i) s" and "0 \<le> sint sz" and "p_sz (proc_at p s) \<le> USERTOP"
  shows "argptr n sz s =
    Ret (if i < p_sz (proc_at p s) \<and> unat i + unat sz \<le> unat (p_sz (proc_at p s)) then Some i else None) s"
proof -
  let ?m = "p_sz (proc_at p s)"
  have sz: "unat sz < 2 ^ 31" using assms(3) by (rule sint_nonneg_unat)
  have "unat (i + sz) = unat i + unat sz" if "i < ?m"
  proof -
    have "unat i < 655360" using that assms(4) unfolding word_less_nat_alt word_le_nat_alt by (simp add: USERTOP_def)
    then show ?thesis using sz by (simp add: unat_word_ariths)
  qed
  then show ?thesis using assms(1,2) by (auto simp: argptr_def with_proc_def word_less_nat_alt word_le_nat_alt not_less not_le)
qed

text \<open>A negative size is added as a large unsigned number, so the test passes for a pointer at the very end of memory.\<close>

lemma argptr_negative:
  fixes s :: "'a kproc_scheme"
  assumes "cur s = Some p" and "argint n s = Ret (Some i) s" and "0 < i" and "i < p_sz (proc_at p s)"
  shows "argptr n (-1) s = Ret (Some i) s"
proof -
  have "\<not> i + -1 > p_sz (proc_at p s)" using assms(3,4) by (simp add: word_less_nat_alt unat_sub word_le_nat_alt not_less)
  then show ?thesis using assms(1,2,4) by (simp add: argptr_def with_proc_def not_le)
qed

theorem argptr_bounds_witness:
  "\<exists>s :: kproc. argptr 0 100 s = Ret (Some 16) s \<and> argptr 0 0x2000 s = Ret None s"
proof -
  let ?m = "(\<lambda>_. 7)(0x07070004 := 16, 0x07070005 := 0, 0x07070006 := 0, 0x07070007 := 0) :: mem"
  let ?s = "bare_proc\<lparr>pmem := ?m, cr3 := 0, cur := Some 3, procs := (procs bare_proc)[3 := zero_proc\<lparr>p_sz := 0x1000\<rparr>]\<rparr>"
  have p: "proc_at 3 ?s = zero_proc\<lparr>p_sz := 0x1000\<rparr>" using NPROC_slots by simp
  have w: "rd_word ?m 0 = 0x07070707" "rd_word ?m 0x07070000 = 0x07070707" by code_simp+
  have d: "PDX 4 = 0" "PTX 4 = 0" "PDX 5 = 0" "PTX 5 = 0" "PDX 6 = 0" "PTX 6 = 0" "PDX 7 = 0" "PTX 7 = 0" by code_simp+
  have "user_read 4 4 ?s = Ret [16, 0, 0, 0] ?s"
    by (simp add: numeral_eq_Suc) (simp add: translate_def pde_addr_def w d PTE_P_def PTE_ADDR_def)
  then have a: "argint 0 ?s = Ret (Some 16) ?s"
    using p by (simp add: argint_def with_proc_def fetchint_def zero_proc_def zero_tf_def) (code_simp)
  show ?thesis using argptr_bounds [where s = ?s and p = 3 and n = 0 and i = 16 and sz = 100] argptr_bounds [where s = ?s and p = 3 and n = 0 and i = 16 and sz = "0x2000"] a p
    by (intro exI [of _ ?s]) (simp add: USERTOP_def)
qed

section \<open>Interrupt gates\<close>

text \<open>C29: the interrupt table.  Each of the 256 gates leads to its vector in the kernel's code segment; a user program may
  raise only the system-call gate, and only that one leaves interrupts enabled.\<close>

theorem tvinit_gates:
  assumes "n < 256"
  shows "length (tvinit vectors) = 256 \<and> gate_offset (tvinit vectors ! n) = vectors ! n \<and>
    gd_cs (tvinit vectors ! n) = push_bit 3 (of_nat SEG_KCODE) \<and> gd_p (tvinit vectors ! n) = 1 \<and>
    (gd_dpl (tvinit vectors ! n) = DPL_USER \<longleftrightarrow> n = unat T_SYSCALL) \<and>
    (gd_type (tvinit vectors ! n) = STS_TG32 \<longleftrightarrow> n = unat T_SYSCALL)"
proof -
  have t: "tvinit vectors ! n = (if n = 64 then SETGATE True (push_bit 3 (of_nat SEG_KCODE)) (vectors ! 64) DPL_USER
      else SETGATE False (push_bit 3 (of_nat SEG_KCODE)) (vectors ! n) 0)"
    using assms by (simp add: tvinit_def T_SYSCALL_def nth_list_update del: upt_Suc)
  have "gd_cs (SETGATE a b c d) = b" "gd_p (SETGATE a b c d) = 1" "gd_dpl (SETGATE a b c d) = d"
    "gd_type (SETGATE a b c d) = (if a then STS_TG32 else STS_IG32)" for a b c d by (simp_all add: SETGATE_def)
  moreover have "STS_IG32 \<noteq> STS_TG32" "(0 :: 2 word) \<noteq> DPL_USER" by (simp_all add: STS_IG32_def STS_TG32_def DPL_USER_def)
  moreover have "length (tvinit vectors) = 256" by (simp add: tvinit_def del: upt_Suc)
  ultimately show ?thesis unfolding t by (simp add: T_SYSCALL_def)
qed

theorem tvinit_gates_witness:
  "gate_offset (tvinit (map of_nat [0..<256]) ! 64) = 64 \<and> gd_dpl (tvinit (map of_nat [0..<256]) ! 14) \<noteq> DPL_USER"
  using tvinit_gates [of 64 "map of_nat [0..<256]"] tvinit_gates [of 14 "map of_nat [0..<256]"]
  by (simp add: T_SYSCALL_def del: upt_Suc)

section \<open>Descriptors\<close>

text \<open>\<open>filealloc\<close> returns the first entry of the file table without references and gives it one; it fails exactly when
  every entry is in use.  No other entry changes.\<close>

theorem filealloc_first_free:
  fixes s :: "'a kfile_scheme"
  assumes "LFtable \<notin> held s"
  shows "returns (filealloc s) (\<lambda>r t. held t = held s \<and> (case r of
      None \<Rightarrow> t = s \<and> (\<forall>f < length (ftable s). f_ref (ftable s ! f) \<noteq> 0)
    | Some f \<Rightarrow> f < length (ftable s) \<and> f_ref (ftable s ! f) = 0 \<and> (\<forall>g < f. f_ref (ftable s ! g) \<noteq> 0) \<and>
        ftable t = (ftable s)[f := (ftable s ! f)\<lparr>f_ref := 1\<rparr>]))"
proof (cases "find (\<lambda>f. f_ref (ftable s ! f) = 0) [0..<length (ftable s)]")
  case None
  then have "\<forall>f < length (ftable s). f_ref (ftable s ! f) \<noteq> 0" by (auto simp: find_None_iff)
  then show ?thesis using None assms by (simp add: filealloc_def)
next
  case (Some f)
  then have "f < length (ftable s) \<and> f_ref (ftable s ! f) = 0 \<and> (\<forall>g < f. f_ref (ftable s ! g) \<noteq> 0)"
    by (auto simp: find_Some_iff)
  then show ?thesis using Some assms by (simp add: filealloc_def upd_file_def)
qed

theorem filealloc_first_free_witness: "returns (filealloc bare_proc) (\<lambda>r t. r = Some 0 \<and> f_ref (ftable t ! 0) = 1)"
proof (rule returns_mono [OF filealloc_first_free [of bare_proc]])
  fix r and t :: kproc
  assume *: "held t = held bare_proc \<and> (case r of
      None \<Rightarrow> t = bare_proc \<and> (\<forall>f < length (ftable bare_proc). f_ref (ftable bare_proc ! f) \<noteq> 0)
    | Some f \<Rightarrow> f < length (ftable bare_proc) \<and> f_ref (ftable bare_proc ! f) = 0 \<and> (\<forall>g < f. f_ref (ftable bare_proc ! g) \<noteq> 0) \<and>
        ftable t = (ftable bare_proc)[f := (ftable bare_proc ! f)\<lparr>f_ref := 1\<rparr>])"
  have z: "f_ref (ftable bare_proc ! 0) = 0" "0 < NFILE" by (simp_all add: NFILE_def)
  then obtain f where "r = Some f" using * by (cases r) auto
  moreover then have "f = 0" using * z(1) by (cases f) auto
  ultimately show "r = Some 0 \<and> f_ref (ftable t ! 0) = 1" using * z(2) by simp
qed simp

text \<open>A sequence of \<open>filedup\<close> and \<open>fileclose\<close> on one entry of the file table.\<close>

datatype ref_op = Dup | Close

primrec run_refs :: "nat \<Rightarrow> ref_op list \<Rightarrow> 'a kfile_scheme \<Rightarrow> (unit, 'a kfile_scheme) outcome" where
  "run_refs f [] s = Ret () s"
| "run_refs f (r # rs) s =
     and_then (case r of Dup \<Rightarrow> and_then (filedup f s) (\<lambda>_ s. Ret () s) | Close \<Rightarrow> fileclose f s) (\<lambda>_ s. run_refs f rs s)"

text \<open>How many references there are after a sequence of operations; \<open>None\<close> if one of them comes when there is no reference, or
  if the counter would leave its range.\<close>

primrec refs_after :: "nat \<Rightarrow> ref_op list \<Rightarrow> nat option" where
  "refs_after n [] = Some n"
| "refs_after n (r # rs) =
     (if n = 0 then None
      else case r of Dup \<Rightarrow> if n + 1 < 2 ^ 31 then refs_after (n + 1) rs else None | Close \<Rightarrow> refs_after (n - 1) rs)"

definition close_end :: "bool \<Rightarrow> pipe \<Rightarrow> pipe" where
  "close_end writable q = (if writable then q\<lparr>pi_writeopen := False\<rparr> else q\<lparr>pi_readopen := False\<rparr>)"

lemma pipeclose_one_end:
  fixes s :: "'a kpipe_scheme"
  assumes "plock p \<notin> held s" and "LPtable \<notin> held s" and "if w then pi_readopen (pipes s p) else pi_writeopen (pipes s p)"
  shows "\<exists>ps. pipeclose p w s = Ret () (s\<lparr>pipes := (pipes s)(p := close_end w (pipes s p)), procs := ps\<rparr>)"
  using assms by (auto simp: pipeclose_def upd_pipe_def close_end_def wakeup_free)

lemma refs_step:
  fixes s :: "'a kfile_scheme"
  assumes "LFtable \<notin> held s" and "f < length (ftable s)" and "f_ref (ftable s ! f) = of_nat n" and "0 < n" and "n < 2 ^ 31"
  shows "n + 1 < 2 ^ 31 \<Longrightarrow> filedup f s = Ret f (upd_file f (\<lambda>x. x\<lparr>f_ref := of_nat (n + 1)\<rparr>) s)"
    and "1 < n \<Longrightarrow> fileclose f s = Ret () (upd_file f (\<lambda>x. x\<lparr>f_ref := of_nat (n - 1)\<rparr>) s)"
    and "n = 1 \<Longrightarrow> f_type (ftable s ! f) = FD_PIPE \<Longrightarrow> fileclose f s =
      pipeclose (f_pipe (ftable s ! f)) (f_writable (ftable s ! f)) (upd_file f (\<lambda>x. x\<lparr>f_ref := 0, f_type := FD_NONE\<rparr>) s)"
proof -
  have n: "sint (of_nat n :: uint) = int n" using assms(5) by (rule sint_small)
  show "filedup f s = Ret f (upd_file f (\<lambda>x. x\<lparr>f_ref := of_nat (n + 1)\<rparr>) s)"
    using assms n by (simp add: filedup_def upd_file_def add.commute)
  show "fileclose f s = Ret () (upd_file f (\<lambda>x. x\<lparr>f_ref := of_nat (n - 1)\<rparr>) s)" if "1 < n"
  proof -
    define v :: uint where "v = of_nat (n - 1)"
    have v: "of_nat n - 1 = v" "sint v = int (n - 1)" using that assms(5) sint_small [of "n - 1"] by (simp_all add: v_def of_nat_diff)
    show ?thesis unfolding v_def [symmetric] using assms(1-4) n v that by (simp add: fileclose_def upd_file_def Let_def)
  qed
  show "fileclose f s = pipeclose (f_pipe (ftable s ! f)) (f_writable (ftable s ! f)) (upd_file f (\<lambda>x. x\<lparr>f_ref := 0, f_type := FD_NONE\<rparr>) s)"
    if "n = 1" "f_type (ftable s ! f) = FD_PIPE" using assms(1-3) n that by (simp add: fileclose_def upd_file_def Let_def)
qed

text \<open>C31: the references to an open file.  For every sequence of \<open>filedup\<close> and \<open>fileclose\<close> on one end of a pipe whose other end is
  open, in which no operation comes after the last reference is gone and the counter stays in the range of an
  \<^verbatim>\<open>int\<close>: every call returns; as long as a reference remains the pipe is not touched and only the counter changes; the
  \<open>fileclose\<close> of the last reference frees the entry and closes exactly this end of this pipe.\<close>

theorem pipe_end_references:
  fixes s :: "'a kfile_scheme" and f :: nat
  defines "x \<equiv> ftable s ! f"
  assumes "LFtable \<notin> held s" and "LPtable \<notin> held s" and "plock (f_pipe x) \<notin> held s" and "f < length (ftable s)"
    and "f_type x = FD_PIPE" and "if f_writable x then pi_readopen (pipes s (f_pipe x)) else pi_writeopen (pipes s (f_pipe x))"
    and "f_ref x = of_nat n" and "0 < n" and "n < 2 ^ 31" and "refs_after n rs = Some m"
  shows "returns (run_refs f rs s) (\<lambda>_ t. held t = held s \<and>
    ftable t = (ftable s)[f := if m = 0 then x\<lparr>f_ref := 0, f_type := FD_NONE\<rparr> else x\<lparr>f_ref := of_nat m\<rparr>] \<and>
    pipes t = (if m = 0 then (pipes s)(f_pipe x := close_end (f_writable x) (pipes s (f_pipe x))) else pipes s))"
  using assms(2-) unfolding x_def
proof (induction rs arbitrary: s n)
  case Nil
  have "f_ref (ftable s ! f) = of_nat n" using Nil.prems(7) .
  then have "(ftable s ! f)\<lparr>f_ref := of_nat n\<rparr> = ftable s ! f" by (cases "ftable s ! f") simp
  then show ?case using Nil.prems(8,10) by simp
next
  case (Cons r rs)
  show ?case
  proof (cases "r = Close \<and> n = 1")
    case True
    then have rs: "rs = []" "m = 0" using Cons.prems(10) by (cases rs; simp)+
    let ?s = "upd_file f (\<lambda>x. x\<lparr>f_ref := 0, f_type := FD_NONE\<rparr>) s" and ?x = "ftable s ! f"
    have fr: "held ?s = held s" "pipes ?s = pipes s" by (simp_all add: upd_file_def)
    obtain ps where "pipeclose (f_pipe ?x) (f_writable ?x) ?s =
        Ret () (?s\<lparr>pipes := (pipes ?s)(f_pipe ?x := close_end (f_writable ?x) (pipes ?s (f_pipe ?x))), procs := ps\<rparr>)"
      using pipeclose_one_end [of "f_pipe ?x" ?s "f_writable ?x"] Cons.prems(2,3,6) unfolding fr by blast
    then show ?thesis using True rs refs_step(3) [of s f n] Cons.prems(1,4,5,7,8,9) by (simp add: upd_file_def fun_upd_def)
  next
    case False
    define k where "k = (case r of Dup \<Rightarrow> n + 1 | Close \<Rightarrow> n - 1)"
    let ?s = "upd_file f (\<lambda>x. x\<lparr>f_ref := of_nat k\<rparr>) s"
    have k: "0 < k" "k < 2 ^ 31" "refs_after k rs = Some m"
      using False Cons.prems(8-10) by (auto simp: k_def split: ref_op.splits if_splits)
    have "run_refs f (r # rs) s = run_refs f rs ?s"
      using False refs_step(1,2) [of s f n] Cons.prems by (auto simp: k_def split: ref_op.splits if_splits)
    moreover have "returns (run_refs f rs ?s) (\<lambda>_ t. held t = held ?s \<and>
        ftable t = (ftable ?s)[f := if m = 0 then (ftable ?s ! f)\<lparr>f_ref := 0, f_type := FD_NONE\<rparr> else (ftable ?s ! f)\<lparr>f_ref := of_nat m\<rparr>] \<and>
        pipes t = (if m = 0 then (pipes ?s)(f_pipe (ftable ?s ! f) := close_end (f_writable (ftable ?s ! f)) (pipes ?s (f_pipe (ftable ?s ! f)))) else pipes ?s))"
      using Cons.prems(1-6) k by (intro Cons.IH [of ?s k]) (simp_all add: upd_file_def)
    ultimately show ?thesis using Cons.prems(4) by (cases "m = 0") (simp_all add: upd_file_def fun_upd_def)
  qed
qed

definition demo_pipe_end :: kproc where
  "demo_pipe_end = bare_proc\<lparr>ftable := (ftable bare_proc)[3 := (ftable bare_proc ! 3)\<lparr>f_type := FD_PIPE, f_ref := 1, f_writable := True, f_pipe := 0x5000\<rparr>],
     pipes := (pipes bare_proc)(0x5000 := \<lparr>pi_data = [], pi_nread = 0, pi_nwrite = 0, pi_readopen = True, pi_writeopen = True\<rparr>)\<rparr>"

theorem pipe_end_references_witness:
  "returns (run_refs 3 [Dup, Dup, Close] demo_pipe_end) (\<lambda>_ t. pi_writeopen (pipes t 0x5000) \<and> f_ref (ftable t ! 3) = 2) \<and>
   returns (run_refs 3 [Dup, Close, Close] demo_pipe_end) (\<lambda>_ t. \<not> pi_writeopen (pipes t 0x5000) \<and> pi_readopen (pipes t 0x5000))"
proof
  have l: "3 < NFILE" by (simp add: NFILE_def)
  show "returns (run_refs 3 [Dup, Dup, Close] demo_pipe_end) (\<lambda>_ t. pi_writeopen (pipes t 0x5000) \<and> f_ref (ftable t ! 3) = 2)"
    by (rule returns_mono [OF pipe_end_references [where n = 1 and m = 2]]) (use l in \<open>auto simp: demo_pipe_end_def\<close>)
  show "returns (run_refs 3 [Dup, Close, Close] demo_pipe_end) (\<lambda>_ t. \<not> pi_writeopen (pipes t 0x5000) \<and> pi_readopen (pipes t 0x5000))"
    by (rule returns_mono [OF pipe_end_references [where n = 1 and m = 0]]) (use l in \<open>auto simp: demo_pipe_end_def close_end_def\<close>)
qed

text \<open>\<open>fdalloc\<close> returns the lowest free descriptor of the process and points it at the file; it fails exactly when all
  sixteen are in use.\<close>

theorem fdalloc_lowest:
  fixes s :: "'a kproc_scheme"
  assumes "cur s = Some p" and "p < length (procs s)" and "length (p_ofile (proc_at p s)) = NOFILE"
  shows "returns (fdalloc f s) (\<lambda>r t. case r of
      None \<Rightarrow> t = s \<and> (\<forall>i < NOFILE. p_ofile (proc_at p s) ! i \<noteq> None)
    | Some d \<Rightarrow> d < NOFILE \<and> p_ofile (proc_at p s) ! d = None \<and> (\<forall>i < d. p_ofile (proc_at p s) ! i \<noteq> None) \<and>
        p_ofile (proc_at p t) = (p_ofile (proc_at p s))[d := Some f] \<and> (\<forall>q. q \<noteq> p \<longrightarrow> proc_at q t = proc_at q s))"
proof (cases "find (\<lambda>d. p_ofile (proc_at p s) ! d = None) [0..<NOFILE]")
  case None
  then have "\<forall>i < NOFILE. p_ofile (proc_at p s) ! i \<noteq> None" by (auto simp: find_None_iff)
  then show ?thesis using None assms by (simp add: fdalloc_def with_proc_def)
next
  case (Some d)
  then have "d < NOFILE \<and> p_ofile (proc_at p s) ! d = None \<and> (\<forall>i < d. p_ofile (proc_at p s) ! i \<noteq> None)"
    by (auto simp: find_Some_iff)
  then show ?thesis using Some assms by (simp add: fdalloc_def with_proc_def set_ofile_def)
qed

theorem fdalloc_lowest_witness:
  "returns (fdalloc 9 (bare_proc\<lparr>cur := Some 3\<rparr>)) (\<lambda>r t. r = Some 0 \<and> p_ofile (proc_at 3 t) ! 0 = Some 9)"
proof (rule returns_mono [OF fdalloc_lowest [where p = 3]])
  let ?s = "bare_proc\<lparr>cur := Some 3\<rparr>"
  have p: "p_ofile (proc_at 3 ?s) = replicate NOFILE None" using NPROC_slots by (simp add: zero_proc_def)
  then show "length (p_ofile (proc_at 3 ?s)) = NOFILE" by simp
  have z: "0 < NOFILE" by (simp add: NOFILE_def)
  fix r and t :: kproc
  assume *: "case r of None \<Rightarrow> t = ?s \<and> (\<forall>i < NOFILE. p_ofile (proc_at 3 ?s) ! i \<noteq> None)
    | Some d \<Rightarrow> d < NOFILE \<and> p_ofile (proc_at 3 ?s) ! d = None \<and> (\<forall>i < d. p_ofile (proc_at 3 ?s) ! i \<noteq> None) \<and>
        p_ofile (proc_at 3 t) = (p_ofile (proc_at 3 ?s))[d := Some 9] \<and> (\<forall>q. q \<noteq> 3 \<longrightarrow> proc_at q t = proc_at q ?s)"
  then obtain d where "r = Some d" using p z by (cases r) auto
  moreover then have "d = 0" using * p z by (cases d) auto
  ultimately show "r = Some 0 \<and> p_ofile (proc_at 3 t) ! 0 = Some 9" using * p z by simp
qed (use NPROC_slots in simp_all)

end
