(* ===== verification/Pagetab.thy ===== *)
theory Pagetab
  imports Vm
begin

text \<open>
  What the page tables built by \<^verbatim>\<open>src/5/xv6/vm.c\<close> mean.  A page directory and its tables are pages of \<open>pmem\<close>; the
  function \<open>pt_entry\<close> reads them as one map from page numbers to entries, and the lemmas say what \<open>walkpgdir\<close>,
  \<open>mappages\<close>, \<open>setupkvm\<close> and \<open>copyuvm\<close> make of that map while they allocate tables and frames from the free list.
  \<open>vm_ok s U vs pd\<close> says that the free list of \<open>s\<close> is \<open>vs\<close>, that the pages \<open>U\<close> are in use, and that the directory \<open>pd\<close> and its
  tables are pages of their own among them.
\<close>

section \<open>Words of a page\<close>

lemma unat_small: "n < 2 ^ 32 \<Longrightarrow> unat (of_nat n :: uint) = n"
  by (simp add: unat_of_nat)

definition slot :: "uint \<Rightarrow> nat \<Rightarrow> uint" where
  "slot v i = v + 4 * of_nat i"

lemma slot_offset: "i < 1024 \<Longrightarrow> k < 4 \<Longrightarrow> slot v i + of_nat k = v + of_nat (4 * i + k)"
  by (simp add: slot_def)

lemma slot_in_page: "aligned v \<Longrightarrow> i < 1024 \<Longrightarrow> k < 4 \<Longrightarrow> in_page v (slot v i + of_nat k)"
  by (simp add: slot_offset word_in_page PGSIZE_def del: of_nat_add of_nat_mult)

lemma rd_slot_same_page: "same_page m m' v \<Longrightarrow> aligned v \<Longrightarrow> i < 1024 \<Longrightarrow> rd_word m' (slot v i) = rd_word m (slot v i)"
proof -
  assume a: "same_page m m' v" "aligned v" "i < 1024"
  then have "mem_read m' (slot v i) 4 = mem_read m (slot v i) 4"
    unfolding mem_read_def same_page_def by (intro map_cong) (auto intro: slot_in_page)
  then show ?thesis by (simp add: rd_word_def)
qed

lemma slot_inj: "i < 1024 \<Longrightarrow> j < 1024 \<Longrightarrow> slot v i = slot v j \<longleftrightarrow> i = j"
proof -
  assume "i < 1024" "j < 1024"
  then have "unat (of_nat (4 * i) :: uint) = 4 * i" "unat (of_nat (4 * j) :: uint) = 4 * j"
    by (simp_all add: unat_of_nat del: of_nat_mult)
  then have "(of_nat (4 * i) :: uint) = of_nat (4 * j) \<longleftrightarrow> i = j" by (metis mult_cancel1 zero_neq_numeral)
  then show ?thesis by (simp add: slot_def)
qed

lemma wr_slot_same_page:
  assumes "aligned v" and "aligned w" and "v \<noteq> w" and "i < 1024"
  shows "same_page m (wr_word m (slot v i) e) w"
proof -
  have "\<not> unat (x - slot v i) < 4" if x: "in_page w x" for x
  proof
    assume k: "unat (x - slot v i) < 4"
    have "x = slot v i + of_nat (unat (x - slot v i))" by simp
    then have "in_page v x" using slot_in_page [OF assms(1,4) k] by metis
    then show False using x assms pages_disjoint by blast
  qed
  then show ?thesis by (simp add: same_page_def wr_word_def mem_write_def)
qed

lemma rd_wr_slot_other:
  assumes "i < 1024" and "j < 1024" and "i \<noteq> j"
  shows "rd_word (wr_word m (slot v i) e) (slot v j) = rd_word m (slot v j)"
proof -
  have "\<not> unat (slot v j + of_nat k - slot v i) < 4" if "k < 4" for k
  proof -
    have e: "slot v j + of_nat k - slot v i = of_nat (4 * j + k) - of_nat (4 * i)" by (simp add: slot_def)
    have u: "unat (of_nat (4 * j + k) :: uint) = 4 * j + k" "unat (of_nat (4 * i) :: uint) = 4 * i"
      using assms that by (intro unat_small; simp)+
    show ?thesis unfolding e unat_sub_if' word_le_nat_alt u using assms that by auto
  qed
  then have "mem_read (wr_word m (slot v i) e) (slot v j) 4 = mem_read m (slot v j) 4"
    unfolding mem_read_def wr_word_def mem_write_def by (intro map_cong) auto
  then show ?thesis by (simp add: rd_word_def)
qed

lemma rd_wr_slot:
  assumes "aligned v" and "aligned w" and "i < 1024" and "j < 1024"
  shows "rd_word (wr_word m (slot v i) e) (slot w j) = (if v = w \<and> i = j then e else rd_word m (slot w j))"
  using assms rd_wr_slot_other [of i j _ v e] rd_slot_same_page [OF wr_slot_same_page, of v w i j] by auto

lemma rd_slot_fill [simp]: "i < 1024 \<Longrightarrow> rd_word (mem_fill m v 0 PGSIZE) (slot v i) = 0"
proof -
  assume i: "i < 1024"
  have "unat (slot v i + of_nat k - v) < 4096" if "k < 4" for k
    unfolding slot_offset [OF i that] using i that by (simp add: unat_of_nat del: of_nat_add of_nat_mult)
  then have "mem_read (mem_fill m v 0 PGSIZE) (slot v i) 4 = replicate 4 0"
    by (intro nth_equalityI) (simp_all add: mem_read_def mem_fill_def PGSIZE_def)
  then show ?thesis by (simp add: rd_word_def of_le32_def)
qed

section \<open>Page tables as maps\<close>

text \<open>The entry of page number \<open>n\<close>: 0 when the directory has no table for it.\<close>

definition pt_entry :: "mem \<Rightarrow> uint \<Rightarrow> nat \<Rightarrow> uint" where
  "pt_entry m pd n =
     (let e = rd_word m (slot pd (n div 1024)) in
      if e AND PTE_P = 0 then 0 else rd_word m (slot (PTE_ADDR e) (n mod 1024)))"

definition pt_table :: "mem \<Rightarrow> uint \<Rightarrow> nat \<Rightarrow> uint option" where
  "pt_table m pd d = (let e = rd_word m (slot pd d) in if e AND PTE_P = 0 then None else Some (PTE_ADDR e))"

definition pt_pages :: "mem \<Rightarrow> uint \<Rightarrow> uint set" where
  "pt_pages m pd = insert pd {v. \<exists>d < 1024. pt_table m pd d = Some v}"

text \<open>A directory is well formed when its tables are pages of their own.\<close>

definition pt_ok :: "mem \<Rightarrow> uint \<Rightarrow> bool" where
  "pt_ok m pd \<longleftrightarrow> aligned pd \<and> (\<forall>d < 1024. pt_table m pd d \<noteq> Some pd) \<and>
     (\<forall>d < 1024. \<forall>d' < 1024. \<forall>v. pt_table m pd d = Some v \<longrightarrow> pt_table m pd d' = Some v \<longrightarrow> d = d')"

lemma aligned_PTE_ADDR [simp]: "aligned (PTE_ADDR e)"
  by (simp add: aligned_nat unat_PTE_ADDR)

lemma pt_table_aligned: "pt_table m pd d = Some v \<Longrightarrow> aligned v"
  by (auto simp: pt_table_def Let_def split: if_splits)

lemma pt_entry_table:
  "pt_entry m pd n = (case pt_table m pd (n div 1024) of None \<Rightarrow> 0 | Some v \<Rightarrow> rd_word m (slot v (n mod 1024)))"
  by (simp add: pt_entry_def pt_table_def Let_def)

lemma pt_table_page: "d < 1024 \<Longrightarrow> pt_table m pd d = Some v \<Longrightarrow> v \<in> pt_pages m pd"
  by (auto simp: pt_pages_def)

text \<open>What lies in other pages does not matter to a directory.\<close>

lemma pt_table_same:
  "same_page m m' pd \<Longrightarrow> aligned pd \<Longrightarrow> d < 1024 \<Longrightarrow> pt_table m' pd d = pt_table m pd d"
  by (simp add: pt_table_def rd_slot_same_page)

lemma pt_same:
  assumes "pt_ok m pd" and "\<And>v. v \<in> pt_pages m pd \<Longrightarrow> same_page m m' v"
  shows "pt_ok m' pd" "pt_pages m' pd = pt_pages m pd" "n < 2 ^ 20 \<Longrightarrow> pt_entry m' pd n = pt_entry m pd n"
proof -
  have t: "pt_table m' pd d = pt_table m pd d" if "d < 1024" for d
    using assms that by (intro pt_table_same) (simp_all add: pt_ok_def pt_pages_def)
  then show "pt_pages m' pd = pt_pages m pd" by (auto simp: pt_pages_def)
  show "pt_ok m' pd" using assms(1) t unfolding pt_ok_def by metis
  assume "n < 2 ^ 20"
  then have d: "n div 1024 < 1024" by (simp add: less_mult_imp_div_less)
  show "pt_entry m' pd n = pt_entry m pd n"
  proof (cases "pt_table m pd (n div 1024)")
    case (Some v)
    then have "same_page m m' v" "aligned v" using assms(2) pt_table_page [OF d Some] pt_table_aligned by auto
    then show ?thesis using Some t [OF d] by (simp add: pt_entry_table rd_slot_same_page)
  qed (simp add: pt_entry_table t d)
qed

text \<open>Storing into an entry of a table changes that entry only.\<close>

lemma pt_entry_write:
  fixes e :: uint
  assumes ok: "pt_ok m pd" and n: "n < 2 ^ 20" and v: "pt_table m pd (n div 1024) = Some v"
  defines "m' \<equiv> wr_word m (slot v (n mod 1024)) e"
  shows "pt_ok m' pd" "pt_pages m' pd = pt_pages m pd" "j < 2 ^ 20 \<Longrightarrow> pt_entry m' pd j = (if j = n then e else pt_entry m pd j)"
proof -
  have d: "n div 1024 < 1024" using n by (simp add: less_mult_imp_div_less)
  have al: "aligned pd" "aligned v" "v \<noteq> pd" using ok v d pt_table_aligned by (auto simp: pt_ok_def)
  have t: "pt_table m' pd d = pt_table m pd d" if "d < 1024" for d
    unfolding m'_def using al that by (intro pt_table_same wr_slot_same_page) auto
  then show "pt_pages m' pd = pt_pages m pd" by (auto simp: pt_pages_def)
  show "pt_ok m' pd" using ok t unfolding pt_ok_def by metis
  assume "j < 2 ^ 20"
  then have dj: "j div 1024 < 1024" by (simp add: less_mult_imp_div_less)
  show "pt_entry m' pd j = (if j = n then e else pt_entry m pd j)"
  proof (cases "pt_table m pd (j div 1024)")
    case None
    then show ?thesis using v t [OF dj] by (auto simp: pt_entry_table)
  next
    case (Some w)
    then have w: "aligned w" "w = v \<longleftrightarrow> j div 1024 = n div 1024"
      using ok v d dj pt_table_aligned by (auto simp: pt_ok_def)
    have "j = n \<longleftrightarrow> j div 1024 = n div 1024 \<and> j mod 1024 = n mod 1024" by (metis div_mult_mod_eq)
    then show ?thesis using Some w al t [OF dj] by (auto simp: pt_entry_table m'_def rd_wr_slot)
  qed
qed

text \<open>A new, zeroed table in an empty slot of the directory changes no entry.\<close>

lemma pt_new_table:
  assumes ok: "pt_ok m pd" and d: "d < 1024" and none: "pt_table m pd d = None"
    and v: "aligned v" "v \<notin> pt_pages m pd" and e: "e AND PTE_P \<noteq> 0" "PTE_ADDR e = v"
  defines "m' \<equiv> wr_word (mem_fill m v 0 PGSIZE) (slot pd d) e"
  shows "pt_ok m' pd" "pt_pages m' pd = insert v (pt_pages m pd)" "pt_table m' pd d = Some v"
    "j < 2 ^ 20 \<Longrightarrow> pt_entry m' pd j = pt_entry m pd j"
proof -
  have al: "aligned pd" "v \<noteq> pd" using ok v by (auto simp: pt_ok_def pt_pages_def)
  have sp: "same_page m m' w" if "aligned w" "w \<noteq> v" "w \<noteq> pd" for w
    unfolding m'_def using that al v by (intro same_page_trans [OF same_page_fill wr_slot_same_page] d) auto
  have t: "pt_table m' pd i = (if i = d then Some v else pt_table m pd i)" if "i < 1024" for i
    using that al v d e rd_slot_same_page [OF same_page_fill [of v pd], of i m]
    by (auto simp: pt_table_def m'_def rd_wr_slot)
  then show "pt_table m' pd d = Some v" using d by simp
  have "(\<exists>i<1024. pt_table m' pd i = Some w) \<longleftrightarrow> w = v \<or> (\<exists>i<1024. pt_table m pd i = Some w)" for w
    using t d none by (metis option.distinct(1) option.inject)
  then show "pt_pages m' pd = insert v (pt_pages m pd)" by (auto simp: pt_pages_def)
  have "pt_table m pd i \<noteq> Some v" if "i < 1024" for i using v(2) that by (auto simp: pt_pages_def)
  then show "pt_ok m' pd" using ok al(2) by (auto simp: pt_ok_def t split: if_splits)
  assume "j < 2 ^ 20"
  then have dj: "j div 1024 < 1024" by (simp add: less_mult_imp_div_less)
  show "pt_entry m' pd j = pt_entry m pd j"
  proof (cases "j div 1024 = d")
    case True
    have "rd_word m' (slot v (j mod 1024)) = 0" using al v d by (simp add: m'_def rd_wr_slot)
    then show ?thesis using True d none t [of d] by (simp add: pt_entry_table)
  next
    case False
    show ?thesis
    proof (cases "pt_table m pd (j div 1024)")
      case (Some w)
      have w: "aligned w" using Some by (rule pt_table_aligned)
      have "w \<noteq> v" "w \<noteq> pd" using Some v ok dj pt_table_page [OF dj Some] by (auto simp: pt_ok_def)
      then show ?thesis using Some False dj t [OF dj] w rd_slot_same_page [OF sp] by (simp add: pt_entry_table)
    qed (use False dj t [OF dj] in \<open>simp add: pt_entry_table\<close>)
  qed
qed

section \<open>Walking and mapping\<close>

abbreviation vpn :: "uint \<Rightarrow> nat" where "vpn va \<equiv> unat va div 4096"

lemma of_nat_unat_id: "of_nat (unat (x :: uint)) = x"
  by simp

lemma vpn_less: "vpn va < 2 ^ 20"
  using unat_lt [of va] by (simp add: less_mult_imp_div_less)

lemma and_3FF: "unat ((x :: uint) AND 0x3FF) = unat x mod 1024"
proof -
  have "x AND 0x3FF = take_bit 10 x" by (simp add: mask_consts(4) take_bit_eq_mask)
  then show ?thesis by (simp add: take_bit_eq_mod unat_mod)
qed

lemma PTX_vpn: "PTX va = of_nat (vpn va mod 1024)"
proof -
  have "unat (PTX va) = vpn va mod 1024" by (simp add: PTX_def and_3FF drop_bit_eq_div unat_div)
  then show ?thesis by (metis of_nat_unat_id)
qed

lemma PDX_vpn: "PDX va = of_nat (vpn va div 1024)"
proof -
  have "unat (PDX va) = unat va div 4194304 mod 1024" by (simp add: PDX_def and_3FF drop_bit_eq_div unat_div)
  moreover have "unat va div 4194304 = vpn va div 1024" by (simp add: div_mult2_eq [symmetric])
  moreover have "vpn va div 1024 < 1024" using vpn_less [of va] by (simp add: less_mult_imp_div_less)
  ultimately have "unat (PDX va) = vpn va div 1024" by simp
  then show ?thesis by (metis of_nat_unat_id)
qed

lemma pde_addr_slot: "pde_addr pd va = slot pd (vpn va div 1024)"
  by (simp add: pde_addr_def slot_def PDX_vpn)

lemma pte_addr_slot: "v + 4 * PTX va = slot v (vpn va mod 1024)"
  by (simp add: slot_def PTX_vpn)

definition mem_split :: "'a kmem_scheme \<Rightarrow> uint list \<Rightarrow> uint set \<Rightarrow> bool" where
  "mem_split s vs U \<longleftrightarrow> pool_ok s vs \<and> set vs \<inter> U = {} \<and> (\<forall>v \<in> U. page_ok s v)"

lemma mem_split_same:
  assumes "mem_split s vs U" and "\<And>v. v \<in> set vs \<Longrightarrow> same_page (pmem s) m v"
  shows "mem_split (s\<lparr>pmem := m\<rparr>) vs U"
proof -
  have "free_chain m (freelist s) vs = free_chain (pmem s) (freelist s) vs"
    using assms by (intro free_chain_same) (auto simp: mem_split_def pool_ok_def page_ok_def)
  then show ?thesis using assms(1) by (simp add: mem_split_def pool_ok_def page_ok_def)
qed

lemma mem_split_alloc:
  assumes "mem_split s (v # vs) U"
  shows "returns (kalloc s) (\<lambda>r t. r = v \<and> r \<noteq> 0 \<and> aligned v \<and> v \<notin> U \<and> mem_split t vs (insert v U) \<and> pmem t = pmem s \<and> nomem t = nomem s)"
proof -
  have p: "pool_ok s (v # vs)" and v: "page_ok s v" "v \<notin> set vs" "v \<notin> U"
    using assms pp.pool_distinct [of s "v # vs"] pp.pool_usable [of s "v # vs" v] by (auto simp: mem_split_def)
  show ?thesis
  proof (rule returns_mono [OF pp.alloc_pop [OF p]], elim conjE)
    fix r t assume t: "r = v" "pool_ok t vs" "pmem t = pmem s" "nomem t = nomem s"
    have "mem_split t vs (insert v U)"
      using t(2) assms v page_ok_nomem [OF t(4)] by (auto simp: mem_split_def)
    then show "r = v \<and> r \<noteq> 0 \<and> aligned v \<and> v \<notin> U \<and> mem_split t vs (insert v U) \<and> pmem t = pmem s \<and> nomem t = nomem s"
      using t v by (auto simp: page_ok_def)
  qed
qed

lemma mem_split_none: "mem_split s [] U \<Longrightarrow> kalloc s = Ret 0 s"
  by (simp add: mem_split_def pp.alloc_none)

definition vm_ok :: "'a kvm_scheme \<Rightarrow> uint set \<Rightarrow> uint list \<Rightarrow> uint \<Rightarrow> bool" where
  "vm_ok s U vs pd \<longleftrightarrow> mem_split s vs U \<and> pt_ok (pmem s) pd \<and> pt_pages (pmem s) pd \<subseteq> U"

text \<open>\<open>t\<close> differs from \<open>s\<close> in the directory \<open>pd\<close> and its tables only, and has the new tables \<open>new\<close>.\<close>

definition vm_grow :: "'a kvm_scheme \<Rightarrow> uint set \<Rightarrow> uint list \<Rightarrow> uint \<Rightarrow> 'a kvm_scheme \<Rightarrow> uint list \<Rightarrow> uint list \<Rightarrow> bool" where
  "vm_grow s U vs pd t new vs' \<longleftrightarrow> vs = new @ vs' \<and> nomem t = nomem s \<and> vm_ok t (U \<union> set new) vs' pd \<and>
     pt_pages (pmem t) pd = pt_pages (pmem s) pd \<union> set new \<and>
     (\<forall>w \<in> U - pt_pages (pmem s) pd. same_page (pmem s) (pmem t) w)"

lemma vm_grow_refl: "vm_ok s U vs pd \<Longrightarrow> vm_grow s U vs pd s [] vs"
  by (simp add: vm_grow_def)

lemma vm_grow_trans:
  assumes "vm_ok s U vs pd" and "vm_grow s U vs pd t a vs1" and "vm_grow t (U \<union> set a) vs1 pd u b vs2"
  shows "vm_grow s U vs pd u (a @ b) vs2"
proof -
  have "w \<notin> set a" if "w \<in> U" for w using assms(1,2) that by (auto simp: vm_ok_def vm_grow_def mem_split_def)
  then have "same_page (pmem s) (pmem u) w" if "w \<in> U - pt_pages (pmem s) pd" for w
    using assms(2,3) that by (auto simp: vm_grow_def intro!: same_page_trans [of "pmem s" "pmem t" w "pmem u"])
  then show ?thesis using assms(2,3) by (auto simp: vm_grow_def Un_assoc)
qed

lemma vm_aligned: "vm_ok s U vs pd \<Longrightarrow> w \<in> U \<union> set vs \<Longrightarrow> aligned w"
  by (auto simp: vm_ok_def mem_split_def page_ok_def pool_ok_def)

lemma PTE_P_bit: "x AND PTE_P = 0 \<longleftrightarrow> \<not> bit x 0"
  by (simp add: PTE_P_def and_one_eq mod_2_eq_odd bit_0)

lemma PTE_P_flags: "(a OR b OR PTE_P) AND PTE_P \<noteq> 0" "(a OR PTE_P OR b) AND PTE_P \<noteq> 0"
  by (simp_all add: PTE_P_bit bit_or_iff) (simp_all add: PTE_P_def)

lemma PTE_ADDR_flags: "aligned pa \<Longrightarrow> perm AND NOT 0xFFF = 0 \<Longrightarrow> PTE_ADDR (pa OR perm) = pa"
proof -
  assume a: "aligned pa" "perm AND NOT 0xFFF = 0"
  have "unat (PTE_ADDR pa) = unat pa" using a(1) div_mult_mod_eq [of "unat pa" 4096] unfolding unat_PTE_ADDR aligned_nat by simp
  then have "PTE_ADDR pa = pa" by (rule unsigned_word_eqI)
  then show ?thesis using a(2) unfolding PTE_ADDR_def bit.conj_disj_distrib2 by simp
qed

text \<open>\<open>walkpgdir\<close> reads the entry it points to, and makes the table when asked to.\<close>

lemma walk_find:
  "walkpgdir pd va False s = Ret (map_option (\<lambda>v. slot v (vpn va mod 1024)) (pt_table (pmem s) pd (vpn va div 1024))) s"
  by (simp add: walkpgdir_def pde_addr_slot pte_addr_slot pt_table_def Let_def)

lemma walk_create:
  assumes ok: "vm_ok s U vs pd"
  shows "returns (walkpgdir pd va True s) (\<lambda>r t. case r of None \<Rightarrow> vs = [] \<and> t = s
    | Some a \<Rightarrow> \<exists>new vs' v. vm_grow s U vs pd t new vs' \<and> (\<forall>j < 2 ^ 20. pt_entry (pmem t) pd j = pt_entry (pmem s) pd j) \<and>
        pt_table (pmem t) pd (vpn va div 1024) = Some v \<and> a = slot v (vpn va mod 1024))"
    (is "returns _ ?Q")
proof -
  let ?d = "vpn va div 1024" and ?k = "vpn va mod 1024"
  have d: "?d < 1024" using vpn_less [of va] by (simp add: less_mult_imp_div_less)
  show ?thesis
  proof (cases "pt_table (pmem s) pd ?d")
    case (Some v)
    then have "walkpgdir pd va True s = Ret (Some (slot v ?k)) s"
      by (auto simp: walkpgdir_def pde_addr_slot pte_addr_slot pt_table_def Let_def split: if_splits)
    moreover have "vm_grow s U vs pd s [] vs" using ok by (rule vm_grow_refl)
    ultimately show ?thesis using Some by auto
  next
    case None
    then have w: "walkpgdir pd va True s = and_then (kalloc s) (\<lambda>pgtab s. if pgtab = 0 then Ret None s
        else Ret (Some (slot pgtab ?k)) (s\<lparr>pmem := wr_word (mem_fill (pmem s) pgtab 0 PGSIZE) (slot pd ?d)
          (pgtab OR PTE_P OR PTE_W OR PTE_U)\<rparr>))"
      unfolding walkpgdir_def pde_addr_slot pte_addr_slot pt_table_def Let_def by (auto split: if_splits)
    have ms: "mem_split s vs U" and po: "pt_ok (pmem s) pd" and pu: "pt_pages (pmem s) pd \<subseteq> U" using ok by (auto simp: vm_ok_def)
    show ?thesis
    proof (cases vs)
      case Nil
      then show ?thesis using ms mem_split_none [of s U] unfolding w by simp
    next
      case (Cons v vs')
      show ?thesis unfolding w
      proof (rule returns_bind [OF mem_split_alloc [OF ms [unfolded Cons]]], elim conjE)
        fix r t assume t: "r = v" "r \<noteq> 0" "aligned v" "v \<notin> U" "mem_split t vs' (insert v U)" "pmem t = pmem s" "nomem t = nomem s"
        let ?e = "v OR PTE_P OR PTE_W OR PTE_U"
        let ?m = "wr_word (mem_fill (pmem s) v 0 PGSIZE) (slot pd ?d) ?e"
        have pd: "pd \<in> U" "aligned pd" "v \<noteq> pd" using pu po t(4) by (auto simp: pt_pages_def pt_ok_def)
        have "PTE_P OR PTE_W OR PTE_U = 7" by (simp add: PTE_P_def PTE_W_def PTE_U_def)
        then have e: "?e AND PTE_P \<noteq> 0" "PTE_ADDR ?e = v"
          using PTE_P_flags(2) [of v "PTE_W OR PTE_U"] PTE_ADDR_flags [OF t(3), of 7] by (simp_all add: or.assoc)
        have n: "v \<notin> pt_pages (pmem s) pd" using t(4) pu by blast
        note nt = pt_new_table [OF po d None t(3) n e]
        have sp: "same_page (pmem s) ?m w" if "aligned w" "w \<noteq> v" "w \<noteq> pd" for w
          using that pd t(3) d by (intro same_page_trans [OF same_page_fill wr_slot_same_page]) auto
        have "w \<noteq> v \<and> w \<noteq> pd \<and> aligned w" if "w \<in> set vs'" for w
          using that t(5) pd by (auto simp: mem_split_def pool_ok_def page_ok_def)
        then have "mem_split (t\<lparr>pmem := ?m\<rparr>) vs' (insert v U)" using sp t(6) by (intro mem_split_same [OF t(5)]) auto
        then have "vm_grow s U vs pd (t\<lparr>pmem := ?m\<rparr>) [v] vs'"
          using nt pu t sp vm_aligned [OF ok] Cons by (auto simp: vm_grow_def vm_ok_def nomem_def pt_pages_def)
        then show "returns (if r = 0 then Ret None t else Ret (Some (slot r ?k)) (t\<lparr>pmem := wr_word (mem_fill (pmem t) r 0 PGSIZE)
            (slot pd ?d) (r OR PTE_P OR PTE_W OR PTE_U)\<rparr>)) ?Q"
          using t(1,2,6) nt(3,4) by auto
      qed
    qed
  qed
qed

text \<open>\<open>t\<close> has the pages from \<open>n\<close> on mapped to consecutive frames, \<open>i\<close> of them.\<close>

definition maps_run :: "mem \<Rightarrow> mem \<Rightarrow> uint \<Rightarrow> nat \<Rightarrow> nat \<Rightarrow> uint \<Rightarrow> uint \<Rightarrow> bool" where
  "maps_run m m' pd n i pa perm \<longleftrightarrow> (\<forall>j < 2 ^ 20. pt_entry m' pd j =
     (if n \<le> j \<and> j < n + i then (pa + of_nat (4096 * (j - n))) OR perm OR PTE_P else pt_entry m pd j))"

lemma map_one:
  assumes ok: "vm_ok s U vs pd" and t: "pt_table (pmem s) pd (n div 1024) = Some v" and n: "n < 2 ^ 20"
  shows "vm_grow s U vs pd (s\<lparr>pmem := wr_word (pmem s) (slot v (n mod 1024)) e\<rparr>) [] vs"
proof -
  have d: "n div 1024 < 1024" using n by (simp add: less_mult_imp_div_less)
  have po: "pt_ok (pmem s) pd" using ok by (simp add: vm_ok_def)
  have v: "aligned v" "v \<in> pt_pages (pmem s) pd" using t pt_table_aligned pt_table_page [OF d t] by auto
  have sp: "same_page (pmem s) (wr_word (pmem s) (slot v (n mod 1024)) e) w" if "aligned w" "w \<noteq> v" for w
    using that v(1) by (intro wr_slot_same_page) auto
  have "w \<noteq> v \<and> aligned w" if "w \<in> set vs" for w
    using that ok v by (auto simp: vm_ok_def mem_split_def pool_ok_def page_ok_def)
  then have "mem_split (s\<lparr>pmem := wr_word (pmem s) (slot v (n mod 1024)) e\<rparr>) vs U"
    using ok sp by (intro mem_split_same) (auto simp: vm_ok_def)
  moreover have "same_page (pmem s) (wr_word (pmem s) (slot v (n mod 1024)) e) w" if "w \<in> U - pt_pages (pmem s) pd" for w
    using that v(2) vm_aligned [OF ok, of w] by (intro sp) auto
  ultimately show ?thesis using ok pt_entry_write(1,2) [OF po n t, of e] by (simp add: vm_grow_def vm_ok_def nomem_def)
qed

lemma map_page:
  assumes ok: "vm_ok s U vs pd" and a: "pt_entry (pmem s) pd (vpn a) AND PTE_P = 0"
  shows "returns (walkpgdir pd a True s) (\<lambda>r t. case r of None \<Rightarrow> vs = [] \<and> t = s
    | Some p \<Rightarrow> rd_word (pmem t) p AND PTE_P = 0 \<and> (\<forall>e. \<exists>new vs'. vm_grow s U vs pd (t\<lparr>pmem := wr_word (pmem t) p e\<rparr>) new vs' \<and>
        (\<forall>j < 2 ^ 20. pt_entry (wr_word (pmem t) p e) pd j = (if j = vpn a then e else pt_entry (pmem s) pd j))))"
proof (rule returns_mono [OF walk_create [OF ok, of a]])
  fix r t
  assume *: "case r of None \<Rightarrow> vs = [] \<and> t = s
    | Some p \<Rightarrow> \<exists>new vs' v. vm_grow s U vs pd t new vs' \<and> (\<forall>j < 2 ^ 20. pt_entry (pmem t) pd j = pt_entry (pmem s) pd j) \<and>
        pt_table (pmem t) pd (vpn a div 1024) = Some v \<and> p = slot v (vpn a mod 1024)"
  show "case r of None \<Rightarrow> vs = [] \<and> t = s
    | Some p \<Rightarrow> rd_word (pmem t) p AND PTE_P = 0 \<and> (\<forall>e. \<exists>new vs'. vm_grow s U vs pd (t\<lparr>pmem := wr_word (pmem t) p e\<rparr>) new vs' \<and>
        (\<forall>j < 2 ^ 20. pt_entry (wr_word (pmem t) p e) pd j = (if j = vpn a then e else pt_entry (pmem s) pd j)))"
  proof (cases r)
    case (Some p)
    then obtain new vs' v where g: "vm_grow s U vs pd t new vs'" and en: "\<forall>j < 2 ^ 20. pt_entry (pmem t) pd j = pt_entry (pmem s) pd j"
      and v: "pt_table (pmem t) pd (vpn a div 1024) = Some v" and p: "p = slot v (vpn a mod 1024)" using * by auto
    have ok': "vm_ok t (U \<union> set new) vs' pd" using g by (simp add: vm_grow_def)
    then have po: "pt_ok (pmem t) pd" by (simp add: vm_ok_def)
    have "rd_word (pmem t) p = pt_entry (pmem t) pd (vpn a)" using v p by (simp add: pt_entry_table)
    then have "rd_word (pmem t) p AND PTE_P = 0" using en a vpn_less [of a] by simp
    moreover have "vm_grow s U vs pd (t\<lparr>pmem := wr_word (pmem t) p e\<rparr>) new vs'" for e
      using vm_grow_trans [OF ok g map_one [OF ok' v vpn_less]] p by simp
    ultimately show ?thesis using Some pt_entry_write(3) [OF po vpn_less v] en p by auto
  qed (use * in simp)
qed

lemma maps_run_none [simp]: "maps_run m m pd n 0 pa perm"
  by (auto simp: maps_run_def)

lemma maps_run_Suc:
  assumes "\<forall>j < 2 ^ 20. pt_entry m' pd j = (if j = n then pa OR perm OR PTE_P else pt_entry m pd j)"
    and "maps_run m' m'' pd (Suc n) i (pa + 4096) perm"
  shows "maps_run m m'' pd n (Suc i) pa perm"
  unfolding maps_run_def
proof (intro allI impI)
  fix j :: nat assume j: "j < 2 ^ 20"
  have "pa + 4096 + of_nat (4096 * (j - Suc n)) = pa + of_nat (4096 * (j - n))" if "Suc n \<le> j"
  proof -
    have "4096 * (j - n) = 4096 + 4096 * (j - Suc n)" using that by simp
    then show ?thesis by (simp only: of_nat_add) simp
  qed
  then show "pt_entry m'' pd j = (if n \<le> j \<and> j < n + Suc i then (pa + of_nat (4096 * (j - n))) OR perm OR PTE_P else pt_entry m pd j)"
    using assms j unfolding maps_run_def by (cases "j = n") auto
qed

lemma map_step:
  assumes ok: "vm_ok s U vs pd" and a: "pt_entry (pmem s) pd (vpn a) AND PTE_P = 0"
    and none: "vs = [] \<Longrightarrow> Q (-1) s"
    and more: "\<And>t new vs'. vm_grow s U vs pd t new vs' \<Longrightarrow>
      \<forall>j < 2 ^ 20. pt_entry (pmem t) pd j = (if j = vpn a then e else pt_entry (pmem s) pd j) \<Longrightarrow> returns (f t) Q"
  shows "returns (and_then (walkpgdir pd a True s) (\<lambda>pte s.
     case pte of None \<Rightarrow> Ret (-1) s
     | Some pte \<Rightarrow> if rd_word (pmem s) pte AND PTE_P \<noteq> 0 then Panic ''remap'' else f (s\<lparr>pmem := wr_word (pmem s) pte e\<rparr>))) Q"
proof (rule returns_bind [OF map_page [OF ok a]])
  fix r t assume *: "case r of None \<Rightarrow> vs = [] \<and> t = s
    | Some p \<Rightarrow> rd_word (pmem t) p AND PTE_P = 0 \<and> (\<forall>e. \<exists>new vs'. vm_grow s U vs pd (t\<lparr>pmem := wr_word (pmem t) p e\<rparr>) new vs' \<and>
        (\<forall>j < 2 ^ 20. pt_entry (wr_word (pmem t) p e) pd j = (if j = vpn a then e else pt_entry (pmem s) pd j)))"
  show "returns (case r of None \<Rightarrow> Ret (-1) t
     | Some pte \<Rightarrow> if rd_word (pmem t) pte AND PTE_P \<noteq> 0 then Panic ''remap'' else f (t\<lparr>pmem := wr_word (pmem t) pte e\<rparr>)) Q"
  proof (cases r)
    case (Some p)
    then obtain new vs' where "vm_grow s U vs pd (t\<lparr>pmem := wr_word (pmem t) p e\<rparr>) new vs'"
      "\<forall>j < 2 ^ 20. pt_entry (wr_word (pmem t) p e) pd j = (if j = vpn a then e else pt_entry (pmem s) pd j)"
      "rd_word (pmem t) p AND PTE_P = 0" using * by force
    then show ?thesis using Some more [of "t\<lparr>pmem := wr_word (pmem t) p e\<rparr>"] by simp
  qed (use * none in simp)
qed

lemma mappages_loop_spec:
  assumes "vm_ok s U vs pd" and "unat a = 4096 * n" and "n + k < 2 ^ 20"
    and "\<And>j. n \<le> j \<Longrightarrow> j \<le> n + k \<Longrightarrow> pt_entry (pmem s) pd j AND PTE_P = 0"
  shows "returns (mappages_loop k pd a pa perm s) (\<lambda>r t. \<exists>new vs' i. vm_grow s U vs pd t new vs' \<and>
    maps_run (pmem s) (pmem t) pd n i pa perm \<and> (r = 0 \<and> i = Suc k \<or> r = -1 \<and> i \<le> k \<and> vs' = []))"
    (is "returns _ (?Q s U vs n k pa)")
  using assms
proof (induction k arbitrary: s U vs a n pa)
  case (0 s U vs a n pa)
  have n: "vpn a = n" using 0(2) by simp
  show ?case unfolding mappages_loop.simps [of 0] Let_def
  proof (rule map_step [OF 0(1)], unfold n)
    show "pt_entry (pmem s) pd n AND PTE_P = 0" using 0(4) [of n] by simp
    show "?Q s U vs n 0 pa (-1) s" if "vs = []" using that vm_grow_refl [OF 0(1)] by (intro exI [of _ "[]"] exI [of _ 0]) simp
    fix t new vs' assume "vm_grow s U vs pd t new vs'"
      "\<forall>j < 2 ^ 20. pt_entry (pmem t) pd j = (if j = n then pa OR perm OR PTE_P else pt_entry (pmem s) pd j)"
    then show "returns (case 0 of 0 \<Rightarrow> Ret 0 t | Suc n \<Rightarrow> mappages_loop n pd (a + of_nat PGSIZE) (pa + of_nat PGSIZE) perm t) (?Q s U vs n 0 pa)"
      using maps_run_Suc [OF _ maps_run_none] by auto
  qed
next
  case (Suc k s U vs a n pa)
  have n: "vpn a = n" using Suc.prems(2) by simp
  show ?case unfolding mappages_loop.simps [of "Suc k"] Let_def
  proof (rule map_step [OF Suc.prems(1)], unfold n)
    show "pt_entry (pmem s) pd n AND PTE_P = 0" using Suc.prems(4) [of n] by simp
    show "?Q s U vs n (Suc k) pa (-1) s" if "vs = []" using that vm_grow_refl [OF Suc.prems(1)] by (intro exI [of _ "[]"] exI [of _ 0]) simp
    fix t new vs' assume g: "vm_grow s U vs pd t new vs'"
      and e: "\<forall>j < 2 ^ 20. pt_entry (pmem t) pd j = (if j = n then pa OR perm OR PTE_P else pt_entry (pmem s) pd j)"
    have ok: "vm_ok t (U \<union> set new) vs' pd" using g by (simp add: vm_grow_def)
    have "unat (a + 4096) = 4096 * Suc n"
      using Suc.prems(2,3) by (simp add: unat_word_ariths)
    then have "returns (mappages_loop k pd (a + 4096) (pa + 4096) perm t) (?Q t (U \<union> set new) vs' (Suc n) k (pa + 4096))"
      using Suc.prems(3,4) e by (intro Suc.IH [OF ok]) auto
    then show "returns (case Suc k of 0 \<Rightarrow> Ret 0 t | Suc n \<Rightarrow> mappages_loop n pd (a + of_nat PGSIZE) (pa + of_nat PGSIZE) perm t) (?Q s U vs n (Suc k) pa)"
      unfolding nat.case PGSIZE_def of_nat_numeral
    proof (rule returns_mono)
      fix r u assume "?Q t (U \<union> set new) vs' (Suc n) k (pa + 4096) r u"
      then show "?Q s U vs n (Suc k) pa r u"
        using vm_grow_trans [OF Suc.prems(1) g] maps_run_Suc [OF e] by fastforce
    qed
  qed
qed

lemma mappages_spec:
  assumes "vm_ok s U vs pd" and "unat la = 4096 * n" and "unat sz = 4096 * Suc k" and "n + k < 2 ^ 20"
    and "\<And>j. n \<le> j \<Longrightarrow> j \<le> n + k \<Longrightarrow> pt_entry (pmem s) pd j AND PTE_P = 0"
  shows "returns (mappages pd la sz pa perm s) (\<lambda>r t. \<exists>new vs' i. vm_grow s U vs pd t new vs' \<and>
    maps_run (pmem s) (pmem t) pd n i pa perm \<and> (r = 0 \<and> i = Suc k \<or> r = -1 \<and> i \<le> k \<and> vs' = []))"
proof -
  have "unat (la + (sz - 1)) = 4096 * n + (4096 * Suc k - 1)"
  proof -
    have "unat (sz - 1) = 4096 * Suc k - 1" using assms(3) by (simp add: unat_sub word_le_nat_alt)
    then show ?thesis using assms(2,4) by (simp add: unat_word_ariths)
  qed
  then have l: "unat (PGROUNDDOWN (la + sz - 1)) = 4096 * (n + k)" unfolding unat_PGROUNDDOWN by (simp add: add_diff_eq)
  have a: "unat (PGROUNDDOWN la) = 4096 * n" using assms(2) by (simp add: unat_PGROUNDDOWN)
  then have "unat (PGROUNDDOWN la) = unat la" using assms(2) by simp
  then have e: "PGROUNDDOWN la = la" by (rule unsigned_word_eqI)
  have "unat (PGROUNDDOWN (la + sz - 1) - la) = 4096 * k"
    using l assms(2) by (simp add: unat_sub word_le_nat_alt)
  then have "unat ((PGROUNDDOWN (la + sz - 1) - la) div of_nat PGSIZE) = k" by (simp add: unat_div PGSIZE_def)
  then show ?thesis using mappages_loop_spec [OF assms(1,2,4,5)] by (simp add: mappages_def e Let_def)
qed

section \<open>The kernel's part of an address space\<close>

definition in_region :: "nat \<Rightarrow> uint \<times> uint \<times> uint \<Rightarrow> bool" where
  "in_region j = (\<lambda>(p, e, perm). vpn p \<le> j \<and> j \<le> vpn (e - 1))"

text \<open>The entry that a list of regions prescribes for a page; \<open>d\<close> for a page outside all of them.\<close>

definition region_entry :: "(uint \<times> uint \<times> uint) list \<Rightarrow> uint \<Rightarrow> nat \<Rightarrow> uint" where
  "region_entry ks d j = (case find (in_region j) ks of None \<Rightarrow> d
     | Some (p, e, perm) \<Rightarrow> of_nat (4096 * j) OR perm OR PTE_P)"

fun regions_ok :: "(uint \<times> uint \<times> uint) list \<Rightarrow> bool" where
  "regions_ok [] \<longleftrightarrow> True"
| "regions_ok ((p, e, perm) # ks) \<longleftrightarrow> p \<noteq> 0 \<and> aligned p \<and> aligned e \<and> p \<le> e - 1 \<and> (\<forall>(p', e', perm') \<in> set ks. e \<le> p' \<and> e \<noteq> 0) \<and> regions_ok ks"

lemma region_last: "aligned e \<Longrightarrow> unat (e - 1) = 4096 * vpn (e - 1) + 4095"
proof (cases "e = 0")
  case False
  assume "aligned e"
  then obtain q where q: "unat e = 4096 * q" by (metis aligned_nat dvd_def mod_0_imp_dvd)
  have e: "0 < unat e" using False by (simp add: unat_gt_0)
  then have "q \<noteq> 0" using q by simp
  moreover have "unat (e - 1) = 4096 * q - 1" using q e by (simp add: unat_sub word_le_nat_alt)
  ultimately have "unat (e - 1) = 4095 + 4096 * (q - 1)" by (cases q) auto
  then show ?thesis by simp
qed (simp add: unsigned_minus_1_eq_mask mask_eq_exp_minus_1)

lemma aligned_vpn: "aligned p \<Longrightarrow> unat p = 4096 * vpn p"
  using div_mult_mod_eq [of "unat p" 4096] by (simp add: aligned_nat)

lemma region_size:
  assumes "p \<noteq> 0" and "aligned p" and "aligned e" and "p \<le> e - 1"
  shows "unat (e - p) = 4096 * Suc (vpn (e - 1) - vpn p)" "vpn p \<le> vpn (e - 1)"
proof -
  have p: "unat p = 4096 * vpn p" and e: "unat (e - 1) = 4096 * vpn (e - 1) + 4095"
    by (rule aligned_vpn [OF assms(2)], rule region_last [OF assms(3)])
  have pe: "unat p \<le> unat (e - 1)" using assms(4) by (simp add: word_le_nat_alt)
  then show "vpn p \<le> vpn (e - 1)" by (rule div_le_mono)
  then obtain k where k: "vpn (e - 1) = vpn p + k" by (metis le_Suc_ex)
  have "0 < unat p" using assms(1) by (simp add: unat_gt_0)
  moreover have m: "unat (e - 1 - p) = unat (e - 1) - unat p" using assms(4) by (rule unat_sub)
  ultimately have "unat (e - 1 - p) + 1 < 2 ^ 32" using unat_lt [of "e - 1"] pe by linarith
  then have "unat (e - 1 - p + 1) = unat (e - 1 - p) + 1" by (rule unat_inc)
  then have "unat (e - p) = unat (e - 1) - unat p + 1" using m by (simp only: diff_add_cancel diff_right_commute [of e 1 p])
  then have "unat (e - p) = 4096 * vpn (e - 1) + 4095 - 4096 * vpn p + 1" using p e by linarith
  then show "unat (e - p) = 4096 * Suc (vpn (e - 1) - vpn p)" unfolding k by simp
qed

lemma region_after: "aligned e \<Longrightarrow> e \<le> p \<Longrightarrow> e \<noteq> 0 \<Longrightarrow> vpn (e - 1) < vpn p"
proof -
  assume a: "aligned e" "e \<le> p" "e \<noteq> 0"
  have "unat (e - 1) + 1 = unat e" using a(3) by (simp add: unat_sub word_le_nat_alt unat_gt_0 Suc_le_eq)
  then have "unat (e - 1) + 1 \<le> unat p" using a(2) by (simp add: word_le_nat_alt)
  then have "4096 * Suc (vpn (e - 1)) \<le> unat p" by (subst (asm) region_last [OF a(1)]) simp
  then have "4096 * Suc (vpn (e - 1)) div 4096 \<le> vpn p" by (rule div_le_mono)
  then show ?thesis by simp
qed

lemma setupkvm_loop_spec:
  assumes "vm_ok s U vs pd" and "regions_ok ks" and "pd \<noteq> 0"
    and "\<And>j k. j < 2 ^ 20 \<Longrightarrow> k \<in> set ks \<Longrightarrow> in_region j k \<Longrightarrow> pt_entry (pmem s) pd j AND PTE_P = 0"
  shows "returns (setupkvm_loop pd ks s) (\<lambda>r t. \<exists>new vs'. vm_grow s U vs pd t new vs' \<and>
    (r = pd \<and> (\<forall>j < 2 ^ 20. pt_entry (pmem t) pd j = region_entry ks (pt_entry (pmem s) pd j) j) \<or> r = 0 \<and> vs' = []))"
    (is "returns _ (?Q s U vs ks)")
  using assms
proof (induction ks arbitrary: s U vs)
  case Nil
  then show ?case using vm_grow_refl by (fastforce simp: region_entry_def)
next
  case (Cons k ks)
  obtain p e perm where k: "k = (p, e, perm)" by (cases k)
  have rk: "p \<noteq> 0" "aligned p" "aligned e" "p \<le> e - 1" "regions_ok ks"
    and ks: "\<And>p' e' perm'. (p', e', perm') \<in> set ks \<Longrightarrow> e \<le> p' \<and> e \<noteq> 0"
    using Cons.prems(2) k by auto
  let ?n = "vpn p" and ?k = "vpn (e - 1) - vpn p"
  note sz = region_size [OF rk(1-4)]
  have b: "?n + ?k < 2 ^ 20" using sz(2) vpn_less [of "e - 1"] by simp
  have M: "returns (mappages pd p (e - p) p perm s) (\<lambda>r t. \<exists>new vs' i. vm_grow s U vs pd t new vs' \<and>
    maps_run (pmem s) (pmem t) pd ?n i p perm \<and> (r = 0 \<and> i = Suc ?k \<or> r = -1 \<and> i \<le> ?k \<and> vs' = []))"
  proof (rule mappages_spec [OF Cons.prems(1) aligned_vpn [OF rk(2)] sz(1) b])
    fix j :: nat assume "?n \<le> j" "j \<le> ?n + ?k"
    then show "pt_entry (pmem s) pd j AND PTE_P = 0" using Cons.prems(4) [of j k] sz b k by (auto simp: in_region_def)
  qed
  have out: "\<not> in_region j k'" if "in_region j k" "k' \<in> set ks" for j k'
    using that ks region_after [OF rk(3)] k by (cases k') (force simp: in_region_def)
  show ?case unfolding k setupkvm_loop.simps
  proof (rule returns_bind [OF M], elim exE conjE disjE)
    fix r :: uint and t new vs' i
    assume g: "vm_grow s U vs pd t new vs'" and m: "maps_run (pmem s) (pmem t) pd ?n i p perm" and r: "r = 0" "i = Suc ?k"
    have p: "p + of_nat (4096 * (j - ?n)) = of_nat (4096 * j)" if "?n \<le> j" for j
    proof -
      have "p = of_nat (4096 * ?n)" using aligned_vpn [OF rk(2)] by (metis of_nat_unat_id)
      moreover have "4096 * j = 4096 * ?n + 4096 * (j - ?n)" using that by simp
      ultimately show ?thesis by (metis of_nat_add)
    qed
    have en: "pt_entry (pmem t) pd j = (if in_region j k then of_nat (4096 * j) OR perm OR PTE_P else pt_entry (pmem s) pd j)"
      if "j < 2 ^ 20" for j
      using m that r(2) p [of j] sz(2) k unfolding maps_run_def in_region_def by auto
    have ok: "vm_ok t (U \<union> set new) vs' pd" using g by (simp add: vm_grow_def)
    have pre: "pt_entry (pmem t) pd j AND PTE_P = 0" if "j < 2 ^ 20" "k' \<in> set ks" "in_region j k'" for j k'
      using en [OF that(1)] Cons.prems(4) [OF that(1) _ that(3)] that(2) out [of j k'] that(3) by auto
    have "region_entry ks (pt_entry (pmem t) pd j) j = region_entry (k # ks) (pt_entry (pmem s) pd j) j" if j: "j < 2 ^ 20" for j
    proof (cases "in_region j k")
      case True
      then have "find (in_region j) ks = None" using out by (auto simp: find_None_iff)
      then show ?thesis using True en [OF j] k by (simp add: region_entry_def)
    qed (simp add: region_entry_def en [OF j])
    then have "?Q s U vs (k # ks) r' u" if "?Q t (U \<union> set new) vs' ks r' u" for r' u
      using that vm_grow_trans [OF Cons.prems(1) g] by fastforce
    then show "returns (if sint r < 0 then Ret 0 t else setupkvm_loop pd ks t) (?Q s U vs ((p, e, perm) # ks))"
      using returns_mono [OF Cons.IH [OF ok rk(5) Cons.prems(3) pre]] r k by simp
  next
    fix r :: uint and t new vs' i
    assume "vm_grow s U vs pd t new vs'" "r = -1" "vs' = []"
    then show "returns (if sint r < 0 then Ret 0 t else setupkvm_loop pd ks t) (?Q s U vs ((p, e, perm) # ks))" by auto
  qed
qed

section \<open>Copying an address space\<close>

lemma vm_take:
  assumes ok: "vm_ok s U (v # vs) d" and bs: "length bs = PGSIZE"
  shows "returns (kalloc s) (\<lambda>r t. r = v \<and> r \<noteq> 0 \<and> aligned v \<and> v \<notin> U \<and> nomem t = nomem s \<and> pmem t = pmem s \<and>
    vm_ok (t\<lparr>pmem := mem_write (pmem s) v bs\<rparr>) (insert v U) vs d \<and>
    pt_pages (mem_write (pmem s) v bs) d = pt_pages (pmem s) d \<and>
    (\<forall>j < 2 ^ 20. pt_entry (mem_write (pmem s) v bs) d j = pt_entry (pmem s) d j) \<and>
    (\<forall>w \<in> U. same_page (pmem s) (mem_write (pmem s) v bs) w))"
proof -
  have ms: "mem_split s (v # vs) U" and po: "pt_ok (pmem s) d" and pu: "pt_pages (pmem s) d \<subseteq> U" using ok by (auto simp: vm_ok_def)
  show ?thesis
  proof (rule returns_mono [OF mem_split_alloc [OF ms]], elim conjE)
    fix r t assume t: "r = v" "r \<noteq> 0" "aligned v" "v \<notin> U" "mem_split t vs (insert v U)" "pmem t = pmem s" "nomem t = nomem s"
    let ?m = "mem_write (pmem s) v bs"
    have sp: "same_page (pmem s) ?m w" if "aligned w" "w \<noteq> v" for w
      using that t(3) bs by (intro same_page_write) auto
    have U: "same_page (pmem s) ?m w" if "w \<in> U" for w using that vm_aligned [OF ok, of w] t(4) by (intro sp) auto
    have "same_page (pmem s) ?m w" if "w \<in> pt_pages (pmem s) d" for w using that pu by (intro U) auto
    note ps = pt_same [OF po this]
    have "w \<noteq> v \<and> aligned w" if "w \<in> set vs" for w
      using that t(5) by (auto simp: mem_split_def pool_ok_def page_ok_def)
    then have "mem_split (t\<lparr>pmem := ?m\<rparr>) vs (insert v U)" using sp t(6) by (intro mem_split_same [OF t(5)]) auto
    then show "r = v \<and> r \<noteq> 0 \<and> aligned v \<and> v \<notin> U \<and> nomem t = nomem s \<and> pmem t = pmem s \<and>
      vm_ok (t\<lparr>pmem := ?m\<rparr>) (insert v U) vs d \<and> pt_pages ?m d = pt_pages (pmem s) d \<and>
      (\<forall>j < 2 ^ 20. pt_entry ?m d j = pt_entry (pmem s) d j) \<and> (\<forall>w \<in> U. same_page (pmem s) ?m w)"
      using t U pu ps by (auto simp: vm_ok_def)
  qed
qed

text \<open>The source directory \<open>pd\<close> of a copy into \<open>d\<close>: its pages up to number \<open>n\<close> are present and in use, and it shares no
  page with \<open>d\<close>.\<close>

definition src_ok :: "mem \<Rightarrow> uint set \<Rightarrow> uint \<Rightarrow> nat \<Rightarrow> uint \<Rightarrow> bool" where
  "src_ok m U pd n d \<longleftrightarrow> pt_ok m pd \<and> pt_pages m pd \<subseteq> U - pt_pages m d \<and>
     (\<forall>j < n. pt_entry m pd j AND PTE_P \<noteq> 0 \<and> PTE_ADDR (pt_entry m pd j) \<in> U - pt_pages m d)"

lemma src_ok_same:
  assumes "src_ok m U pd n d" and "n \<le> 2 ^ 20" and "\<And>w. w \<in> U - pt_pages m d \<Longrightarrow> same_page m m' w"
    and "U \<subseteq> U'" and "pt_pages m' d \<inter> U \<subseteq> pt_pages m d"
  shows "src_ok m' U' pd n d" "j < n \<Longrightarrow> pt_entry m' pd j = pt_entry m pd j"
proof -
  have sp: "same_page m m' v" if "v \<in> pt_pages m pd" for v using that assms(1,3) by (auto simp: src_ok_def)
  have ok: "pt_ok m pd" using assms(1) by (simp add: src_ok_def)
  note ps = pt_same [OF ok sp]
  show e: "pt_entry m' pd j = pt_entry m pd j" if "j < n" for j using that assms(2) by (intro ps(3)) auto
  show "src_ok m' U' pd n d" using assms ps(1,2) e unfolding src_ok_def by auto
qed

definition copied :: "mem \<Rightarrow> mem \<Rightarrow> uint \<Rightarrow> uint \<Rightarrow> nat \<Rightarrow> uint set \<Rightarrow> bool" where
  "copied m m' pd d j F \<longleftrightarrow> (\<exists>f \<in> F. aligned f \<and> f \<notin> pt_pages m' d \<and> pt_entry m' d j = f OR (PTE_W OR PTE_U) OR PTE_P \<and>
     mem_read m' f PGSIZE = mem_read m (PTE_ADDR (pt_entry m pd j)) PGSIZE)"

lemma walk_present:
  assumes "pt_entry (pmem s) pd (vpn a) AND PTE_P \<noteq> 0"
  obtains p where "walkpgdir pd a False s = Ret (Some p) s" "rd_word (pmem s) p = pt_entry (pmem s) pd (vpn a)"
  using assms by (cases "pt_table (pmem s) pd (vpn a div 1024)") (auto simp: walk_find pt_entry_table)

definition copy_post :: "nat \<Rightarrow> nat \<Rightarrow> uint \<Rightarrow> uint \<Rightarrow> 'a kvm_scheme \<Rightarrow> uint set \<Rightarrow> uint list \<Rightarrow> bool \<Rightarrow> 'a kvm_scheme \<Rightarrow> bool" where
  "copy_post i n pd d s U vs ok t \<longleftrightarrow> (\<exists>used vs' fs. vs = used @ vs' \<and> nomem t = nomem s \<and> vm_ok t (U \<union> set used) vs' d \<and>
     (\<forall>w \<in> U - pt_pages (pmem s) d. same_page (pmem s) (pmem t) w) \<and> pt_pages (pmem t) d \<inter> U = pt_pages (pmem s) d \<and>
     pt_pages (pmem s) d \<subseteq> pt_pages (pmem t) d \<and> length fs \<le> n - i \<and> set used \<subseteq> pt_pages (pmem t) d \<union> set fs \<and>
     (\<forall>j < 2 ^ 20. \<not> (i \<le> j \<and> j < n) \<longrightarrow> pt_entry (pmem t) d j = pt_entry (pmem s) d j) \<and>
     (ok \<longrightarrow> (\<forall>j. i \<le> j \<longrightarrow> j < n \<longrightarrow> copied (pmem s) (pmem t) pd d j (set used))) \<and> (\<not> ok \<longrightarrow> vs' = []))"

lemma copy_page:
  fixes s :: "'a kvm_scheme"
  assumes ok: "vm_ok s U (v # vs) d" and i: "i < 2 ^ 20" "pt_entry (pmem s) d i AND PTE_P = 0" and bs: "bs = mem_read (pmem s) pa PGSIZE"
    and Q: "\<And>r t new vs'. vs = new @ vs' \<Longrightarrow> nomem t = nomem s \<Longrightarrow> vm_ok t (U \<union> set (v # new)) vs' d \<Longrightarrow>
      \<forall>w \<in> U - pt_pages (pmem s) d. same_page (pmem s) (pmem t) w \<Longrightarrow> pt_pages (pmem t) d = pt_pages (pmem s) d \<union> set new \<Longrightarrow>
      aligned v \<Longrightarrow> v \<notin> U \<Longrightarrow> v \<notin> pt_pages (pmem t) d \<Longrightarrow> mem_read (pmem t) v PGSIZE = bs \<Longrightarrow>
      \<forall>j < 2 ^ 20. j \<noteq> i \<longrightarrow> pt_entry (pmem t) d j = pt_entry (pmem s) d j \<Longrightarrow>
      r = 0 \<and> pt_entry (pmem t) d i = v OR (PTE_W OR PTE_U) OR PTE_P \<or> r = -1 \<and> vs' = [] \<Longrightarrow> returns (g r t) Q"
  shows "returns (and_then (kalloc s) (\<lambda>mem s. if mem = 0 then e s else
    and_then (mappages d (of_nat (4096 * i)) (of_nat PGSIZE) mem (PTE_W OR PTE_U) (s\<lparr>pmem := mem_write (pmem s) mem (mem_read (pmem s) pa PGSIZE)\<rparr>)) g)) Q"
proof (rule returns_bind [OF vm_take [OF ok, of bs]], simp add: bs, elim conjE)
  fix r and t :: "'a kvm_scheme"
  let ?m = "mem_write (pmem s) v bs" and ?a = "of_nat (4096 * i) :: uint"
  let ?t = "t\<lparr>pmem := ?m\<rparr>"
  assume t: "r = v" "r \<noteq> 0" "aligned v" "v \<notin> U" "nomem t = nomem s" "pmem t = pmem s" "vm_ok ?t (insert v U) vs d"
    "pt_pages ?m d = pt_pages (pmem s) d" and en: "\<forall>j < 2 ^ 20. pt_entry ?m d j = pt_entry (pmem s) d j"
    and sp: "\<forall>w \<in> U. same_page (pmem s) ?m w"
  have a: "unat ?a = 4096 * i" using i(1) by (intro unat_small) simp
  have dv: "v \<notin> set vs" using pp.pool_distinct [of s "v # vs"] ok by (auto simp: vm_ok_def mem_split_def)
  have pu: "pt_pages (pmem s) d \<subseteq> U" using ok by (simp add: vm_ok_def)
  have M: "returns (mappages d ?a (of_nat PGSIZE) v (PTE_W OR PTE_U) ?t) (\<lambda>r u. \<exists>new vs' c. vm_grow ?t (insert v U) vs d u new vs' \<and>
    maps_run (pmem ?t) (pmem u) d i c v (PTE_W OR PTE_U) \<and> (r = 0 \<and> c = Suc 0 \<or> r = -1 \<and> c \<le> 0 \<and> vs' = []))"
    by (rule mappages_spec [OF t(7) a]) (use i en in \<open>auto simp: PGSIZE_def\<close>)
  have "returns (and_then (mappages d ?a (of_nat PGSIZE) v (PTE_W OR PTE_U) ?t) g) Q"
  proof (rule returns_bind [OF M], elim exE conjE)
    fix r :: uint and u new vs' c
    assume g: "vm_grow ?t (insert v U) vs d u new vs'" and m: "maps_run (pmem ?t) (pmem u) d i c v (PTE_W OR PTE_U)"
      and r: "r = 0 \<and> c = Suc 0 \<or> r = -1 \<and> c \<le> 0 \<and> vs' = []"
    have gp: "pt_pages (pmem u) d = pt_pages (pmem s) d \<union> set new" and gv: "vs = new @ vs'" and
      gs: "\<And>w. w \<in> insert v U - pt_pages (pmem s) d \<Longrightarrow> same_page ?m (pmem u) w"
      using g t(8) by (auto simp: vm_grow_def)
    have vp: "v \<notin> pt_pages (pmem u) d" unfolding gp using gv pu dv t(4) by auto
    have "mem_read (pmem u) v PGSIZE = mem_read ?m v PGSIZE" using gs [of v] t(3,4) pu by (intro same_page_read) auto
    also have "\<dots> = bs" by (intro mem_write_read_same) (simp_all add: bs PGSIZE_def)
    finally have rd: "mem_read (pmem u) v PGSIZE = bs" .
    have su: "\<forall>w \<in> U - pt_pages (pmem s) d. same_page (pmem s) (pmem u) w"
    proof
      fix w assume w: "w \<in> U - pt_pages (pmem s) d"
      show "same_page (pmem s) (pmem u) w" by (rule same_page_trans [OF _ gs]) (use w sp in auto)
    qed
    have eu: "\<forall>j < 2 ^ 20. j \<noteq> i \<longrightarrow> pt_entry (pmem u) d j = pt_entry (pmem s) d j" using m en r by (auto simp: maps_run_def)
    have ei: "r = 0 \<and> pt_entry (pmem u) d i = v OR (PTE_W OR PTE_U) OR PTE_P \<or> r = -1 \<and> vs' = []"
      using m r i(1) by (auto simp: maps_run_def)
    have "nomem u = nomem s" using g t(5) by (simp add: vm_grow_def nomem_def)
    moreover have "vm_ok u (U \<union> set (v # new)) vs' d" using g by (simp add: vm_grow_def)
    ultimately show "returns (g r u) Q" by (rule Q [OF gv _ _ su gp t(3,4) vp rd eu ei])
  qed
  then show "returns (if r = 0 then e t else and_then (mappages d ?a (of_nat PGSIZE) r (PTE_W OR PTE_U) (t\<lparr>pmem := mem_write (pmem t) r (mem_read (pmem t) pa PGSIZE)\<rparr>)) g) Q"
    using t(1,2,6) bs by simp
qed

lemma copy_post_step:
  assumes ok: "vm_ok s U vs d" and c: "vs = (v # new) @ vs'" "nomem t = nomem s" "v \<notin> U"
    "\<forall>w \<in> U - pt_pages (pmem s) d. same_page (pmem s) (pmem t) w" "pt_pages (pmem t) d = pt_pages (pmem s) d \<union> set new"
    "aligned v" "v \<notin> pt_pages (pmem t) d" "mem_read (pmem t) v PGSIZE = mem_read (pmem s) (PTE_ADDR (pt_entry (pmem s) pd i)) PGSIZE"
    "\<forall>j < 2 ^ 20. j \<noteq> i \<longrightarrow> pt_entry (pmem t) d j = pt_entry (pmem s) d j"
    "pt_entry (pmem t) d i = v OR (PTE_W OR PTE_U) OR PTE_P"
    and src: "src_ok (pmem s) U pd n d" and i: "i < n" "n \<le> 2 ^ 20"
    and post: "copy_post (Suc i) n pd d t (U \<union> set (v # new)) vs' b u"
  shows "copy_post i n pd d s U vs b u"
proof -
  obtain used vs'' fs where p: "vs' = used @ vs''" "nomem u = nomem t" "vm_ok u (U \<union> set (v # new) \<union> set used) vs'' d"
    "\<forall>w \<in> U \<union> set (v # new) - pt_pages (pmem t) d. same_page (pmem t) (pmem u) w"
    "pt_pages (pmem u) d \<inter> (U \<union> set (v # new)) = pt_pages (pmem t) d" "pt_pages (pmem t) d \<subseteq> pt_pages (pmem u) d"
    "length fs \<le> n - Suc i" "set used \<subseteq> pt_pages (pmem u) d \<union> set fs"
    "\<forall>j < 2 ^ 20. \<not> (Suc i \<le> j \<and> j < n) \<longrightarrow> pt_entry (pmem u) d j = pt_entry (pmem t) d j"
    "b \<longrightarrow> (\<forall>j. Suc i \<le> j \<longrightarrow> j < n \<longrightarrow> copied (pmem t) (pmem u) pd d j (set used))" "\<not> b \<longrightarrow> vs'' = []"
    using post unfolding copy_post_def by auto
  have nU: "set new \<inter> U = {}" using ok c(1) by (auto simp: vm_ok_def mem_split_def)
  have pu: "pt_pages (pmem s) d \<subseteq> U" using ok by (simp add: vm_ok_def)
  have s1: "src_ok (pmem t) U pd n d" and s2: "\<And>j. j < n \<Longrightarrow> pt_entry (pmem t) pd j = pt_entry (pmem s) pd j"
    using c(4,5) nU by (auto intro!: src_ok_same [OF src i(2)])
  have cp: "copied (pmem s) (pmem u) pd d j (set ((v # new) @ used))" if b "i \<le> j" "j < n" for j
  proof (cases "j = i")
    case True
    have "mem_read (pmem u) v PGSIZE = mem_read (pmem t) v PGSIZE" using p(4) c(6,7) by (intro same_page_read) auto
    moreover have "pt_entry (pmem u) d i = pt_entry (pmem t) d i" using p(9) i by simp
    moreover have "v \<notin> pt_pages (pmem u) d" using p(5) c(7) by auto
    ultimately show ?thesis using True c(6,8,10) unfolding copied_def by auto
  next
    case False
    have "PTE_ADDR (pt_entry (pmem s) pd j) \<in> U - pt_pages (pmem s) d" using src that(3) by (simp add: src_ok_def)
    then have "mem_read (pmem t) (PTE_ADDR (pt_entry (pmem s) pd j)) PGSIZE = mem_read (pmem s) (PTE_ADDR (pt_entry (pmem s) pd j)) PGSIZE"
      using c(4) by (intro same_page_read) auto
    moreover have "copied (pmem t) (pmem u) pd d j (set used)" using p(10) False that by simp
    ultimately show ?thesis using s2 [OF that(3)] unfolding copied_def by auto
  qed
  have sw: "same_page (pmem s) (pmem u) w" if w: "w \<in> U - pt_pages (pmem s) d" for w
  proof (rule same_page_trans)
    show "same_page (pmem s) (pmem t) w" using c(4) w by blast
    show "same_page (pmem t) (pmem u) w" using p(4) w c(5) nU by auto
  qed
  have en: "pt_entry (pmem u) d j = pt_entry (pmem s) d j" if "j < 2 ^ 20" "\<not> (i \<le> j \<and> j < n)" for j
  proof -
    have "j \<noteq> i" "\<not> (Suc i \<le> j \<and> j < n)" using that(2) i(1) by auto
    then show ?thesis using p(9) c(9) that(1) by simp
  qed
  have "pt_pages (pmem t) d \<inter> U = pt_pages (pmem s) d" unfolding c(5) using nU pu by blast
  then have "pt_pages (pmem u) d \<inter> U = pt_pages (pmem s) d" using p(5) by blast
  moreover have "pt_pages (pmem s) d \<subseteq> pt_pages (pmem u) d" using p(6) c(5) by blast
  moreover have "set new \<subseteq> pt_pages (pmem u) d" using p(6) c(5) by blast
  then have "set ((v # new) @ used) \<subseteq> pt_pages (pmem u) d \<union> set (v # fs)" using p(8) by auto
  moreover have "vm_ok u (U \<union> set ((v # new) @ used)) vs'' d" using p(3) by (simp only: set_append Un_assoc)
  moreover have "length (v # fs) \<le> n - i" using p(7) i(1) by simp
  moreover have "vs = ((v # new) @ used) @ vs''" "nomem u = nomem s" using c(1,2) p(1,2) by simp_all
  ultimately show ?thesis unfolding copy_post_def using en cp sw p(11) by blast
qed

lemma copy_post_stop:
  assumes "vm_ok s U vs d" and "vs = []"
  shows "copy_post i n pd d s U vs False s"
  using assms unfolding copy_post_def by (intro exI [of _ "[]"]) (auto simp: vm_ok_def)

lemma copyuvm_loop_spec:
  fixes s :: "'a kvm_scheme"
  assumes "vm_ok s U vs d" and "src_ok (pmem s) U pd n d" and "n \<le> 2 ^ 20"
    and "\<And>j. i \<le> j \<Longrightarrow> j < n \<Longrightarrow> pt_entry (pmem s) d j AND PTE_P = 0"
  shows "returns (copyuvm_loop pd d (map (\<lambda>j. of_nat (4096 * j)) [i..<n]) s) (copy_post i n pd d s U vs)"
  using assms
proof (induction "n - i" arbitrary: i s U vs)
  case 0
  then have "copy_post i n pd d s U vs True s" unfolding copy_post_def by (intro exI [of _ "[]"] exI [of _ vs]) (auto simp: vm_ok_def)
  then show ?case using 0(1) by simp
next
  case (Suc k)
  then have i: "i < n" "i < 2 ^ 20" by simp_all
  let ?a = "of_nat (4096 * i) :: uint"
  have a: "vpn ?a = i" using i(2) unat_small [of "4096 * i"] by (simp del: of_nat_mult)
  have en: "pt_entry (pmem s) pd i AND PTE_P \<noteq> 0" using Suc.prems(2) i by (simp add: src_ok_def)
  obtain p where p: "walkpgdir pd ?a False s = Ret (Some p) s" "rd_word (pmem s) p = pt_entry (pmem s) pd i"
    using walk_present [of s pd ?a] en a by metis
  have up: "[i..<n] = i # [Suc i..<n]" using i by (simp add: upt_conv_Cons)
  show ?case
  proof (cases vs)
    case Nil
    then have "kalloc s = Ret 0 s" using Suc.prems(1) by (auto simp: vm_ok_def intro: mem_split_none)
    then show ?thesis using p en copy_post_stop [OF Suc.prems(1) Nil] unfolding up by (simp del: of_nat_mult)
  next
    case (Cons v vs1)
    let ?bs = "mem_read (pmem s) (PTE_ADDR (pt_entry (pmem s) pd i)) PGSIZE"
    have eq: "copyuvm_loop pd d (map (\<lambda>j. of_nat (4096 * j)) [i..<n]) s = and_then (kalloc s) (\<lambda>mem t. if mem = 0 then Ret False t else
      and_then (mappages d ?a (of_nat PGSIZE) mem (PTE_W OR PTE_U) (t\<lparr>pmem := mem_write (pmem t) mem
        (mem_read (pmem t) (PTE_ADDR (pt_entry (pmem s) pd i)) PGSIZE)\<rparr>)) (\<lambda>r t.
      if sint r < 0 then Ret False t else copyuvm_loop pd d (map (\<lambda>j. of_nat (4096 * j)) [Suc i..<n]) t))"
      unfolding up using p en by (simp del: of_nat_mult add: Let_def)
    show ?thesis unfolding eq
    proof (rule copy_page [OF Suc.prems(1) [unfolded Cons] i(2)])
      show "pt_entry (pmem s) d i AND PTE_P = 0" using Suc.prems(4) i by simp
      fix r :: uint and t new vs'
      assume c: "vs1 = new @ vs'" "nomem t = nomem s" "vm_ok t (U \<union> set (v # new)) vs' d"
        "\<forall>w \<in> U - pt_pages (pmem s) d. same_page (pmem s) (pmem t) w" "pt_pages (pmem t) d = pt_pages (pmem s) d \<union> set new"
        "aligned v" "v \<notin> U" "v \<notin> pt_pages (pmem t) d" "mem_read (pmem t) v PGSIZE = ?bs"
        "\<forall>j < 2 ^ 20. j \<noteq> i \<longrightarrow> pt_entry (pmem t) d j = pt_entry (pmem s) d j"
        and r: "r = 0 \<and> pt_entry (pmem t) d i = v OR (PTE_W OR PTE_U) OR PTE_P \<or> r = -1 \<and> vs' = []"
      have vs: "vs = (v # new) @ vs'" using Cons c(1) by simp
      have nU: "set new \<inter> U = {}" and pu: "pt_pages (pmem s) d \<subseteq> U"
        using Suc.prems(1) vs by (auto simp: vm_ok_def mem_split_def)
      show "returns (if sint r < 0 then Ret False t else copyuvm_loop pd d (map (\<lambda>j. of_nat (4096 * j)) [Suc i..<n]) t)
        (copy_post i n pd d s U vs)"
      proof (cases "r = 0")
        case True
        have src: "src_ok (pmem t) (U \<union> set (v # new)) pd n d"
          using c(4,5) nU by (intro src_ok_same(1) [OF Suc.prems(2,3)]) auto
        have "returns (copyuvm_loop pd d (map (\<lambda>j. of_nat (4096 * j)) [Suc i..<n]) t)
            (copy_post (Suc i) n pd d t (U \<union> set (v # new)) vs')"
          using Suc.hyps(2) Suc.prems(3,4) c(10) by (intro Suc.hyps(1) [OF _ c(3) src]) auto
        moreover have "pt_entry (pmem t) d i = v OR (PTE_W OR PTE_U) OR PTE_P" using r True by simp
        ultimately have "returns (copyuvm_loop pd d (map (\<lambda>j. of_nat (4096 * j)) [Suc i..<n]) t) (copy_post i n pd d s U vs)"
          by (elim returns_mono copy_post_step [OF Suc.prems(1) vs c(2,7,4,5,6,8,9,10) _ Suc.prems(2) i(1) Suc.prems(3)])
        then show ?thesis using True by simp
      next
        case False
        then have "r = -1" "vs' = []" using r by auto
        moreover have "copy_post i n pd d s U vs False t" if "vs' = []"
          unfolding copy_post_def using that vs c pu nU i
          by (intro exI [of _ "v # new"] exI [of _ "[]"] exI [of _ "[v]"]) auto
        ultimately show ?thesis by simp
      qed
    qed simp
  qed
qed

lemma pt_pages_card: "card (pt_pages m d) \<le> 1025"
proof -
  have "pt_pages m d \<subseteq> insert d ((\<lambda>i. the (pt_table m d i)) ` {..<1024})"
    by (force simp: pt_pages_def)
  then have "card (pt_pages m d) \<le> card (insert d ((\<lambda>i. the (pt_table m d i)) ` {..<1024 :: nat}))" by (intro card_mono) auto
  also have "\<dots> \<le> Suc (card ((\<lambda>i. the (pt_table m d i)) ` {..<1024 :: nat}))" by (intro card_insert_le_m1) auto
  also have "\<dots> \<le> Suc (card {..<1024 :: nat})" using card_image_le [of "{..<1024 :: nat}"] by simp
  finally show ?thesis by simp
qed

text \<open>Running out of pages takes more than the tables of one directory.\<close>

lemma used_bound:
  assumes "distinct us" and "set us \<subseteq> pt_pages m d \<union> set fs"
  shows "length us \<le> 1025 + length fs"
proof -
  have f: "finite (pt_pages m d)" by (simp add: pt_pages_def)
  have "length us = card (set us)" using assms(1) by (simp add: distinct_card)
  also have "\<dots> \<le> card (pt_pages m d \<union> set fs)" using assms(2) f by (intro card_mono) auto
  also have "\<dots> \<le> card (pt_pages m d) + card (set fs)" by (rule card_Un_le)
  also have "\<dots> \<le> 1025 + length fs" using pt_pages_card card_length by (intro add_mono) auto
  finally show ?thesis .
qed

lemma page_starts_upt: "page_starts (4096 * i) lim = map (\<lambda>j. of_nat (4096 * j)) [i..<(lim + 4095) div 4096]"
proof (induction "(lim + 4095) div 4096 - i" arbitrary: i)
  case 0
  then have "lim \<le> 4096 * i" by simp
  with 0 show ?case by (subst page_starts.simps) simp
next
  case (Suc k)
  then have l: "i < (lim + 4095) div 4096" by simp
  then have "4096 * i < lim" by simp
  moreover have "k = (lim + 4095) div 4096 - Suc i" using Suc.hyps(2) by simp
  ultimately show ?case using Suc.hyps(1) [of "Suc i"] l
    by (subst page_starts.simps) (simp add: PGSIZE_def upt_conv_Cons add.commute)
qed

lemma pt_fresh:
  assumes "mem_split t vs (insert v U)" and "aligned v"
  defines "m \<equiv> mem_fill (pmem t) v 0 PGSIZE"
  shows "vm_ok (t\<lparr>pmem := m\<rparr>) (insert v U) vs v" "pt_pages m v = {v}" "j < 2 ^ 20 \<Longrightarrow> pt_entry m v j = 0"
proof -
  have n: "pt_table m v d = None" if "d < 1024" for d using that by (simp add: pt_table_def m_def)
  then show pg: "pt_pages m v = {v}" by (auto simp: pt_pages_def)
  have "same_page (pmem t) m w" if "w \<in> set vs" for w
    unfolding m_def using that assms(1,2) by (intro same_page_fill) (auto simp: mem_split_def pool_ok_def page_ok_def)
  then have "mem_split (t\<lparr>pmem := m\<rparr>) vs (insert v U)" by (rule mem_split_same [OF assms(1)])
  then show "vm_ok (t\<lparr>pmem := m\<rparr>) (insert v U) vs v" using n pg assms(2) by (simp add: vm_ok_def pt_ok_def)
  assume "j < 2 ^ 20"
  then have "j div 1024 < 1024" by (simp add: less_mult_imp_div_less)
  then show "pt_entry m v j = 0" using n by (simp add: pt_entry_table)
qed

lemma kmap_regions_ok:
  assumes "aligned data" and "0x100000 < data" and "data < PHYSTOP"
  shows "regions_ok (kmap data)"
proof -
  have d: "unat data mod 4096 = 0" "0x100000 < unat data" "unat data < 0x1000000"
    using assms by (simp_all add: aligned_nat PHYSTOP_def word_less_nat_alt)
  have "unat (data - 1) = unat data - 1" using d by (simp add: unat_sub word_le_nat_alt)
  then show ?thesis using d by (auto simp: kmap_def USERTOP_def PHYSTOP_def aligned_nat word_le_nat_alt unat_gt_0 [symmetric] unsigned_minus_1_eq_mask mask_eq_exp_minus_1)
qed

lemma region_entry_user: "j < 160 \<Longrightarrow> 0x100000 < data \<Longrightarrow> region_entry (kmap data) d j = d"
proof -
  assume j: "j < 160" "0x100000 < data"
  have "256 \<le> vpn data" using j(2) div_le_mono [of "0x100000" "unat data" 4096] by (simp add: word_less_nat_alt)
  then have "find (in_region j) (kmap data) = None" using j by (simp add: kmap_def in_region_def USERTOP_def)
  then show ?thesis by (simp add: region_entry_def)
qed

section \<open>Translation\<close>

lemma translate_entry:
  "translate (s\<lparr>cr3 := pd\<rparr>) va = (let e = pt_entry (pmem s) pd (vpn va) in
     if e AND PTE_P = 0 then None else Some (PTE_ADDR e OR (va AND 0xFFF)))"
  by (simp add: translate_def pde_addr_slot pte_addr_slot pt_entry_def Let_def)

lemma aligned_PTE_ADDR_id: "aligned f \<Longrightarrow> PTE_ADDR f = f"
  using PTE_ADDR_flags [of f 0] by simp

lemma page_or_offset:
  assumes "aligned f"
  shows "f OR (va AND 0xFFF) = f + of_nat (unat va mod 4096)"
proof -
  have "va AND 0xFFF = take_bit 12 va" by (simp add: mask_consts(3) take_bit_eq_mask)
  then have "unat (va AND 0xFFF) = unat va mod 4096" by (simp add: take_bit_eq_mod unat_mod)
  then have o: "va AND 0xFFF = of_nat (unat va mod 4096)" by (metis of_nat_unat_id)
  have "PTE_ADDR f AND (va AND 0xFFF) = 0" by (rule bit_word_eqI) (auto simp: PTE_ADDR_def mask_consts bit_simps)
  then have "f AND (va AND 0xFFF) = 0" using aligned_PTE_ADDR_id [OF assms] by simp
  then show ?thesis unfolding o [symmetric] by (rule disjunctive_add_eq_or [symmetric])
qed

lemma page_of_offset: "aligned f \<Longrightarrow> PGROUNDDOWN (f OR (va AND 0xFFF)) = f"
proof -
  assume f: "aligned f"
  have "PGROUNDDOWN (f OR (va AND 0xFFF)) = PTE_ADDR (f OR (va AND 0xFFF))" by (simp only: PGROUNDDOWN_def PTE_ADDR_def not_page_mask)
  also have "\<dots> = f" by (rule PTE_ADDR_flags [OF f]) (rule bit_word_eqI, auto simp: mask_consts bit_simps)
  finally show ?thesis .
qed

lemma read_page_byte:
  assumes "mem_read m f PGSIZE = mem_read m' g PGSIZE" and "aligned f" and "aligned g"
  shows "m (f OR (va AND 0xFFF)) = m' (g OR (va AND 0xFFF))"
proof -
  let ?i = "unat va mod 4096"
  have "mem_read m f PGSIZE ! ?i = mem_read m' g PGSIZE ! ?i" using assms(1) by simp
  then show ?thesis using assms(2,3) by (simp add: page_or_offset mem_read_def PGSIZE_def)
qed

text \<open>The user part of an address space: the pages below number \<open>n\<close> are present, in frames that are in use.\<close>

definition user_space :: "mem \<Rightarrow> uint set \<Rightarrow> uint \<Rightarrow> nat \<Rightarrow> bool" where
  "user_space m U pd n \<longleftrightarrow> pt_ok m pd \<and> pt_pages m pd \<subseteq> U \<and>
     (\<forall>j < n. pt_entry m pd j AND PTE_P \<noteq> 0 \<and> PTE_ADDR (pt_entry m pd j) \<in> U)"

lemma setupkvm_spec:
  assumes ms: "mem_split s vs U" and data: "aligned (k_data s)" "0x100000 < k_data s" "k_data s < PHYSTOP" and n: "1026 < length vs"
  shows "returns (setupkvm s) (\<lambda>d t. \<exists>us vs'. vs = us @ vs' \<and> d \<noteq> 0 \<and> d \<notin> U \<and> nomem t = nomem s \<and> vm_ok t (U \<union> set us) vs' d \<and>
    pt_pages (pmem t) d = set us \<and> (\<forall>w \<in> U. same_page (pmem s) (pmem t) w) \<and>
    (\<forall>j < 2 ^ 20. pt_entry (pmem t) d j = region_entry (kmap (k_data s)) 0 j))"
    (is "returns _ ?Q")
proof -
  obtain v vs1 where vs: "vs = v # vs1" using n by (cases vs) auto
  have dv: "distinct vs" using ms pp.pool_distinct by (auto simp: mem_split_def)
  show ?thesis unfolding setupkvm_def
  proof (rule returns_bind [OF mem_split_alloc [OF ms [unfolded vs]]], elim conjE)
    fix r t assume t: "r = v" "r \<noteq> 0" "aligned v" "v \<notin> U" "mem_split t vs1 (insert v U)" "pmem t = pmem s" "nomem t = nomem s"
    let ?t = "t\<lparr>pmem := mem_fill (pmem t) v 0 PGSIZE\<rparr>"
    note f = pt_fresh [OF t(5,3)]
    have kd: "k_data t = k_data s" using arg_cong [OF t(7), of k_data] by (simp add: nomem_def)
    have L: "returns (setupkvm_loop v (kmap (k_data s)) ?t) (\<lambda>r u. \<exists>new vs'. vm_grow ?t (insert v U) vs1 v u new vs' \<and>
      (r = v \<and> (\<forall>j < 2 ^ 20. pt_entry (pmem u) v j = region_entry (kmap (k_data s)) (pt_entry (pmem ?t) v j) j) \<or> r = 0 \<and> vs' = []))"
      using t(1,2) f(3) by (intro setupkvm_loop_spec f(1) kmap_regions_ok data) auto
    have "?Q r u" if g: "vm_grow ?t (insert v U) vs1 v u new vs'" and
      o: "r = v \<and> (\<forall>j < 2 ^ 20. pt_entry (pmem u) v j = region_entry (kmap (k_data s)) (pt_entry (pmem ?t) v j) j) \<or> r = 0 \<and> vs' = []" for r u new vs'
    proof -
      have g': "vs1 = new @ vs'" "nomem u = nomem s" "vm_ok u (insert v U \<union> set new) vs' v" "pt_pages (pmem u) v = set (v # new)"
        using g t(7) f(2) by (auto simp: vm_grow_def nomem_def)
      have "length (v # new) \<le> 1025 + length ([] :: uint list)" by (rule used_bound [of _ "pmem u" v]) (use g'(1,4) dv vs in auto)
      then have "r = v" using o n vs g'(1) by auto
      moreover have "same_page (pmem s) (pmem u) w" if w: "w \<in> U" for w
      proof (rule same_page_trans)
        show "same_page (pmem s) (pmem ?t) w"
          using w t(3,4,6) ms by (auto intro!: same_page_fill simp: mem_split_def page_ok_def)
        show "same_page (pmem ?t) (pmem u) w" using g w t(4) f(2) by (auto simp: vm_grow_def)
      qed
      moreover have "\<forall>j < 2 ^ 20. pt_entry (pmem u) v j = region_entry (kmap (k_data s)) 0 j"
        using o t(1,2) f(3) \<open>r = v\<close> by auto
      moreover have "vm_ok u (U \<union> set (v # new)) vs' v" using g'(3) by simp
      moreover have "vs = (v # new) @ vs'" using g'(1) vs by simp
      moreover have "v \<noteq> 0" using t(1,2) by simp
      ultimately show ?thesis using g'(2,4) t(4) by blast
    qed
    then have "returns (setupkvm_loop v (kmap (k_data s)) ?t) ?Q" by (intro returns_mono [OF L]) blast
    then show "returns (if r = 0 then Ret 0 t else setupkvm_loop r (kmap (k_data t)) (t\<lparr>pmem := mem_fill (pmem t) r 0 PGSIZE\<rparr>)) ?Q"
      using t(1,2) kd by simp
  qed
qed

abbreviation npages :: "uint \<Rightarrow> nat" where "npages sz \<equiv> (unat sz + 4095) div 4096"

lemma vpn_npages: "va < sz \<Longrightarrow> vpn va < npages sz"
proof -
  assume "va < sz"
  then have "unat va + 4096 \<le> unat sz + 4095" by (simp add: word_less_nat_alt)
  then have "(unat va + 4096) div 4096 \<le> npages sz" by (rule div_le_mono)
  then show ?thesis by simp
qed

lemma copyuvm_spec:
  fixes s :: "'a kvm_scheme"
  assumes ms: "mem_split s vs U" and us: "user_space (pmem s) U pd (npages sz)" and sz: "sz \<le> USERTOP"
    and data: "aligned (k_data s)" "0x100000 < k_data s" "k_data s < PHYSTOP" and n: "1026 + npages sz < length vs"
  shows "returns (copyuvm pd sz s) (\<lambda>d t. d \<noteq> 0 \<and> (\<forall>w \<in> U. same_page (pmem s) (pmem t) w) \<and>
    (\<forall>j < npages sz. copied (pmem s) (pmem t) pd d j (set vs)))"
    (is "returns _ ?Q")
proof -
  let ?n = "npages sz"
  have "unat sz \<le> 655360" using sz by (simp add: USERTOP_def word_le_nat_alt)
  then have n160: "?n \<le> 160" by simp
  have disj: "set vs \<inter> U = {}" "distinct vs" using ms pp.pool_distinct by (auto simp: mem_split_def)
  have "1026 < length vs" using n by simp
  note K = setupkvm_spec [OF ms data this]
  show ?thesis unfolding copyuvm_def
  proof (rule returns_bind [OF K], elim exE conjE)
    fix d us' vs' and t :: "'a kvm_scheme"
    assume v: "vs = us' @ vs'" and d: "d \<noteq> 0" "d \<notin> U" and ok: "vm_ok t (U \<union> set us') vs' d" and pg: "pt_pages (pmem t) d = set us'"
      and sp: "\<forall>w \<in> U. same_page (pmem s) (pmem t) w" and en: "\<forall>j < 2 ^ 20. pt_entry (pmem t) d j = region_entry (kmap (k_data s)) 0 j"
    have dU: "set us' \<inter> U = {}" using disj v by auto
    have po: "pt_ok (pmem s) pd" and pu: "pt_pages (pmem s) pd \<subseteq> U"
      and fr: "\<And>j. j < ?n \<Longrightarrow> pt_entry (pmem s) pd j AND PTE_P \<noteq> 0 \<and> PTE_ADDR (pt_entry (pmem s) pd j) \<in> U"
      using us by (auto simp: user_space_def)
    have "same_page (pmem s) (pmem t) w" if "w \<in> pt_pages (pmem s) pd" for w using that pu sp by auto
    note ps = pt_same [OF po this]
    have es: "pt_entry (pmem t) pd j = pt_entry (pmem s) pd j" if "j < ?n" for j using that n160 by (intro ps(3)) simp_all
    have src: "src_ok (pmem t) (U \<union> set us') pd ?n d"
      unfolding src_ok_def using ps(1,2) pg dU pu fr es by auto
    have C: "returns (copyuvm_loop pd d (page_starts 0 (unat sz)) t) (copy_post 0 ?n pd d t (U \<union> set us') vs')"
      using copyuvm_loop_spec [OF ok src, of 0] n160 en region_entry_user [OF _ data(2)] page_starts_upt [of 0 "unat sz"] by simp
    show "returns (if d = 0 then Ret 0 t else and_then (copyuvm_loop pd d (page_starts 0 (unat sz)) t)
       (\<lambda>ok s. if ok then Ret d s else and_then (freevm d s) (\<lambda>_ s. Ret 0 s))) ?Q"
      unfolding if_not_P [OF d(1)]
    proof (rule returns_bind [OF C])
      fix b u assume "copy_post 0 ?n pd d t (U \<union> set us') vs' b u"
      then obtain us2 vs2 fs where c: "vs' = us2 @ vs2" "\<forall>w \<in> U \<union> set us' - pt_pages (pmem t) d. same_page (pmem t) (pmem u) w"
        "pt_pages (pmem t) d \<subseteq> pt_pages (pmem u) d" "length fs \<le> ?n" "set us2 \<subseteq> pt_pages (pmem u) d \<union> set fs"
        "b \<longrightarrow> (\<forall>j < ?n. copied (pmem t) (pmem u) pd d j (set us2))" "\<not> b \<longrightarrow> vs2 = []"
        unfolding copy_post_def by auto
      have "length (us' @ us2) \<le> 1025 + length fs"
        by (rule used_bound [of _ "pmem u" d]) (use c(1,3,5) pg disj(2) v in auto)
      then have b: b using c(1,4,7) v n by auto
      have spu: "same_page (pmem s) (pmem u) w" if "w \<in> U" for w
        using c(2) that pg dU sp by (intro same_page_trans [of "pmem s" "pmem t" w "pmem u"]) auto
      have "copied (pmem s) (pmem u) pd d j (set vs)" if j: "j < ?n" for j
      proof -
        have "mem_read (pmem t) (PTE_ADDR (pt_entry (pmem s) pd j)) PGSIZE = mem_read (pmem s) (PTE_ADDR (pt_entry (pmem s) pd j)) PGSIZE"
          using fr [OF j] sp by (intro same_page_read) auto
        moreover have "copied (pmem t) (pmem u) pd d j (set us2)" using c(6) b j by simp
        ultimately show ?thesis unfolding copied_def es [OF j] using v c(1) by auto
      qed
      then show "returns (if b then Ret d u else and_then (freevm d u) (\<lambda>_ s. Ret 0 s)) ?Q" using b d(1) spu by simp
    qed
  qed
qed

text \<open>C2: fork copies memory.  With enough free pages, \<open>copyuvm\<close> returns a new address space in which every byte below \<open>sz\<close>
  has the value it has in the old one, at a physical address in a page that was free before; the old address space
  keeps its translation and its contents.\<close>

theorem copyuvm_copies:
  fixes s :: "'a kvm_scheme"
  assumes "mem_split s vs U" and "user_space (pmem s) U pd (npages sz)" and "sz \<le> USERTOP"
    and "aligned (k_data s)" "0x100000 < k_data s" "k_data s < PHYSTOP" and "1026 + npages sz < length vs"
  shows "returns (copyuvm pd sz s) (\<lambda>d t. d \<noteq> 0 \<and> (\<forall>va < sz. \<exists>a b.
    translate (s\<lparr>cr3 := pd\<rparr>) va = Some a \<and> translate (t\<lparr>cr3 := pd\<rparr>) va = Some a \<and> translate (t\<lparr>cr3 := d\<rparr>) va = Some b \<and>
    pmem t b = pmem s a \<and> pmem t a = pmem s a \<and> PGROUNDDOWN b \<in> set vs \<and> PGROUNDDOWN b \<notin> U))"
proof (rule returns_mono [OF copyuvm_spec [OF assms]], elim conjE)
  fix d and t :: "'a kvm_scheme"
  assume d: "d \<noteq> 0" and sp: "\<forall>w \<in> U. same_page (pmem s) (pmem t) w"
    and cp: "\<forall>j < npages sz. copied (pmem s) (pmem t) pd d j (set vs)"
  have po: "pt_ok (pmem s) pd" and pu: "pt_pages (pmem s) pd \<subseteq> U"
    and fr: "\<And>j. j < npages sz \<Longrightarrow> pt_entry (pmem s) pd j AND PTE_P \<noteq> 0 \<and> PTE_ADDR (pt_entry (pmem s) pd j) \<in> U"
    using assms(2) by (auto simp: user_space_def)
  have ps: "pt_entry (pmem t) pd j = pt_entry (pmem s) pd j" if "j < 2 ^ 20" for j
    using that pu sp by (intro pt_same(3) [OF po]) auto
  have "\<exists>a b. translate (s\<lparr>cr3 := pd\<rparr>) va = Some a \<and> translate (t\<lparr>cr3 := pd\<rparr>) va = Some a \<and> translate (t\<lparr>cr3 := d\<rparr>) va = Some b \<and>
    pmem t b = pmem s a \<and> pmem t a = pmem s a \<and> PGROUNDDOWN b \<in> set vs \<and> PGROUNDDOWN b \<notin> U" if va: "va < sz" for va
  proof -
    let ?j = "vpn va" and ?off = "va AND 0xFFF"
    have j: "?j < npages sz" using va by (rule vpn_npages)
    obtain f where f: "f \<in> set vs" "aligned f" "pt_entry (pmem t) d ?j = f OR (PTE_W OR PTE_U) OR PTE_P"
      "mem_read (pmem t) f PGSIZE = mem_read (pmem s) (PTE_ADDR (pt_entry (pmem s) pd ?j)) PGSIZE"
      using cp j by (auto simp: copied_def)
    let ?g = "PTE_ADDR (pt_entry (pmem s) pd ?j)"
    have "(PTE_W OR PTE_U) OR PTE_P = 7" by (simp add: PTE_P_def PTE_W_def PTE_U_def)
    then have "PTE_ADDR (pt_entry (pmem t) d ?j) = f" using PTE_ADDR_flags [OF f(2), of 7] f(3) by (simp add: or.assoc)
    then have T: "translate (t\<lparr>cr3 := d\<rparr>) va = Some (f OR ?off)"
      unfolding translate_entry using f(3) PTE_P_flags(1) [of f "PTE_W OR PTE_U"] by (simp add: or.assoc Let_def)
    have S: "translate (s\<lparr>cr3 := pd\<rparr>) va = Some (?g OR ?off)" "translate (t\<lparr>cr3 := pd\<rparr>) va = Some (?g OR ?off)"
      using fr [OF j] ps [OF vpn_less, of va] by (simp_all add: translate_entry Let_def)
    have "pmem t (f OR ?off) = pmem s (?g OR ?off)" by (rule read_page_byte [OF f(4,2)]) simp
    moreover have "mem_read (pmem t) ?g PGSIZE = mem_read (pmem s) ?g PGSIZE" using fr [OF j] sp by (intro same_page_read) auto
    then have "pmem t (?g OR ?off) = pmem s (?g OR ?off)" by (rule read_page_byte) simp_all
    moreover have "f \<notin> U" using f(1) assms(1) by (auto simp: mem_split_def)
    ultimately show ?thesis using S T f(1) page_of_offset [OF f(2), of va] by metis
  qed
  then show "d \<noteq> 0 \<and> (\<forall>va < sz. \<exists>a b.
    translate (s\<lparr>cr3 := pd\<rparr>) va = Some a \<and> translate (t\<lparr>cr3 := pd\<rparr>) va = Some a \<and> translate (t\<lparr>cr3 := d\<rparr>) va = Some b \<and>
    pmem t b = pmem s a \<and> pmem t a = pmem s a \<and> PGROUNDDOWN b \<in> set vs \<and> PGROUNDDOWN b \<notin> U)" using d by blast
qed

definition bare_vm :: kvm where
  "bare_vm = kmem.extend bare_mem (kvm.fields 0 0 0 0 0 [] 0 0 0x105000 0 0)"

lemma bare_vm_simps: "held bare_vm = {}" "freelist bare_vm = 0" "k_end bare_vm = 0x107abc" "k_data bare_vm = 0x105000"
  by (simp_all add: bare_vm_def kmem.extend_def kvm.fields_def bare_mem_def)

text \<open>A state after \<open>kinit\<close>, in which a directory has been set up and its page 0 mapped.\<close>

lemma many_pages: "3000 < card (pages_between 0x108000 PHYSTOP)"
proof -
  let ?f = "\<lambda>i. of_nat (4096 * (264 + i)) :: uint"
  have u: "unat (?f i) = 4096 * (264 + i)" if "i < 3001" for i using that by (intro unat_small) simp
  have "inj_on ?f {..<3001}"
  proof (rule inj_onI)
    fix i j assume "i \<in> {..<3001}" "j \<in> {..<3001}" "?f i = ?f j"
    then show "i = j" using u [of i] u [of j] by simp
  qed
  then have c: "card (?f ` {..<3001}) = 3001" by (simp add: card_image)
  have "?f ` {..<3001} \<subseteq> pages_between 0x108000 PHYSTOP"
  proof
    fix v assume "v \<in> ?f ` {..<3001}"
    then obtain i where i: "i < 3001" "v = ?f i" by blast
    then have "unat v = 4096 * (264 + i)" using u by blast
    then show "v \<in> pages_between 0x108000 PHYSTOP" using i(1)
      by (simp add: pages_between_def aligned_nat word_le_nat_alt word_less_nat_alt PHYSTOP_def)
  qed
  then have "card (?f ` {..<3001}) \<le> card (pages_between 0x108000 PHYSTOP)" by (intro card_mono) simp_all
  then show ?thesis unfolding c by simp
qed

lemma demo_space:
  obtains s :: kvm and vs U pd where "mem_split s vs U" and "user_space (pmem s) U pd 1" and "1027 < length vs" and "k_data s = 0x105000"
proof -
  have "returns (kinit_loop 0x108000 bare_vm) (\<lambda>_ t. \<exists>ws. pool_ok t ws \<and> set ws = set [] \<union> pages_between 0x108000 PHYSTOP \<and>
      nomem t = nomem bare_vm)"
    by (rule kinit_loop_spec) (auto simp: pool_ok_def bare_vm_simps aligned_nat PHYSTOP_def)
  then obtain t :: kvm and ws where t: "pool_ok t ws" "set ws = pages_between 0x108000 PHYSTOP" "nomem t = nomem bare_vm"
    by (auto simp: returns_def)
  have kd: "k_data t = 0x105000" using arg_cong [OF t(3), of k_data] by (simp add: nomem_def bare_vm_simps)
  have n: "3000 < length ws" using many_pages t(2) pp.pool_distinct [OF t(1)] by (simp add: distinct_card [symmetric])
  have ms: "mem_split t ws {}" using t(1) by (simp add: mem_split_def)
  have "returns (setupkvm t) (\<lambda>d t'. \<exists>us vs'. ws = us @ vs' \<and> d \<noteq> 0 \<and> d \<notin> {} \<and> nomem t' = nomem t \<and> vm_ok t' ({} \<union> set us) vs' d \<and>
      pt_pages (pmem t') d = set us \<and> (\<forall>w \<in> {}. same_page (pmem t) (pmem t') w) \<and>
      (\<forall>j < 2 ^ 20. pt_entry (pmem t') d j = region_entry (kmap (k_data t)) 0 j))"
    using n by (intro setupkvm_spec [OF ms]) (simp_all add: kd aligned_nat PHYSTOP_def)
  then obtain d t' us vs' where k: "ws = us @ vs'" "nomem t' = nomem t" "vm_ok t' (set us) vs' d" "pt_pages (pmem t') d = set us"
    "\<forall>j < 2 ^ 20. pt_entry (pmem t') d j = region_entry (kmap (k_data t)) 0 j" by (auto simp: returns_def)
  have kd': "k_data t' = 0x105000" using arg_cong [OF k(2), of k_data] kd by (simp add: nomem_def)
  have dw: "distinct ws" using t(1) by (rule pp.pool_distinct)
  have "length us \<le> 1025 + length ([] :: uint list)" by (rule used_bound [of _ "pmem t'" d]) (use k dw in auto)
  then obtain v vs1 where v: "vs' = v # vs1" using n k(1) by (cases vs') auto
  have z: "pt_entry (pmem t') d 0 = 0" using k(5) region_entry_user [of 0 "k_data t" 0] by (simp add: kd)
  have "returns (and_then (kalloc t') (\<lambda>mem s. if mem = 0 then Ret 0 s else
      and_then (mappages d (of_nat (4096 * 0)) (of_nat PGSIZE) mem (PTE_W OR PTE_U) (s\<lparr>pmem := mem_write (pmem s) mem (mem_read (pmem s) 0 PGSIZE)\<rparr>)) Ret))
    (\<lambda>r s. \<exists>vs U. mem_split s vs U \<and> user_space (pmem s) U d 1 \<and> 1027 < length vs \<and> k_data s = 0x105000)"
  proof (rule copy_page [OF k(3) [unfolded v] _ _ refl])
    fix r u new vs2
    assume c: "vs1 = new @ vs2" "nomem u = nomem t'" "vm_ok u (set us \<union> set (v # new)) vs2 d"
      "pt_pages (pmem u) d = pt_pages (pmem t') d \<union> set new" "aligned v"
      "r = 0 \<and> pt_entry (pmem u) d 0 = v OR (PTE_W OR PTE_U) OR PTE_P \<or> r = -1 \<and> vs2 = []"
    have "length (us @ v # new) \<le> 1025 + length [v]"
      by (rule used_bound [of _ "pmem u" d]) (use k(1,4) c(1,4) v dw in auto)
    then have l: "1027 < length vs2" using n k(1) v c(1) by simp
    then have e: "pt_entry (pmem u) d 0 = v OR (PTE_W OR PTE_U) OR PTE_P" using c(6) by auto
    have "(PTE_W OR PTE_U) OR PTE_P = 7" by (simp add: PTE_P_def PTE_W_def PTE_U_def)
    then have "PTE_ADDR (pt_entry (pmem u) d 0) = v" using PTE_ADDR_flags [OF c(5), of 7] e by (simp add: or.assoc)
    then have "user_space (pmem u) (set us \<union> set (v # new)) d 1"
      using c(3) e PTE_P_flags(1) [of v "PTE_W OR PTE_U"] by (simp add: user_space_def vm_ok_def or.assoc)
    moreover have "mem_split u vs2 (set us \<union> set (v # new))" using c(3) by (simp add: vm_ok_def)
    moreover have "k_data u = 0x105000" using arg_cong [OF c(2), of k_data] kd' by (simp add: nomem_def)
    ultimately show "returns (Ret r u) (\<lambda>r s. \<exists>vs U. mem_split s vs U \<and> user_space (pmem s) U d 1 \<and> 1027 < length vs \<and> k_data s = 0x105000)"
      using l by auto
  qed (simp_all add: z)
  then show thesis using that by (auto simp: returns_def)
qed

theorem copyuvm_copies_witness:
  "\<exists>(s :: kvm) pd d t a b. copyuvm pd 1 s = Ret d t \<and> d \<noteq> 0 \<and> translate (s\<lparr>cr3 := pd\<rparr>) 0 = Some a \<and>
     translate (t\<lparr>cr3 := d\<rparr>) 0 = Some b \<and> pmem t b = pmem s a \<and> a \<noteq> b"
proof -
  obtain s :: kvm and vs U pd where s: "mem_split s vs U" "user_space (pmem s) U pd 1" "1027 < length vs" "k_data s = 0x105000"
    by (rule demo_space)
  have "returns (copyuvm pd 1 s) (\<lambda>d t. d \<noteq> 0 \<and> (\<forall>va < 1. \<exists>a b.
    translate (s\<lparr>cr3 := pd\<rparr>) va = Some a \<and> translate (t\<lparr>cr3 := pd\<rparr>) va = Some a \<and> translate (t\<lparr>cr3 := d\<rparr>) va = Some b \<and>
    pmem t b = pmem s a \<and> pmem t a = pmem s a \<and> PGROUNDDOWN b \<in> set vs \<and> PGROUNDDOWN b \<notin> U))"
    using s by (intro copyuvm_copies) (simp_all add: USERTOP_def PHYSTOP_def aligned_nat)
  then obtain d t a b where r: "copyuvm pd 1 s = Ret d t" "d \<noteq> 0" "translate (s\<lparr>cr3 := pd\<rparr>) 0 = Some a"
    "translate (t\<lparr>cr3 := d\<rparr>) 0 = Some b" "pmem t b = pmem s a" "PGROUNDDOWN b \<notin> U"
    by (auto simp: returns_def)
  have "PGROUNDDOWN a \<in> U" using r(3) s(2) page_of_offset [of _ 0] by (auto simp: translate_entry user_space_def Let_def split: if_splits)
  then have "a \<noteq> b" using r(6) by auto
  then show ?thesis using r by blast
qed

section \<open>The kernel's mapping\<close>

lemma in_region_iff:
  assumes "aligned p" and "aligned e"
  shows "in_region (vpn va) (p, e, perm) \<longleftrightarrow> p \<le> va \<and> va \<le> e - 1"
proof -
  have "vpn p \<le> vpn va \<longleftrightarrow> p \<le> va"
    using aligned_vpn [OF assms(1)] div_le_mono [of "unat p" "unat va" 4096] div_mult_mod_eq [of "unat va" 4096]
    by (auto simp: word_le_nat_alt)
  moreover have "vpn va \<le> vpn (e - 1) \<longleftrightarrow> va \<le> e - 1"
  proof
    assume l: "vpn va \<le> vpn (e - 1)"
    have "unat va = vpn va * 4096 + unat va mod 4096" "unat va mod 4096 < 4096" by simp_all
    moreover have "unat (e - 1) = 4096 * vpn (e - 1) + 4095" by (rule region_last [OF assms(2)])
    ultimately have "unat va \<le> unat (e - 1)" using l by linarith
    then show "va \<le> e - 1" by (simp add: word_le_nat_alt)
  qed (simp add: word_le_nat_alt div_le_mono)
  ultimately show ?thesis by (simp add: in_region_def)
qed

lemma regions_ok_aligned: "regions_ok ks \<Longrightarrow> (p, e, perm) \<in> set ks \<Longrightarrow> aligned p \<and> aligned e"
  by (induction ks rule: regions_ok.induct) auto

lemma PGROUNDDOWN_offset: "of_nat (4096 * vpn va) OR (va AND 0xFFF) = va"
proof -
  have u: "unat (of_nat (4096 * vpn va) :: uint) = 4096 * vpn va" using vpn_less [of va] by (intro unat_small) simp
  then have "aligned (of_nat (4096 * vpn va))" unfolding aligned_nat by (simp only: mod_mult_self1_is_0)
  then have "of_nat (4096 * vpn va) OR (va AND 0xFFF) = of_nat (4096 * vpn va) + of_nat (unat va mod 4096)" by (rule page_or_offset)
  also have "\<dots> = (of_nat (4096 * vpn va + unat va mod 4096) :: uint)" by (rule of_nat_add [symmetric])
  also have "\<dots> = va" unfolding mult_div_mod_eq by simp
  finally show ?thesis .
qed

lemma kmap_perm: "(p, e, perm) \<in> set (kmap data) \<Longrightarrow> perm = 0 \<or> perm = PTE_W"
  by (auto simp: kmap_def)

text \<open>C18: the kernel's half of an address space.  With enough free pages \<open>setupkvm\<close> returns a directory that translates
  every address of the regions of \<open>kmap\<close> to itself and no other address at all.\<close>

theorem setupkvm_identity:
  fixes s :: "'a kvm_scheme"
  assumes "mem_split s vs U" and data: "aligned (k_data s)" "0x100000 < k_data s" "k_data s < PHYSTOP" and "1026 < length vs"
  shows "returns (setupkvm s) (\<lambda>d t. d \<noteq> 0 \<and> (\<forall>va. translate (t\<lparr>cr3 := d\<rparr>) va =
    (if list_ex (\<lambda>(p, e, perm). p \<le> va \<and> va \<le> e - 1) (kmap (k_data s)) then Some va else None)))"
proof (rule returns_mono [OF setupkvm_spec [OF assms]], elim exE conjE)
  fix d us vs' and t :: "'a kvm_scheme"
  let ?ks = "kmap (k_data s)"
  assume d: "d \<noteq> 0" and en: "\<forall>j < 2 ^ 20. pt_entry (pmem t) d j = region_entry ?ks 0 j"
  have "translate (t\<lparr>cr3 := d\<rparr>) va =
    (if list_ex (\<lambda>(p, e, perm). p \<le> va \<and> va \<le> e - 1) ?ks then Some va else None)" for va
  proof -
    let ?j = "vpn va"
    have iff: "in_region ?j (p, e, perm) \<longleftrightarrow> p \<le> va \<and> va \<le> e - 1" if "(p, e, perm) \<in> set ?ks" for p e perm
      using regions_ok_aligned [OF kmap_regions_ok [OF data] that] in_region_iff by blast
    have e: "pt_entry (pmem t) d ?j = region_entry ?ks 0 ?j" using en vpn_less by blast
    show ?thesis
    proof (cases "find (in_region ?j) ?ks")
      case None
      then have "\<not> list_ex (\<lambda>(p, e, perm). p \<le> va \<and> va \<le> e - 1) ?ks" using iff by (fastforce simp: find_None_iff list_ex_iff)
      then show ?thesis using None e by (simp add: translate_entry region_entry_def)
    next
      case (Some k)
      obtain p f perm where k: "k = (p, f, perm)" by (cases k)
      have i: "k \<in> set ?ks" "in_region ?j k" using Some by (auto simp: find_Some_iff)
      then have ex: "list_ex (\<lambda>(p, e, perm). p \<le> va \<and> va \<le> e - 1) ?ks" using iff k by (fastforce simp: list_ex_iff)
      let ?a = "of_nat (4096 * ?j) :: uint"
      have u: "unat ?a = 4096 * ?j" using vpn_less [of va] by (intro unat_small) simp
      have al: "aligned ?a" unfolding aligned_nat u by (simp only: mod_mult_self1_is_0)
      have pe: "pt_entry (pmem t) d ?j = ?a OR perm OR PTE_P" using e Some k by (simp add: region_entry_def del: of_nat_mult)
      have "perm = 0 \<or> perm = PTE_W" using kmap_perm i(1) k by blast
      then have "(perm OR PTE_P) AND NOT 0xFFF = 0" by (auto simp: PTE_P_def PTE_W_def)
      then have "PTE_ADDR (pt_entry (pmem t) d ?j) = ?a" unfolding pe using PTE_ADDR_flags [OF al] by (simp add: or.assoc)
      moreover have "pt_entry (pmem t) d ?j AND PTE_P \<noteq> 0" unfolding pe using PTE_P_flags(1) by (simp add: or.assoc)
      ultimately show ?thesis using ex PGROUNDDOWN_offset [of va] by (simp add: translate_entry Let_def del: of_nat_mult)
    qed
  qed
  then show "d \<noteq> 0 \<and> (\<forall>va. translate (t\<lparr>cr3 := d\<rparr>) va =
    (if list_ex (\<lambda>(p, e, perm). p \<le> va \<and> va \<le> e - 1) ?ks then Some va else None))" using d by blast
qed

theorem setupkvm_identity_witness:
  "\<exists>(s :: kvm) d t. setupkvm s = Ret d t \<and> translate (t\<lparr>cr3 := d\<rparr>) 0x104fff = Some 0x104fff \<and> translate (t\<lparr>cr3 := d\<rparr>) 0x1000 = None"
proof -
  obtain s :: kvm and vs U pd where s: "mem_split s vs U" "user_space (pmem s) U pd 1" "1027 < length vs" "k_data s = 0x105000"
    by (rule demo_space)
  have "returns (setupkvm s) (\<lambda>d t. d \<noteq> 0 \<and> (\<forall>va. translate (t\<lparr>cr3 := d\<rparr>) va =
    (if list_ex (\<lambda>(p, e, perm). p \<le> va \<and> va \<le> e - 1) (kmap (k_data s)) then Some va else None)))"
    using s(4) less_trans [OF _ s(3), of 1026] by (intro setupkvm_identity [OF s(1)]) (simp_all add: PHYSTOP_def aligned_nat)
  then obtain d t where "setupkvm s = Ret d t" "\<forall>va. translate (t\<lparr>cr3 := d\<rparr>) va =
    (if list_ex (\<lambda>(p, e, perm). p \<le> va \<and> va \<le> e - 1) (kmap (k_data s)) then Some va else None)"
    by (auto simp: returns_def)
  then show ?thesis by (intro exI [of _ s] exI [of _ d] exI [of _ t]) (simp add: s(4) kmap_def USERTOP_def PHYSTOP_def)
qed

end
