(* ===== verification/Userprog.thy ===== *)
theory Userprog
  imports Console
begin

text \<open>
  User programs of \<^verbatim>\<open>src/5/xv6\<close>: the formatted output of \<^verbatim>\<open>printf.c\<close>, the pattern matcher and the line loop of
  \<^verbatim>\<open>grep.c\<close>, the counters of \<^verbatim>\<open>wc.c\<close>.

  What a program writes is the list of bytes it passes to \<^verbatim>\<open>write\<close>; what it reads is the list of the results of
  successive calls of \<^verbatim>\<open>read\<close>.  A string is the list of its characters without the terminating zero.
\<close>

section \<open>printf\<close>

definition udigit :: "uint \<Rightarrow> byte" where
  "udigit d = bytes_of ''0123456789ABCDEF'' ! unat d"

text \<open>Like \<open>print_digits\<close> of the kernel, with other digits; \<open>base\<close> is 10 or 16.\<close>

function uprint_digits :: "uint \<Rightarrow> uint \<Rightarrow> byte list" where
  "uprint_digits base x =
     (if base < 2 then [udigit (x mod base)]
      else udigit (x mod base) # (if x div base \<noteq> 0 then uprint_digits base (x div base) else []))"
  by pat_completeness auto
termination
proof (relation "measure (\<lambda>(base, x). unat x)", goal_cases)
  case (2 base x)
  then have "unat x div unat base < unat x"
    by (intro div_less_dividend) (auto simp: word_less_nat_alt unat_div unat_eq_0 neq0_conv [symmetric] intro: ccontr)
  then show ?case by (simp add: unat_div)
qed simp

declare uprint_digits.simps [simp del]

definition uprintint_out :: "uint \<Rightarrow> uint \<Rightarrow> bool \<Rightarrow> byte list" where
  "uprintint_out xx base sg =
     (let neg = sg \<and> sint xx < 0; x = (if neg then - xx else xx) in
      rev (uprint_digits base x @ (if neg then [45] else [])))"

text \<open>The flag is the variable \<^verbatim>\<open>state\<close>: \<open>True\<close> after a percent sign.\<close>

fun printf_loop :: "bool \<Rightarrow> byte list \<Rightarrow> carg list \<Rightarrow> byte list" where
  "printf_loop st [] ap = []"
| "printf_loop False (c # fmt) ap =
     (if c = 0 then [] else if c = 37 then printf_loop True fmt ap else c # printf_loop False fmt ap)"
| "printf_loop True (c # fmt) ap =
     (if c = 0 then []
      else if c = 100 then uprintint_out (fst (hd ap)) 10 True @ printf_loop False fmt (tl ap)
      else if c = 120 \<or> c = 112 then uprintint_out (fst (hd ap)) 16 False @ printf_loop False fmt (tl ap)
      else if c = 115 then
        (if fst (hd ap) = 0 then bytes_of ''(null)'' else cstr (snd (hd ap))) @ printf_loop False fmt (tl ap)
      else if c = 99 then ucast (fst (hd ap)) # printf_loop False fmt (tl ap)
      else if c = 37 then c # printf_loop False fmt ap
      else 37 # c # printf_loop False fmt ap)"

definition uprintf :: "byte list \<Rightarrow> carg list \<Rightarrow> byte list" where
  "uprintf fmt ap = printf_loop False fmt ap"

section \<open>The matcher of grep\<close>

function matchhere :: "byte list \<Rightarrow> byte list \<Rightarrow> bool"
  and matchstar :: "byte \<Rightarrow> byte list \<Rightarrow> byte list \<Rightarrow> bool" where
  "matchhere [] str = True"
| "matchhere (c # re) str =
     (if re \<noteq> [] \<and> hd re = 42 then matchstar c (tl re) str
      else if c = 36 \<and> re = [] then str = []
      else case str of [] \<Rightarrow> False | t # ts \<Rightarrow> (c = 46 \<or> c = t) \<and> matchhere re ts)"
| "matchstar c re str =
     (if matchhere re str then True
      else case str of [] \<Rightarrow> False | t # ts \<Rightarrow> (t = c \<or> c = 46) \<and> matchstar c re ts)"
  by pat_completeness auto
termination
  by (relation "measure (\<lambda>x. case x of Inl (re, str) \<Rightarrow> 2 * (length re + length str)
       | Inr (c, re, str) \<Rightarrow> 2 * (length re + length str) + 1)") auto

declare matchhere.simps(2) [simp del] matchstar.simps [simp del]

fun match_from :: "byte list \<Rightarrow> byte list \<Rightarrow> bool" where
  "match_from re str =
     (if matchhere re str then True else case str of [] \<Rightarrow> False | t # ts \<Rightarrow> match_from re ts)"

declare match_from.simps [simp del]

definition grep_match :: "byte list \<Rightarrow> byte list \<Rightarrow> bool" where
  "grep_match re str =
     (if re \<noteq> [] \<and> hd re = 94 then matchhere (tl re) str else match_from re str)"

section \<open>The line loop of grep\<close>

definition GREPBUF :: nat where "GREPBUF = 1024"

lemma strchr_less: "strchr xs c = Some q \<Longrightarrow> q < length xs"
  by (induction xs arbitrary: q) (auto split: if_splits)

text \<open>The lines in the buffer from \<open>p\<close> on, as \<^verbatim>\<open>strchr\<close> finds them: it stops at a newline or at a zero, wherever the
  data that was read last ends.  The line end of a line that does not match stays overwritten by the zero.  The result is
  the buffer, the new \<open>p\<close> and what is written; a search that meets neither before the end of the buffer leaves it.\<close>

function grep_lines :: "byte list \<Rightarrow> byte list \<Rightarrow> nat \<Rightarrow> byte list \<Rightarrow> (byte list \<times> nat \<times> byte list) option" where
  "grep_lines pat buf p out =
     (case strchr (drop p buf) 10 of
        None \<Rightarrow> if 0 \<in> set (drop p buf) then Some (buf, p, out) else None
      | Some q \<Rightarrow>
          let line = take q (drop p buf) in
          if grep_match pat line then grep_lines pat buf (p + q + 1) (out @ line @ [10])
          else grep_lines pat (buf[p + q := 0]) (p + q + 1) out)"
  by pat_completeness auto

termination
proof (relation "measure (\<lambda>(pat, buf, p, out). length buf - p)", goal_cases)
  case (2 pat buf p out q line)
  then have "q < length (drop p buf)" by (intro strchr_less) simp
  then show ?case by simp
next
  case (3 pat buf p out q line)
  then have "q < length (drop p buf)" by (intro strchr_less) simp
  then show ?case by simp
qed simp

declare grep_lines.simps [simp del]

text \<open>\<open>m\<close> is how much of the buffer is in use.  A read of 0 bytes ends the loop; so does a full buffer, for which the
  request is for 0 bytes.  A line end found behind the data makes \<open>m\<close> negative (\<^verbatim>\<open>memmove\<close> then moves nothing), and a
  next read would store in front of the buffer.\<close>

primrec grep_loop :: "byte list \<Rightarrow> byte list list \<Rightarrow> byte list \<Rightarrow> int \<Rightarrow> byte list \<Rightarrow> (byte list, unit) outcome" where
  "grep_loop pat [] buf m out = Ret out ()"
| "grep_loop pat (r # reads) buf m out =
     (let r = take (nat (int GREPBUF - m)) r in
      if r = [] then Ret out ()
      else if m < 0 then Panic ''store in front of buf''
      else
        let buf = put_at buf (nat m) r; m = m + int (length r) in
        case grep_lines pat buf 0 out of None \<Rightarrow> Panic ''search behind buf''
        | Some (buf, p, out) \<Rightarrow>
            if p = 0 then grep_loop pat reads buf 0 out
            else
              let m = m - int p in
              grep_loop pat reads (put_at buf 0 (take (nat m) (drop p buf))) m out)"

definition grep :: "byte list \<Rightarrow> byte list list \<Rightarrow> (byte list, unit) outcome" where
  "grep pat reads = grep_loop pat reads (replicate GREPBUF 0) 0 []"

section \<open>wc\<close>

record wc_state =
  wc_l :: uint
  wc_w :: uint
  wc_c :: uint
  wc_inword :: bool

definition wc_blank :: "byte \<Rightarrow> bool" where
  "wc_blank b \<longleftrightarrow> strchr (bytes_of '' '' @ [13, 9, 10, 11]) b \<noteq> None"

definition wc_char :: "byte \<Rightarrow> wc_state \<Rightarrow> wc_state" where
  "wc_char b s =
     (let s = s\<lparr>wc_c := wc_c s + 1\<rparr>;
          s = (if b = 10 then s\<lparr>wc_l := wc_l s + 1\<rparr> else s) in
      if wc_blank b then s\<lparr>wc_inword := False\<rparr>
      else if \<not> wc_inword s then s\<lparr>wc_w := wc_w s + 1, wc_inword := True\<rparr>
      else s)"

text \<open>\<open>None\<close> is a read that fails; the list ends where a read returns 0.\<close>

fun wc_loop :: "byte list option list \<Rightarrow> wc_state \<Rightarrow> wc_state option" where
  "wc_loop [] s = Some s"
| "wc_loop (None # reads) s = None"
| "wc_loop (Some r # reads) s = (if r = [] then Some s else wc_loop reads (fold wc_char r s))"

definition wc :: "byte list option list \<Rightarrow> byte list \<Rightarrow> byte list" where
  "wc reads name =
     (case wc_loop reads \<lparr>wc_l = 0, wc_w = 0, wc_c = 0, wc_inword = False\<rparr> of
        None \<Rightarrow> uprintf (bytes_of ''wc: read error'' @ newline) []
      | Some s \<Rightarrow> uprintf (bytes_of ''%d %d %d %s'' @ newline) [(wc_l s, []), (wc_w s, []), (wc_c s, []), (1, name)])"

section \<open>Pieces of a text\<close>

fun split_on :: "('a \<Rightarrow> bool) \<Rightarrow> 'a list \<Rightarrow> 'a list list" where
  "split_on P [] = [[]]"
| "split_on P (x # xs) =
     (if P x then [] # split_on P xs else (x # hd (split_on P xs)) # tl (split_on P xs))"

lemma split_on_not_Nil [simp]: "split_on P xs \<noteq> []"
  by (cases xs) auto

lemma split_on_append_piece:
  assumes "\<forall>x \<in> set xs. \<not> P x" and "P y"
  shows "split_on P (xs @ y # ys) = xs # split_on P ys"
  using assms by (induction xs) auto

lemma split_on_none: "\<forall>x \<in> set xs. \<not> P x \<Longrightarrow> split_on P xs = [xs]"
  by (induction xs) auto

lemma last_piece_length: "length (last (split_on P xs)) \<le> length xs"
proof (induction xs)
  case (Cons x xs)
  then show ?case by (cases "split_on P xs") (auto split: if_splits)
qed simp

section \<open>Properties of printf\<close>

definition escape :: "byte list \<Rightarrow> byte list" where
  "escape s = concat (map (\<lambda>c. if c = 37 then [37, 37] else [c]) s)"

text \<open>A text in which every percent sign is doubled is a format that prints the text, whatever the arguments.\<close>

theorem printf_escape:
  assumes "0 \<notin> set s"
  shows "uprintf (escape s) ap = s"
proof -
  have "printf_loop False (escape s) ap = s" using assms by (induction s) (auto simp: escape_def)
  then show ?thesis by (simp add: uprintf_def)
qed

theorem printf_escape_witness: "uprintf (bytes_of ''100%% sure'') [] = bytes_of ''100% sure''"
  using printf_escape [of "bytes_of ''100% sure''" "[]"] by (simp add: escape_def bytes_of_def)

section \<open>Properties of grep\<close>

text \<open>What the patterns mean: a pattern is a list of items, a character with a flag for the star, and a flag for a final dollar
  sign.  A dot stands for every character.\<close>

fun items :: "byte list \<Rightarrow> (byte \<times> bool) list \<times> bool" where
  "items [] = ([], False)"
| "items [c] = (if c = 36 then ([], True) else ([(c, False)], False))"
| "items (c # d # re) =
     (if d = 42 then let (its, e) = items re in ((c, True) # its, e) else let (its, e) = items (d # re) in ((c, False) # its, e))"

definition item_ok :: "byte \<Rightarrow> byte \<Rightarrow> bool" where
  "item_ok c t \<longleftrightarrow> c = 46 \<or> c = t"

inductive word_of :: "(byte \<times> bool) list \<Rightarrow> byte list \<Rightarrow> bool" where
  word_end: "word_of [] []"
| word_one: "item_ok c t \<Longrightarrow> word_of its u \<Longrightarrow> word_of ((c, False) # its) (t # u)"
| word_star: "\<forall>t \<in> set v. item_ok c t \<Longrightarrow> word_of its u \<Longrightarrow> word_of ((c, True) # its) (v @ u)"

inductive_cases word_of_NilE: "word_of [] u"
inductive_cases word_of_oneE: "word_of ((c, False) # its) u"
inductive_cases word_of_starE: "word_of ((c, True) # its) u"

definition begins :: "(byte \<times> bool) list \<times> bool \<Rightarrow> byte list \<Rightarrow> bool" where
  "begins p str \<longleftrightarrow> (\<exists>u v. str = u @ v \<and> word_of (fst p) u \<and> (snd p \<longrightarrow> v = []))"

definition pattern_matches :: "byte list \<Rightarrow> byte list \<Rightarrow> bool" where
  "pattern_matches re str \<longleftrightarrow>
     (if re \<noteq> [] \<and> hd re = 94 then begins (items (tl re)) str
      else (\<exists>u v. str = u @ v \<and> begins (items re) v))"

lemma beginsI: "word_of its u \<Longrightarrow> e \<longrightarrow> v = [] \<Longrightarrow> begins (its, e) (u @ v)"
  unfolding begins_def by (rule exI [of _ u], rule exI [of _ v]) simp

lemma begins_empty: "begins ([], e) str \<longleftrightarrow> (e \<longrightarrow> str = [])"
proof
  show "begins ([], e) str \<Longrightarrow> e \<longrightarrow> str = []" by (auto simp: begins_def elim: word_of_NilE)
  show "e \<longrightarrow> str = [] \<Longrightarrow> begins ([], e) str" using word_end by (fastforce simp: begins_def)
qed

lemma begins_one: "begins ((c, False) # its, e) str \<longleftrightarrow> (case str of [] \<Rightarrow> False | t # ts \<Rightarrow> item_ok c t \<and> begins (its, e) ts)"
proof
  assume "begins ((c, False) # its, e) str"
  then show "case str of [] \<Rightarrow> False | t # ts \<Rightarrow> item_ok c t \<and> begins (its, e) ts"
  proof -
    obtain u v where u: "str = u @ v" "word_of ((c, False) # its) u" "e \<longrightarrow> v = []"
      using \<open>begins ((c, False) # its, e) str\<close> by (auto simp: begins_def)
    from u(2) obtain t u' where "u = t # u'" "item_ok c t" "word_of its u'" by (rule word_of_oneE)
    then show ?thesis using u beginsI [of its u' e v] by simp
  qed
next
  assume "case str of [] \<Rightarrow> False | t # ts \<Rightarrow> item_ok c t \<and> begins (its, e) ts"
  then obtain t u v where "str = t # u @ v" "item_ok c t" "word_of its u" "e \<longrightarrow> v = []"
    by (auto simp: begins_def split: list.splits)
  then show "begins ((c, False) # its, e) str" using beginsI [OF word_one [of c t its u]] by simp
qed

lemma begins_star:
  "begins ((c, True) # its, e) str \<longleftrightarrow> begins (its, e) str \<or>
     (case str of [] \<Rightarrow> False | t # ts \<Rightarrow> item_ok c t \<and> begins ((c, True) # its, e) ts)"
proof
  assume "begins ((c, True) # its, e) str"
  then obtain x v where x: "str = x @ v" "word_of ((c, True) # its) x" "e \<longrightarrow> v = []" by (auto simp: begins_def)
  from x(2) obtain w u where "x = w @ u" "\<forall>t \<in> set w. item_ok c t" "word_of its u" by (rule word_of_starE)
  then have t: "str = (w @ u) @ v" "\<forall>t \<in> set w. item_ok c t" "word_of its u" "e \<longrightarrow> v = []" using x by auto
  show "begins (its, e) str \<or> (case str of [] \<Rightarrow> False | t # ts \<Rightarrow> item_ok c t \<and> begins ((c, True) # its, e) ts)"
  proof (cases w)
    case Nil
    then show ?thesis using t beginsI by simp
  next
    case (Cons x xs)
    then have "word_of ((c, True) # its) (xs @ u)" using t by (intro word_star) auto
    then have "begins ((c, True) # its, e) ((xs @ u) @ v)" using t(4) by (rule beginsI)
    then show ?thesis using Cons t by simp
  qed
next
  assume "begins (its, e) str \<or> (case str of [] \<Rightarrow> False | t # ts \<Rightarrow> item_ok c t \<and> begins ((c, True) # its, e) ts)"
  then consider u v where "str = u @ v" "word_of its u" "e \<longrightarrow> v = []"
    | t x v where "str = t # x @ v" "item_ok c t" "word_of ((c, True) # its) x" "e \<longrightarrow> v = []"
    by (auto simp: begins_def split: list.splits)
  then show "begins ((c, True) # its, e) str"
  proof cases
    case 1
    then show ?thesis using beginsI [OF word_star [of "[]" c its u]] by simp
  next
    case 2
    from 2(3) obtain w u where w: "x = w @ u" "\<forall>t \<in> set w. item_ok c t" "word_of its u" by (rule word_of_starE)
    then have "word_of ((c, True) # its) ((t # w) @ u)" using 2(2) by (intro word_star) auto
    moreover have "str = ((t # w) @ u) @ v" using 2(1) w(1) by simp
    ultimately show ?thesis using beginsI 2(4) by metis
  qed
qed

lemma matchhere_begins:
  "matchhere re str \<longleftrightarrow> begins (items re) str"
  "matchstar c re str \<longleftrightarrow> begins ((c, True) # fst (items re), snd (items re)) str"
proof (induction re str and c re str rule: matchhere_matchstar.induct)
  case (1 str)
  then show ?case by (simp add: begins_empty)
next
  case (2 c re str)
  show ?case
  proof (cases "re \<noteq> [] \<and> hd re = 42")
    case True
    then obtain re' where re: "re = 42 # re'" by (cases re) auto
    then show ?thesis using 2(1) by (simp add: matchhere.simps(2) split_def Let_def)
  next
    case False
    have i: "items (c # re) = (if c = 36 \<and> re = [] then ([], True) else ((c, False) # fst (items re), snd (items re)))"
      using False by (cases re) (auto simp: split_def Let_def)
    show ?thesis
    proof (cases "c = 36 \<and> re = []")
      case True
      then show ?thesis by (simp add: matchhere.simps(2) begins_empty)
    next
      case F: False
      show ?thesis using 2(2) [OF False F] unfolding i if_not_P [OF F] begins_one matchhere.simps(2) if_not_P [OF False]
        by (auto simp: item_ok_def split: list.splits)
    qed
  qed
next
  case (3 c re str)
  show ?case
  proof (cases "matchhere re str")
    case True
    then show ?thesis using 3(1) by (simp add: matchstar.simps begins_star [of c])
  next
    case False
    then show ?thesis using 3 by (subst matchstar.simps, subst begins_star) (auto simp: item_ok_def split: list.splits)
  qed
qed

lemma match_from_suffix: "match_from re str \<longleftrightarrow> (\<exists>u v. str = u @ v \<and> matchhere re v)"
proof (induction str)
  case Nil
  then show ?case by (simp add: match_from.simps)
next
  case (Cons t ts)
  have "(\<exists>u v. t # ts = u @ v \<and> matchhere re v) \<longleftrightarrow> matchhere re (t # ts) \<or> (\<exists>u v. ts = u @ v \<and> matchhere re v)"
    by (auto simp: Cons_eq_append_conv)
  then show ?case using Cons by (simp add: match_from.simps)
qed

text \<open>C35: the matcher of grep decides the language of its pattern: it accepts a line exactly when the line contains a word
  described by the pattern, at the start of the line after a circumflex and up to the end of the line before a dollar
  sign.\<close>

theorem grep_match_iff: "grep_match re str \<longleftrightarrow> pattern_matches re str"
  by (simp add: grep_match_def pattern_matches_def matchhere_begins match_from_suffix)

text \<open>Complete lines of an input: the pieces that end with a newline.\<close>

definition complete_lines :: "byte list \<Rightarrow> byte list list" where
  "complete_lines inp = butlast (split_on (\<lambda>c. c = 10) inp)"

definition selected :: "byte list \<Rightarrow> byte list \<Rightarrow> byte list" where
  "selected pat inp = concat (map (\<lambda>l. l @ [10]) (filter (grep_match pat) (complete_lines inp)))"

lemma strchr_line: "0 \<notin> set xs \<Longrightarrow> 10 \<notin> set xs \<Longrightarrow> strchr (xs @ 10 # ys) 10 = Some (length xs)"
  by (induction xs) auto

lemma strchr_end: "0 \<notin> set xs \<Longrightarrow> 10 \<notin> set xs \<Longrightarrow> strchr (xs @ 0 # ys) 10 = None"
  by (induction xs) auto

lemma selected_Cons:
  assumes "10 \<notin> set l"
  shows "selected pat (l @ 10 # r) = (if grep_match pat l then l @ [10] else []) @ selected pat r"
proof -
  have "split_on (\<lambda>c. c = 10) (l @ 10 # r) = l # split_on (\<lambda>c. c = 10) r" using assms by (intro split_on_append_piece) auto
  then show ?thesis by (simp add: selected_def complete_lines_def)
qed

lemma grep_lines_spec:
  assumes "drop p buf = rest @ 0 # zs" and "0 \<notin> set rest"
  shows "\<exists>buf' p'. grep_lines pat buf p out = Some (buf', p', out @ selected pat rest)"
  using assms
proof (induction "length rest" arbitrary: rest p out buf rule: less_induct)
  case less
  show ?case
  proof (cases "10 \<in> set rest")
    case False
    then have "strchr (drop p buf) 10 = None" using less.prems by (simp add: strchr_end)
    moreover have "split_on (\<lambda>c. c = 10) rest = [rest]" using False by (intro split_on_none) auto
    ultimately show ?thesis using less.prems(1)
      by (subst grep_lines.simps) (simp add: selected_def complete_lines_def)
  next
    case True
    then obtain l r where r: "rest = l @ 10 # r" "10 \<notin> set l" by (meson split_list_first)
    have f: "strchr (drop p buf) 10 = Some (length l)" using less.prems r by (simp add: strchr_line)
    have t: "take (length l) (drop p buf) = l" using less.prems r by simp
    have "drop (Suc (length l)) (drop p buf) = r @ 0 # zs" using less.prems(1) r(1) by simp
    then have d: "drop (p + length l + 1) buf = r @ 0 # zs" by (simp add: add.commute)
    then have d': "drop (p + length l + 1) (buf[p + length l := 0]) = r @ 0 # zs" by simp
    have r': "length r < length rest" "0 \<notin> set r" using r(1) less.prems(2) by auto
    show ?thesis
    proof (cases "grep_match pat l")
      case True
      then show ?thesis using less.hyps [OF r'(1) d r'(2), of "out @ l @ [10]"] f t
        by (subst grep_lines.simps) (simp add: Let_def r(1) selected_Cons [OF r(2)])
    next
      case False
      then show ?thesis using less.hyps [OF r'(1) d' r'(2), of out] f t
        by (subst grep_lines.simps) (simp add: Let_def r(1) selected_Cons [OF r(2)])
    qed
  qed
qed

text \<open>C36: an input of less than 1024 bytes without zeros that arrives in one read: \<open>grep\<close> returns and writes exactly its complete
  lines that match the pattern, in order.\<close>

theorem grep_selects:
  assumes "length inp < GREPBUF" and "0 \<notin> set inp"
  shows "grep pat [inp] = Ret (selected pat inp) ()"
proof (cases "inp = []")
  case True
  then show ?thesis by (simp add: grep_def selected_def complete_lines_def)
next
  case False
  let ?buf = "put_at (replicate GREPBUF 0) 0 inp"
  have b: "drop 0 ?buf = inp @ 0 # replicate (GREPBUF - length inp - 1) 0"
    using assms(1) by (simp add: put_at_def replicate_Suc [symmetric] del: replicate_Suc)
  obtain buf' p' where "grep_lines pat ?buf 0 [] = Some (buf', p', [] @ selected pat inp)"
    using grep_lines_spec [OF b assms(2)] by blast
  then show ?thesis using False assms(1) by (auto simp: grep_def Let_def)
qed

theorem grep_selects_witness:
  "grep (bytes_of ''a.c'') [bytes_of ''abc'' @ [10] @ bytes_of ''xyz'' @ [10] @ bytes_of ''aac''] = Ret (bytes_of ''abc'' @ [10]) ()"
proof -
  let ?inp = "bytes_of ''abc'' @ [10] @ bytes_of ''xyz'' @ [10] @ bytes_of ''aac''"
  have "grep (bytes_of ''a.c'') [?inp] = Ret (selected (bytes_of ''a.c'') ?inp) ()"
    by (rule grep_selects) (simp_all add: GREPBUF_def bytes_of_def)
  moreover have "selected (bytes_of ''a.c'') ?inp = bytes_of ''abc'' @ [10]" by code_simp
  ultimately show ?thesis by simp
qed

lemma grep_lines_step:
  assumes "drop p buf = l @ 10 # r" and "0 \<notin> set l" and "10 \<notin> set l"
  shows "grep_lines pat buf p out =
    (if grep_match pat l then grep_lines pat buf (p + length l + 1) (out @ l @ [10])
     else grep_lines pat (buf[p + length l := 0]) (p + length l + 1) out)"
  using assms by (subst grep_lines.simps) (simp add: strchr_line)

lemma grep_lines_stop: "drop p buf = 0 # zs \<Longrightarrow> grep_lines pat buf p out = Some (buf, p, out)"
  by (subst grep_lines.simps) simp

text \<open>The second read when the first line matched: behind the new line the rest of the old one is found as a line of its own.\<close>

lemma grep_lines_stale:
  assumes "buf = l @ 10 # l' @ 10 # 0 # zs" and "{0, 10} \<inter> (set l \<union> set l') = {}"
  shows "\<exists>buf'. grep_lines pat buf 0 out = Some (buf', length l + length l' + 2, out @ selected pat (l @ 10 # l' @ [10]))"
proof -
  let ?b = "if grep_match pat l then buf else buf[length l := 0]"
  let ?b' = "if grep_match pat l' then ?b else ?b[length l + 1 + length l' := 0]"
  have d: "drop (length l + 1) ?b = l' @ 10 # 0 # zs" using assms(1) by (simp add: drop_update_cancel)
  have "drop (Suc (length l')) (drop (length l + 1) ?b) = 0 # zs" using d by simp
  then have "drop (length l + 1 + length l' + 1) ?b = 0 # zs" by (simp add: add.commute add.left_commute)
  then have d': "drop (length l + 1 + length l' + 1) ?b' = 0 # zs" by (simp add: drop_update_cancel)
  have "grep_lines pat buf 0 out = grep_lines pat ?b (length l + 1) (out @ (if grep_match pat l then l @ [10] else []))"
    using assms grep_lines_step [of 0 buf l] by auto
  also have "\<dots> = grep_lines pat ?b' (length l + 1 + length l' + 1)
      ((out @ (if grep_match pat l then l @ [10] else [])) @ (if grep_match pat l' then l' @ [10] else []))"
    using assms(2) grep_lines_step [OF d] by auto
  also have "\<dots> = Some (?b', length l + 1 + length l' + 1,
      (out @ (if grep_match pat l then l @ [10] else [])) @ (if grep_match pat l' then l' @ [10] else []))"
    by (rule grep_lines_stop [OF d'])
  finally show ?thesis using assms(2) selected_Cons [of l' pat "[]"] selected_Cons [of l pat "l' @ [10]"]
    by (simp add: selected_def complete_lines_def)
qed

text \<open>C38: the buffer is not ended by a zero after a read.  Two lines without zeros arrive in two reads, the first one matches and
  the second one is shorter.  Then \<open>grep\<close> behaves as if the rest of the first line, which is still in the buffer, were a
  third line of the input, and any further read stores in front of the buffer.\<close>

theorem grep_stale_line:
  assumes "{0, 10} \<inter> (set l1 \<union> set l2) = {}" and "length l2 < length l1" and "length l1 + 1 < GREPBUF" and "grep_match pat l1"
  shows "grep pat [l1 @ [10], l2 @ [10]] = Ret (selected pat (l1 @ 10 # l2 @ 10 # drop (length l2 + 1) l1 @ [10])) () \<and>
    (r \<noteq> [] \<longrightarrow> grep pat [l1 @ [10], l2 @ [10], r] = Panic ''store in front of buf'')"
proof -
  let ?z = "replicate (GREPBUF - (length l1 + 2)) (0 :: byte)" and ?l' = "drop (length l2 + 1) l1"
  have "GREPBUF = Suc (length l1) + Suc (GREPBUF - (length l1 + 2))" using assms(3) by simp
  then have "replicate GREPBUF (0 :: byte) = replicate (Suc (length l1)) 0 @ 0 # ?z" by (metis replicate_Suc replicate_add)
  then have b1: "put_at (replicate GREPBUF 0) 0 (l1 @ [10]) = l1 @ 10 # 0 # ?z" by (simp add: put_at_def)
  have b2: "put_at (l1 @ 10 # 0 # ?z) 0 (l2 @ [10]) = l2 @ 10 # ?l' @ 10 # 0 # ?z" using assms(2) by (simp add: put_at_def)
  have g1: "grep_lines pat (l1 @ 10 # 0 # ?z) 0 [] = Some (l1 @ 10 # 0 # ?z, length l1 + 1, l1 @ [10])"
    using assms(1,4) grep_lines_step [of 0 "l1 @ 10 # 0 # ?z" l1 "0 # ?z" pat "[]"] by (simp add: grep_lines_stop)
  have "set ?l' \<subseteq> set l1" by (rule set_drop_subset)
  then have "{0, 10} \<inter> (set l2 \<union> set ?l') = {}" using assms(1) by blast
  from grep_lines_stale [OF refl this] obtain buf' where
    g2: "grep_lines pat (l2 @ 10 # ?l' @ 10 # 0 # ?z) 0 (l1 @ [10]) =
      Some (buf', length l2 + length ?l' + 2, (l1 @ [10]) @ selected pat (l2 @ 10 # ?l' @ [10]))" by metis
  have s: "selected pat (l1 @ 10 # l2 @ 10 # ?l' @ [10]) = (l1 @ [10]) @ selected pat (l2 @ 10 # ?l' @ [10])"
    using assms(1,4) by (simp add: selected_Cons)
  have "grep_loop pat ([l1 @ [10], l2 @ [10]] @ rs) (replicate GREPBUF 0) 0 [] =
      grep_loop pat rs (put_at buf' 0 []) (int (length l2) - int (length l1)) (selected pat (l1 @ 10 # l2 @ 10 # ?l' @ [10]))" for rs
    using b1 b2 g1 g2 s assms(2,3) by (simp add: put_at_def [of _ 0 "[]"] of_nat_diff)
  from this [of "[]"] this [of "[r]"] show ?thesis using assms(2,3) by (simp add: grep_def)
qed

theorem grep_stale_line_witness:
  "grep (bytes_of ''o'') [bytes_of ''hello world'' @ [10], bytes_of ''hi'' @ [10]] =
     Ret (bytes_of ''hello world'' @ [10] @ bytes_of ''lo world'' @ [10]) () \<and>
   grep (bytes_of ''o'') [bytes_of ''hello world'' @ [10], bytes_of ''hi'' @ [10], bytes_of ''x''] = Panic ''store in front of buf''"
proof -
  let ?o = "bytes_of ''o''" and ?l = "bytes_of ''hello world''" and ?m = "bytes_of ''hi''"
  have "grep_match ?o ?l" by code_simp
  moreover have "{0, 10} \<inter> (set ?l \<union> set ?m) = {}" "length ?m < length ?l" "length ?l + 1 < GREPBUF" by (simp_all add: bytes_of_def GREPBUF_def)
  ultimately have "grep ?o [?l @ [10], ?m @ [10]] = Ret (selected ?o (?l @ 10 # ?m @ 10 # drop (length ?m + 1) ?l @ [10])) () \<and>
    (bytes_of ''x'' \<noteq> [] \<longrightarrow> grep ?o [?l @ [10], ?m @ [10], bytes_of ''x''] = Panic ''store in front of buf'')"
    by (intro grep_stale_line)
  moreover have "selected ?o (?l @ 10 # ?m @ 10 # drop (length ?m + 1) ?l @ [10]) = ?l @ [10] @ bytes_of ''lo world'' @ [10]"
  proof -
    have d: "drop (length ?m + 1) ?l = bytes_of ''lo world''" by (simp add: bytes_of_def)
    have "grep_match ?o ?l" "\<not> grep_match ?o ?m" "grep_match ?o (bytes_of ''lo world'')" by code_simp+
    moreover have "10 \<notin> set ?l" "10 \<notin> set ?m" "10 \<notin> set (bytes_of ''lo world'')" by (simp_all add: bytes_of_def)
    moreover have "selected ?o [] = []" by (simp add: selected_def complete_lines_def)
    ultimately show ?thesis unfolding d by (simp add: selected_Cons)
  qed
  moreover have "bytes_of ''x'' \<noteq> []" by (simp add: bytes_of_def)
  ultimately show ?thesis by simp
qed

section \<open>Properties of wc\<close>

definition words_of :: "byte list \<Rightarrow> byte list list" where
  "words_of inp = filter (\<lambda>w. w \<noteq> []) (split_on wc_blank inp)"

lemma wc_fold:
  "fold wc_char inp s = \<lparr>wc_l = wc_l s + of_nat (length (filter (\<lambda>c. c = 10) inp)),
     wc_w = wc_w s + of_nat (length (words_of inp)) - (if wc_inword s \<and> inp \<noteq> [] \<and> \<not> wc_blank (hd inp) then 1 else 0),
     wc_c = wc_c s + of_nat (length inp),
     wc_inword = (if inp = [] then wc_inword s else \<not> wc_blank (last inp))\<rparr>"
proof (induction inp arbitrary: s)
  case Nil
  then show ?case by (simp add: words_of_def)
next
  case (Cons b inp)
  have w: "length (words_of (b # inp)) = (if wc_blank b then length (words_of inp)
      else if inp \<noteq> [] \<and> \<not> wc_blank (hd inp) then length (words_of inp) else Suc (length (words_of inp)))"
    by (cases inp) (auto simp: words_of_def)
  show ?case unfolding fold_simps Cons.IH w by (auto simp: wc_char_def Let_def)
qed

text \<open>C37: \<open>wc\<close> counts lines, words and characters of the whole input, however it is cut into reads: a word is a longest stretch
  without blanks.  The counters are 32-bit words.\<close>

theorem wc_counts:
  assumes "\<forall>r \<in> set rs. r \<noteq> []"
  shows "wc (map Some rs) name = uprintf (bytes_of ''%d %d %d %s'' @ newline)
    [(of_nat (length (filter (\<lambda>c. c = 10) (concat rs))), []), (of_nat (length (words_of (concat rs))), []),
     (of_nat (length (concat rs)), []), (1, name)]"
proof -
  have "wc_loop (map Some rs) s = Some (fold wc_char (concat rs) s)" for s using assms by (induction rs arbitrary: s) auto
  then show ?thesis by (simp add: wc_def wc_fold)
qed

theorem wc_counts_witness:
  "wc [Some (bytes_of ''two wo''), Some (bytes_of ''rds'' @ [10])] (bytes_of ''f'') = bytes_of ''1 2 10 f'' @ [10]"
proof -
  let ?rs = "[bytes_of ''two wo'', bytes_of ''rds'' @ [10]]"
  have "wc (map Some ?rs) (bytes_of ''f'') = uprintf (bytes_of ''%d %d %d %s'' @ newline)
    [(of_nat (length (filter (\<lambda>c. c = 10) (concat ?rs))), []), (of_nat (length (words_of (concat ?rs))), []),
     (of_nat (length (concat ?rs)), []), (1, bytes_of ''f'')]"
    by (rule wc_counts) (simp add: bytes_of_def)
  moreover have "\<dots> = bytes_of ''1 2 10 f'' @ [10]" by code_simp
  ultimately show ?thesis by simp
qed

end
