(* ===== verification/Shell.thy ===== *)
theory Shell
  imports Sysfile
begin

text \<open>
  The shell \<^verbatim>\<open>src/5/xv6/sh.c\<close>: the parser from \<open>gettoken\<close> to \<open>nulterminate\<close>, and \<open>runcmd\<close>.

  The line is a list of bytes without the terminating zero; \<^verbatim>\<open>es\<close> is its length, and \<^verbatim>\<open>*ps\<close>, the current
  position, is the state that the parsing routines pass on.  A word of a command is the pair of positions
  \<^verbatim>\<open>q\<close>, \<^verbatim>\<open>eq\<close>; the type of commands is generic in what a word is, so \<open>map_cmd (span_text s)\<close> turns a parsed
  command into one with the words themselves.  \<^verbatim>\<open>panic\<close>, which prints a message and ends the child, is \<open>Panic\<close>.

  \<open>parseline\<close>, \<open>parsepipe\<close>, \<open>parseexec\<close> and \<open>parseblock\<close> call each other; their first argument bounds the depth of the
  calls, and \<open>parse_fuel\<close> is shown to be enough for every line.
\<close>

section \<open>Commands\<close>

datatype 'w cmd =
    EXEC "'w list"
  | REDIR "'w cmd" 'w uint nat
  | PIPE "'w cmd" "'w cmd"
  | LIST "'w cmd" "'w cmd"
  | BACK "'w cmd"

definition MAXARGS :: nat where "MAXARGS = 10"

type_synonym span = "nat \<times> nat"

definition span_text :: "byte list \<Rightarrow> span \<Rightarrow> byte list" where
  "span_text s = (\<lambda>(q, eq). take (eq - q) (drop q s))"

section \<open>Tokens\<close>

definition sh_white :: "byte \<Rightarrow> bool" where
  "sh_white c \<longleftrightarrow> strchr (bytes_of '' '' @ [9, 13, 10, 11]) c \<noteq> None"

definition sh_symbol :: "byte \<Rightarrow> bool" where
  "sh_symbol c \<longleftrightarrow> strchr (bytes_of ''<|>&;()'') c \<noteq> None"

definition char_at :: "byte list \<Rightarrow> nat \<Rightarrow> byte" where
  "char_at s p = (if p < length s then s ! p else 0)"

definition skip_white :: "byte list \<Rightarrow> nat \<Rightarrow> nat" where
  "skip_white s p = p + length (takeWhile sh_white (drop p s))"

text \<open>The result is \<^verbatim>\<open>ret\<close>, the word and the new position.\<close>

definition gettoken :: "byte list \<Rightarrow> nat \<Rightarrow> byte \<times> span \<times> nat" where
  "gettoken s p =
     (let q = skip_white s p; c = char_at s q;
          (ret, eq) =
            (if c = 0 then (0, q)
             else if c \<in> set (bytes_of ''|();&<'') then (c, q + 1)
             else if c = 62 then (if char_at s (q + 1) = 62 then (43, q + 2) else (c, q + 1))
             else (97, q + length (takeWhile (\<lambda>c. \<not> sh_white c \<and> \<not> sh_symbol c) (drop q s)))) in
      (ret, (q, eq), skip_white s eq))"

definition peek :: "byte list \<Rightarrow> nat \<Rightarrow> byte list \<Rightarrow> bool \<times> nat" where
  "peek s p toks =
     (let p = skip_white s p; c = char_at s p in (c \<noteq> 0 \<and> strchr toks c \<noteq> None, p))"

lemma skip_white_le: "p \<le> skip_white s p"
  by (simp add: skip_white_def)

lemma skip_white_stop: "skip_white s p < length s \<Longrightarrow> \<not> sh_white (s ! skip_white s p)"
proof -
  assume q: "skip_white s p < length s"
  let ?n = "length (takeWhile sh_white (drop p s))"
  have "?n < length (drop p s)" using q by (auto simp: skip_white_def)
  then have "\<not> sh_white (drop p s ! ?n)" by (rule nth_length_takeWhile)
  then show ?thesis using q by (simp add: skip_white_def)
qed

lemma gettoken_advances: "gettoken s p = (ret, (q, eq), p') \<Longrightarrow> ret \<noteq> 0 \<Longrightarrow> p < p' \<and> p < length s"
proof -
  assume g: "gettoken s p = (ret, (q, eq), p')" "ret \<noteq> 0"
  let ?q = "skip_white s p"
  have q: "?q < length s" using g by (auto simp: gettoken_def Let_def char_at_def split: if_splits)
  then have d: "drop ?q s = s ! ?q # drop (Suc ?q) s" by (simp add: Cons_nth_drop_Suc)
  have c: "char_at s ?q = s ! ?q" using q by (simp add: char_at_def)
  have nw: "\<not> sh_white (s ! ?q)" using q by (rule skip_white_stop)
  have "?q < eq"
  proof (cases "sh_symbol (s ! ?q)")
    case True
    then have "s ! ?q \<in> set (bytes_of ''|();&<'') \<or> s ! ?q = 62" by (auto simp: sh_symbol_def bytes_of_def split: if_splits)
    then show ?thesis using g c by (auto simp: gettoken_def Let_def split: if_splits)
  next
    case False
    then show ?thesis using g c d nw by (auto simp: gettoken_def Let_def split: if_splits)
  qed
  moreover have "p' = skip_white s eq" using g by (auto simp: gettoken_def Let_def split: if_splits)
  ultimately show ?thesis using skip_white_le [of eq s] skip_white_le [of p s] q by simp
qed

lemma peek_le: "peek s p toks = (b, p') \<Longrightarrow> p \<le> p'"
  using skip_white_le [of p s] by (auto simp: peek_def Let_def)

lemma peek_True: "peek s p toks = (True, p') \<Longrightarrow> fst (gettoken s p') \<noteq> 0 \<and> p' < length s"
proof -
  assume "peek s p toks = (True, p')"
  then have p': "p' = skip_white s p" "char_at s p' \<noteq> 0" by (auto simp: peek_def Let_def)
  then have l: "p' < length s" by (auto simp: char_at_def split: if_splits)
  have "\<not> sh_white (s ! p')" using skip_white_stop l p'(1) by simp
  then have "skip_white s p' = p'" using l by (simp add: skip_white_def Cons_nth_drop_Suc [symmetric])
  then show ?thesis using p'(2) l by (auto simp: gettoken_def Let_def split: if_splits)
qed

lemma peek_adv: "(b, p') = peek s p toks \<Longrightarrow> p \<le> p' \<and> (b \<longrightarrow> p' < length s \<and> fst (gettoken s p') \<noteq> 0)"
  using peek_le [of s p toks b p'] peek_True [of s p toks p'] by auto

lemma gettoken_adv: "(ret, w, p') = gettoken s p \<Longrightarrow> ret \<noteq> 0 \<Longrightarrow> p < p' \<and> p < length s"
  using gettoken_advances [of s p ret "fst w" "snd w" p'] by simp

lemma peek_gettoken: "(True, p1) = peek s p toks \<Longrightarrow> (ret, w, p2) = gettoken s p1 \<Longrightarrow> p \<le> p1 \<and> p1 < p2 \<and> p1 < length s"
  using peek_adv gettoken_adv by (metis fst_conv)

section \<open>The parser\<close>

definition redir_of :: "byte \<Rightarrow> 'w \<Rightarrow> 'w cmd \<Rightarrow> 'w cmd" where
  "redir_of tok w c =
     (if tok = 60 then REDIR c w O_RDONLY 0
      else if tok = 62 then REDIR c w (O_WRONLY OR O_CREATE) 1
      else if tok = 43 then REDIR c w (O_WRONLY OR O_CREATE) 1
      else c)"

function parseredirs :: "byte list \<Rightarrow> span cmd \<Rightarrow> nat \<Rightarrow> (span cmd, nat) outcome" where
  "parseredirs s c p =
     (case peek s p (bytes_of ''<>'') of (again, p) \<Rightarrow>
      if \<not> again then Ret c p
      else
        case gettoken s p of (tok, _, p) \<Rightarrow>
        case gettoken s p of (ret, w, p) \<Rightarrow>
        if ret \<noteq> 97 then Panic ''missing file for redirection''
        else parseredirs s (redir_of tok w c) p)"
  by pat_completeness auto
termination
  by (relation "measure (\<lambda>(s, c, p). length s - p)") (fastforce dest: peek_gettoken gettoken_adv)+

declare parseredirs.simps [simp del]

text \<open>\<open>parseexec\<close> fills in the arguments of the command after it has been wrapped into redirections, so the words and the
  redirections are collected apart: \<open>argv\<close> and the commands around the empty one.\<close>

fun set_argv :: "'w list \<Rightarrow> 'w cmd \<Rightarrow> 'w cmd" where
  "set_argv argv (EXEC _) = EXEC argv"
| "set_argv argv (REDIR c w m fd) = REDIR (set_argv argv c) w m fd"
| "set_argv argv c = c"

lemma parseredirs_le: "parseredirs s c p = Ret c' p' \<Longrightarrow> p \<le> p'"
proof (induction s c p rule: parseredirs.induct)
  case (1 s c p)
  obtain again p1 where k: "peek s p (bytes_of ''<>'') = (again, p1)" by fastforce
  obtain tok w1 p2 where g1: "gettoken s p1 = (tok, w1, p2)" by (metis prod_cases3)
  obtain ret w p3 where g2: "gettoken s p2 = (ret, w, p3)" by (metis prod_cases3)
  show ?case
  proof (cases again)
    case False
    then show ?thesis using 1(2) k peek_le [OF k] by (subst (asm) parseredirs.simps) simp
  next
    case True
    have r: "ret = 97" using 1(2) k g1 g2 True by (subst (asm) parseredirs.simps) (auto split: if_splits)
    then have "parseredirs s (redir_of tok w c) p3 = Ret c' p'" using 1(2) k g1 g2 True by (subst (asm) parseredirs.simps) simp
    then have "p3 \<le> p'" using 1(1) k g1 g2 True r by auto
    moreover have "p \<le> p1" using k by (rule peek_le)
    moreover have "p1 < p2" using peek_True [of s p _ p1] k True g1 gettoken_advances [of s p1 tok "fst w1" "snd w1" p2] by auto
    moreover have "p2 < p3" using g2 r gettoken_advances [of s p2 ret "fst w" "snd w" p3] by auto
    ultimately show ?thesis by simp
  qed
qed

function parseargs :: "byte list \<Rightarrow> span list \<Rightarrow> span cmd \<Rightarrow> nat \<Rightarrow> (span cmd, nat) outcome" where
  "parseargs s argv c p =
     (case peek s p (bytes_of ''|)&;'') of (stop, p) \<Rightarrow>
      if stop then Ret (set_argv argv c) p
      else
        case gettoken s p of (tok, w, p) \<Rightarrow>
        if tok = 0 then Ret (set_argv argv c) p
        else if tok \<noteq> 97 then Panic ''syntax''
        else if length argv + 1 \<ge> MAXARGS then Panic ''too many args''
        else and_then (parseredirs s c p) (\<lambda>c p. parseargs s (argv @ [w]) c p))"
  by pat_completeness auto
termination
  by (relation "measure (\<lambda>(s, argv, c, p). length s - p)") (fastforce dest: peek_adv gettoken_adv parseredirs_le)+

declare parseargs.simps [simp del]

function parsebacks :: "byte list \<Rightarrow> span cmd \<Rightarrow> nat \<Rightarrow> span cmd \<times> nat" where
  "parsebacks s c p =
     (case peek s p (bytes_of ''&'') of (again, p) \<Rightarrow>
      if again then (case gettoken s p of (_, _, p) \<Rightarrow> parsebacks s (BACK c) p) else (c, p))"
  by pat_completeness auto
termination
  by (relation "measure (\<lambda>(s, c, p). length s - p)") (fastforce dest: peek_gettoken)+

declare parsebacks.simps [simp del]

fun parseline :: "nat \<Rightarrow> byte list \<Rightarrow> nat \<Rightarrow> (span cmd, nat) outcome"
  and parsepipe :: "nat \<Rightarrow> byte list \<Rightarrow> nat \<Rightarrow> (span cmd, nat) outcome"
  and parseblock :: "nat \<Rightarrow> byte list \<Rightarrow> nat \<Rightarrow> (span cmd, nat) outcome"
  and parseexec :: "nat \<Rightarrow> byte list \<Rightarrow> nat \<Rightarrow> (span cmd, nat) outcome" where
  "parseline 0 s p = Diverges"
| "parseline (Suc n) s p =
     and_then (parsepipe n s p) (\<lambda>c p.
     case parsebacks s c p of (c, p) \<Rightarrow>
     case peek s p (bytes_of '';'') of (again, p) \<Rightarrow>
     if again then
       case gettoken s p of (_, _, p) \<Rightarrow> and_then (parseline n s p) (\<lambda>r p. Ret (LIST c r) p)
     else Ret c p)"
| "parsepipe 0 s p = Diverges"
| "parsepipe (Suc n) s p =
     and_then (parseexec n s p) (\<lambda>c p.
     case peek s p (bytes_of ''|'') of (again, p) \<Rightarrow>
     if again then
       case gettoken s p of (_, _, p) \<Rightarrow> and_then (parsepipe n s p) (\<lambda>r p. Ret (PIPE c r) p)
     else Ret c p)"
| "parseblock 0 s p = Diverges"
| "parseblock (Suc n) s p =
     (case peek s p (bytes_of ''('') of (here, p) \<Rightarrow>
      if \<not> here then Panic ''parseblock''
      else
        case gettoken s p of (_, _, p) \<Rightarrow>
        and_then (parseline n s p) (\<lambda>c p.
        case peek s p (bytes_of '')'') of (closed, p) \<Rightarrow>
        if \<not> closed then Panic ''syntax - missing )''
        else case gettoken s p of (_, _, p) \<Rightarrow> parseredirs s c p))"
| "parseexec 0 s p = Diverges"
| "parseexec (Suc n) s p =
     (case peek s p (bytes_of ''('') of (block, p) \<Rightarrow>
      if block then parseblock n s p
      else and_then (parseredirs s (EXEC []) p) (\<lambda>c p. parseargs s [] c p))"

definition parse_fuel :: "byte list \<Rightarrow> nat" where
  "parse_fuel s = 4 * length s + 4"

section \<open>Terminating the words\<close>

primrec nulterminate :: "span cmd \<Rightarrow> byte list \<Rightarrow> byte list" where
  "nulterminate (EXEC argv) buf = fold (\<lambda>(q, eq) buf. buf[eq := 0]) argv buf"
| "nulterminate (REDIR c w m fd) buf = (nulterminate c buf)[snd w := 0]"
| "nulterminate (PIPE a b) buf = nulterminate b (nulterminate a buf)"
| "nulterminate (LIST a b) buf = nulterminate b (nulterminate a buf)"
| "nulterminate (BACK c) buf = nulterminate c buf"

text \<open>The result is the command and the line with its words terminated.\<close>

definition parsecmd :: "byte list \<Rightarrow> (span cmd, byte list) outcome" where
  "parsecmd s =
     (case parseline (parse_fuel s) s 0 of
        Ret c p \<Rightarrow> if snd (peek s p []) \<noteq> length s then Panic ''syntax'' else Ret c (nulterminate c (s @ [0]))
      | Panic m \<Rightarrow> Panic m
      | Sleep ch p \<Rightarrow> Sleep ch (s @ [0])
      | Diverges \<Rightarrow> Diverges)"

section \<open>The parser returns\<close>

text \<open>\<open>halts m Q\<close>: the routine returns with a result that satisfies \<open>Q\<close> or ends with an error message.\<close>

definition halts :: "('a, 's) outcome \<Rightarrow> ('a \<Rightarrow> 's \<Rightarrow> bool) \<Rightarrow> bool" where
  "halts m Q \<longleftrightarrow> (case m of Ret x s \<Rightarrow> Q x s | Panic _ \<Rightarrow> True | Sleep _ _ \<Rightarrow> False | Diverges \<Rightarrow> False)"

lemma halts_simps [simp]:
  "halts (Ret x s) Q \<longleftrightarrow> Q x s"
  "halts (Panic msg) Q"
  "halts (and_then m f) Q \<longleftrightarrow> halts m (\<lambda>x s. halts (f x s) Q)"
  by (simp_all add: halts_def split: outcome.split)

lemma halts_mono: "halts m Q \<Longrightarrow> (\<And>x s. m = Ret x s \<Longrightarrow> Q x s \<Longrightarrow> R x s) \<Longrightarrow> halts m R"
  by (auto simp: halts_def split: outcome.splits)

lemma halts_from: "halts m (\<lambda>c p'. p1 \<le> p') \<Longrightarrow> p \<le> p1 \<Longrightarrow> halts m (\<lambda>c p'. p \<le> (p' :: nat))"
  by (rule halts_mono) auto

lemma parseredirs_total: "halts (parseredirs s c p) (\<lambda>c p'. True)"
proof (induction s c p rule: parseredirs.induct)
  case (1 s c p)
  then show ?case by (subst parseredirs.simps) (auto split: prod.splits)
qed

lemma parseargs_total: "halts (parseargs s argv c p) (\<lambda>c p'. True)"
proof (induction s argv c p rule: parseargs.induct)
  case (1 s argv c p)
  have "halts (and_then (parseredirs s c p2) f) (\<lambda>c p'. True)"
    if "\<And>c' p3. parseredirs s c p2 = Ret c' p3 \<Longrightarrow> halts (f c' p3) (\<lambda>c p'. True)" for p2 and f :: "span cmd \<Rightarrow> nat \<Rightarrow> (span cmd, nat) outcome"
    using halts_mono [OF parseredirs_total that] by simp
  then show ?case using 1 by (subst parseargs.simps) (auto split: prod.splits)
qed

lemma gettoken_le: "gettoken s p = (ret, w, p') \<Longrightarrow> p \<le> p'"
proof (cases "ret = 0")
  case True
  moreover assume "gettoken s p = (ret, w, p')"
  ultimately show ?thesis using skip_white_le [of p s] skip_white_le [of "skip_white s p" s]
    by (auto simp: gettoken_def Let_def split: if_splits)
next
  case False
  moreover assume "gettoken s p = (ret, w, p')"
  ultimately show ?thesis using gettoken_adv [of ret w p' s p] by simp
qed

lemmas le_rules = peek_le gettoken_le parseredirs_le

lemma parseargs_le: "parseargs s argv c p = Ret c' p' \<Longrightarrow> p \<le> p'"
proof (induction s argv c p rule: parseargs.induct)
  case (1 s argv c p)
  show ?case using 1 by (subst (asm) (2) parseargs.simps)
    (fastforce simp: and_then_eq_Ret split: prod.splits if_splits dest: le_rules)
qed

lemma parsebacks_le: "parsebacks s c p = (c', p') \<Longrightarrow> p \<le> p'"
proof (induction s c p rule: parsebacks.induct)
  case (1 s c p)
  show ?case using 1 by (subst (asm) (2) parsebacks.simps) (fastforce split: prod.splits if_splits dest: le_rules)
qed

lemma halts_redirs: "p \<le> p1 \<Longrightarrow> halts (parseredirs s c p1) (\<lambda>c p'. p \<le> p')"
  by (rule halts_mono [OF parseredirs_total]) (auto dest: parseredirs_le)

lemma halts_args: "p \<le> p1 \<Longrightarrow> halts (parseargs s argv c p1) (\<lambda>c p'. p \<le> p')"
  by (rule halts_mono [OF parseargs_total]) (auto dest: parseargs_le)

lemma parseline_halts:
  assumes "halts (parsepipe n s p) (\<lambda>c p'. p \<le> p')"
    and "\<And>p'. p < p' \<Longrightarrow> p < length s \<Longrightarrow> halts (parseline n s p') (\<lambda>c q. p' \<le> q)"
  shows "halts (parseline (Suc n) s p) (\<lambda>c p'. p \<le> p')"
  using assms(1) unfolding parseline.simps halts_simps
proof (rule halts_mono)
  fix c1 p1
  assume p1: "p \<le> p1"
  obtain c2 p2 where b: "parsebacks s c1 p1 = (c2, p2)" by fastforce
  obtain again p3 where k: "peek s p2 (bytes_of '';'') = (again, p3)" by fastforce
  obtain tok w p4 where g: "gettoken s p3 = (tok, w, p4)" by (metis prod.collapse)
  have p3: "p \<le> p3" using p1 parsebacks_le [OF b] peek_le [OF k] by simp
  have "p3 < p4 \<and> p3 < length s" if again using peek_gettoken [of p3 s p2 "bytes_of '';''" tok w p4] k g that by auto
  then have "halts (parseline n s p4) (\<lambda>c q. p \<le> q)" if again using that p3 by (intro halts_from [OF assms(2)]) auto
  then show "halts (case parsebacks s c1 p1 of (c, p) \<Rightarrow> case peek s p (bytes_of '';'') of (again, p) \<Rightarrow>
      if again then case gettoken s p of (_, _, p) \<Rightarrow> and_then (parseline n s p) (\<lambda>r p. Ret (LIST c r) p) else Ret c p)
      (\<lambda>c p'. p \<le> p')" using p3 by (simp add: b k g)
qed

lemma parsepipe_halts:
  assumes "halts (parseexec n s p) (\<lambda>c p'. p \<le> p')"
    and "\<And>p'. p < p' \<Longrightarrow> p < length s \<Longrightarrow> halts (parsepipe n s p') (\<lambda>c q. p' \<le> q)"
  shows "halts (parsepipe (Suc n) s p) (\<lambda>c p'. p \<le> p')"
  using assms(1) unfolding parsepipe.simps halts_simps
proof (rule halts_mono)
  fix c1 p1
  assume p1: "p \<le> p1"
  obtain again p3 where k: "peek s p1 (bytes_of ''|'') = (again, p3)" by fastforce
  obtain tok w p4 where g: "gettoken s p3 = (tok, w, p4)" by (metis prod.collapse)
  have p3: "p \<le> p3" using p1 peek_le [OF k] by simp
  have "p3 < p4 \<and> p3 < length s" if again using peek_gettoken [of p3 s p1 "bytes_of ''|''" tok w p4] k g that by auto
  then have "halts (parsepipe n s p4) (\<lambda>c q. p \<le> q)" if again using that p3 by (intro halts_from [OF assms(2)]) auto
  then show "halts (case peek s p1 (bytes_of ''|'') of (again, p) \<Rightarrow>
      if again then case gettoken s p of (_, _, p) \<Rightarrow> and_then (parsepipe n s p) (\<lambda>r p. Ret (PIPE c1 r) p) else Ret c1 p)
      (\<lambda>c p'. p \<le> p')" using p3 by (simp add: k g)
qed

lemma parseblock_halts:
  assumes "\<And>p'. p < p' \<Longrightarrow> p < length s \<Longrightarrow> halts (parseline n s p') (\<lambda>c q. p' \<le> q)"
  shows "halts (parseblock (Suc n) s p) (\<lambda>c p'. p \<le> p')"
proof -
  obtain here p1 where k: "peek s p (bytes_of ''('') = (here, p1)" by fastforce
  obtain tok w p2 where g: "gettoken s p1 = (tok, w, p2)" by (metis prod.collapse)
  have "halts (parseline n s p2) (\<lambda>c p'. halts (case peek s p' (bytes_of '')'') of (closed, p) \<Rightarrow>
      if \<not> closed then Panic ''syntax - missing )'' else case gettoken s p of (_, _, p) \<Rightarrow> parseredirs s c p) (\<lambda>c p'. p \<le> p'))" if here
  proof (rule halts_mono)
    show "halts (parseline n s p2) (\<lambda>c q. p2 \<le> q)"
      using peek_gettoken [of p1 s p "bytes_of ''(''" tok w p2] k g that by (intro assms) auto
    fix c p'
    assume "p2 \<le> p'"
    moreover obtain closed p3 where k': "peek s p' (bytes_of '')'') = (closed, p3)" by fastforce
    moreover obtain tok' w' p4 where g': "gettoken s p3 = (tok', w', p4)" by (metis prod.collapse)
    ultimately have "p \<le> p4" using le_rules(1) [OF k] le_rules(2) [OF g] le_rules(1) [OF k'] le_rules(2) [OF g'] by simp
    then show "halts (case peek s p' (bytes_of '')'') of (closed, p) \<Rightarrow>
      if \<not> closed then Panic ''syntax - missing )'' else case gettoken s p of (_, _, p) \<Rightarrow> parseredirs s c p) (\<lambda>c p'. p \<le> p')"
      by (simp add: k' g' halts_redirs)
  qed
  then show ?thesis by (simp add: k g)
qed

lemma parseexec_halts:
  assumes "\<And>p'. p \<le> p' \<Longrightarrow> halts (parseblock n s p') (\<lambda>c q. p' \<le> q)"
  shows "halts (parseexec (Suc n) s p) (\<lambda>c p'. p \<le> p')"
proof -
  obtain blk p1 where k: "peek s p (bytes_of ''('') = (blk, p1)" by fastforce
  have "halts (parseblock n s p1) (\<lambda>c p'. p \<le> p')" using peek_le [OF k] by (intro halts_from [OF assms])
  moreover have "halts (parseredirs s (EXEC []) p1) (\<lambda>c p'. halts (parseargs s [] c p') (\<lambda>c p'. p \<le> p'))"
    by (rule halts_mono [OF halts_redirs [OF peek_le [OF k]]]) (rule halts_args)
  ultimately show ?thesis by (simp add: k)
qed

lemma parse_halts:
  "(4 * (length s - p) + 4 \<le> n \<longrightarrow> halts (parseline n s p) (\<lambda>c p'. p \<le> p')) \<and>
   (4 * (length s - p) + 3 \<le> n \<longrightarrow> halts (parsepipe n s p) (\<lambda>c p'. p \<le> p')) \<and>
   (4 * (length s - p) + 1 \<le> n \<longrightarrow> halts (parseblock n s p) (\<lambda>c p'. p \<le> p')) \<and>
   (4 * (length s - p) + 2 \<le> n \<longrightarrow> halts (parseexec n s p) (\<lambda>c p'. p \<le> p'))"
proof (induction n arbitrary: p)
  case (Suc n)
  have "halts (parseline (Suc n) s p) (\<lambda>c p'. p \<le> p')" if "4 * (length s - p) + 4 \<le> Suc n"
  proof (rule parseline_halts)
    fix p' assume "p < p'" "p < length s"
    then show "halts (parseline n s p') (\<lambda>c q. p' \<le> q)" using Suc.IH [of p'] that by auto
  qed (use Suc.IH [of p] that in auto)
  moreover have "halts (parsepipe (Suc n) s p) (\<lambda>c p'. p \<le> p')" if "4 * (length s - p) + 3 \<le> Suc n"
  proof (rule parsepipe_halts)
    fix p' assume "p < p'" "p < length s"
    then show "halts (parsepipe n s p') (\<lambda>c q. p' \<le> q)" using Suc.IH [of p'] that by auto
  qed (use Suc.IH [of p] that in auto)
  moreover have "halts (parseblock (Suc n) s p) (\<lambda>c p'. p \<le> p')" if "4 * (length s - p) + 1 \<le> Suc n"
  proof (rule parseblock_halts)
    fix p' assume "p < p'" "p < length s"
    then show "halts (parseline n s p') (\<lambda>c q. p' \<le> q)" using Suc.IH [of p'] that by auto
  qed
  moreover have "halts (parseexec (Suc n) s p) (\<lambda>c p'. p \<le> p')" if "4 * (length s - p) + 2 \<le> Suc n"
  proof (rule parseexec_halts)
    fix p' assume "p \<le> p'"
    then show "halts (parseblock n s p') (\<lambda>c q. p' \<le> q)" using Suc.IH [of p'] that by auto
  qed
  ultimately show ?case by blast
qed simp

lemma parsecmd_halts: "halts (parseline (parse_fuel s) s 0) (\<lambda>c p. True)"
  using parse_halts [of s 0 "parse_fuel s"] by (simp add: parse_fuel_def)

section \<open>Printing a command\<close>

text \<open>A text of tokens has a blank after each of them.\<close>

definition show_tokens :: "byte list list \<Rightarrow> byte list" where
  "show_tokens ts = concat (map (\<lambda>t. t @ [32]) ts)"

definition word_tok :: "byte list \<Rightarrow> bool" where
  "word_tok t \<longleftrightarrow> t \<noteq> [] \<and> (\<forall>c \<in> set t. c \<noteq> 0 \<and> \<not> sh_white c \<and> \<not> sh_symbol c)"

definition sym_tok :: "byte list \<Rightarrow> bool" where
  "sym_tok t \<longleftrightarrow> length t = 1 \<and> sh_symbol (hd t)"

definition tok_kind :: "byte list \<Rightarrow> byte" where
  "tok_kind t = (if word_tok t then 97 else hd t)"

text \<open>The printer knows four levels: 0 a line, 1 a command with ampersands, 2 a pipeline, 3 a single command; what does not
  fit the level is put in parentheses.\<close>

definition in_parens :: "bool \<Rightarrow> byte list list \<Rightarrow> byte list list" where
  "in_parens b ts = (if b then [40] # ts @ [[41]] else ts)"

primrec cmd_tokens :: "nat \<Rightarrow> byte list cmd \<Rightarrow> byte list list" where
  "cmd_tokens k (EXEC argv) = argv"
| "cmd_tokens k (REDIR c w m fd) = cmd_tokens 3 c @ [[if fd = 0 then 60 else 62], w]"
| "cmd_tokens k (PIPE a b) = in_parens (2 < k) (cmd_tokens 3 a @ [124] # cmd_tokens 2 b)"
| "cmd_tokens k (LIST a b) = in_parens (0 < k) (cmd_tokens 1 a @ [59] # cmd_tokens 0 b)"
| "cmd_tokens k (BACK c) = in_parens (1 < k) (cmd_tokens 1 c @ [[38]])"

definition show_cmd :: "byte list cmd \<Rightarrow> byte list" where
  "show_cmd c = show_tokens (cmd_tokens 0 c)"

primrec cmd_ok :: "byte list cmd \<Rightarrow> bool" where
  "cmd_ok (EXEC argv) \<longleftrightarrow> length argv < MAXARGS \<and> (\<forall>w \<in> set argv. word_tok w)"
| "cmd_ok (REDIR c w m fd) \<longleftrightarrow> cmd_ok c \<and> word_tok w \<and> ((m, fd) = (O_RDONLY, 0) \<or> (m, fd) = (O_WRONLY OR O_CREATE, 1))"
| "cmd_ok (PIPE a b) \<longleftrightarrow> cmd_ok a \<and> cmd_ok b"
| "cmd_ok (LIST a b) \<longleftrightarrow> cmd_ok a \<and> cmd_ok b"
| "cmd_ok (BACK c) \<longleftrightarrow> cmd_ok c"

section \<open>Standing in front of tokens\<close>

definition stands :: "byte list \<Rightarrow> nat \<Rightarrow> byte list list \<Rightarrow> bool" where
  "stands s p ts \<longleftrightarrow> p \<le> length s \<and> drop p s = show_tokens ts \<and> (\<forall>t \<in> set ts. word_tok t \<or> sym_tok t)"

lemma drop_plus: "drop p s = t @ u \<Longrightarrow> drop (p + length t) s = u"
  by (metis add.commute append_eq_conv_conj drop_drop)

lemma char_at_drop: "drop p s = c # u \<Longrightarrow> char_at s p = c"
  by (metis char_at_def drop_eq_Nil hd_drop_conv_nth linorder_not_less list.distinct(1) list.sel(1))

lemma sh_symbol_iff: "sh_symbol c \<longleftrightarrow> c \<in> {60, 124, 62, 38, 59, 40, 41}"
  by (simp add: sh_symbol_def bytes_of_def)

lemma sh_white_iff: "sh_white c \<longleftrightarrow> c \<in> {32, 9, 13, 10, 11}"
  by (simp add: sh_white_def bytes_of_def)

lemma tok_start: "word_tok t \<or> sym_tok t \<Longrightarrow> t \<noteq> [] \<and> \<not> sh_white (hd t) \<and> hd t \<noteq> 0"
  by (cases t) (auto simp: word_tok_def sym_tok_def sh_white_iff sh_symbol_iff)

lemma white_stop: "\<forall>t \<in> set ts. word_tok t \<or> sym_tok t \<Longrightarrow> takeWhile sh_white (show_tokens ts) = []"
proof (cases ts)
  case (Cons t us)
  assume "\<forall>t \<in> set ts. word_tok t \<or> sym_tok t"
  then show ?thesis using Cons tok_start [of t] by (cases t) (auto simp: show_tokens_def)
qed (simp add: show_tokens_def)

lemma stands_skip: "stands s p ts \<Longrightarrow> skip_white s p = p"
  by (simp add: stands_def skip_white_def white_stop)

lemma stands_next: "stands s p (t # ts) \<Longrightarrow> stands s (p + length t + 1) ts"
proof -
  assume a: "stands s p (t # ts)"
  then have d: "drop p s = (t @ [32]) @ show_tokens ts" by (simp add: stands_def show_tokens_def)
  have "length s - p = length t + 1 + length (show_tokens ts)" using arg_cong [OF d, of length] by simp
  then have "p + (length t + 1) \<le> length s" by simp
  then show ?thesis using a drop_plus [OF d] by (simp add: stands_def)
qed

lemma stands_after: "stands s p (t # ts) \<Longrightarrow> skip_white s (p + length t) = p + length t + 1"
proof -
  assume a: "stands s p (t # ts)"
  then have "drop p s = t @ 32 # show_tokens ts" by (simp add: stands_def show_tokens_def)
  then have "drop (p + length t) s = 32 # show_tokens ts" by (rule drop_plus)
  then show ?thesis using a white_stop [of ts] by (simp add: skip_white_def sh_white_iff stands_def)
qed

lemma stands_char: "stands s p (t # ts) \<Longrightarrow> char_at s p = hd t"
proof -
  assume a: "stands s p (t # ts)"
  then have "t \<noteq> []" using tok_start by (auto simp: stands_def)
  then have "drop p s = hd t # (tl t @ 32 # show_tokens ts)" using a by (simp add: stands_def show_tokens_def)
  then show ?thesis by (rule char_at_drop)
qed

lemma stands_Nil: "stands s p [] \<Longrightarrow> p = length s"
  by (simp add: stands_def show_tokens_def)

lemma peek_stands: "stands s p ts \<Longrightarrow> peek s p toks = (ts \<noteq> [] \<and> strchr toks (hd (hd ts)) \<noteq> None, p)"
proof (cases ts)
  case Nil
  assume a: "stands s p ts"
  then have "p = length s" using Nil stands_Nil by simp
  then show ?thesis using a Nil by (simp add: peek_def Let_def stands_skip char_at_def)
next
  case (Cons t us)
  assume a: "stands s p ts"
  then have "hd t \<noteq> 0" using tok_start [of t] Cons by (auto simp: stands_def)
  then show ?thesis using a stands_skip [OF a] Cons stands_char [of s p t us] by (simp add: peek_def Let_def)
qed

lemma gettoken_stands:
  assumes a: "stands s p (t # ts)"
  shows "gettoken s p = (tok_kind t, (p, p + length t), p + length t + 1)"
proof (cases "word_tok t")
  case True
  have "drop p s = t @ 32 # show_tokens ts" using a by (simp add: stands_def show_tokens_def)
  then have w: "takeWhile (\<lambda>c. \<not> sh_white c \<and> \<not> sh_symbol c) (drop p s) = t"
    using True by (simp add: word_tok_def sh_white_iff takeWhile_tail)
  have "hd t \<noteq> 0" "\<not> sh_symbol (hd t)" using True by (auto simp: word_tok_def)
  then show ?thesis using True a w stands_skip [OF a] stands_char [OF a] stands_after [OF a]
    by (auto simp: gettoken_def Let_def tok_kind_def sh_symbol_iff bytes_of_def)
next
  case False
  then obtain c where t: "t = [c]" "sh_symbol c" using a by (cases t) (auto simp: stands_def sym_tok_def)
  have "drop p s = [c] @ 32 # show_tokens ts" using a t by (simp add: stands_def show_tokens_def)
  then have "drop (p + length [c]) s = 32 # show_tokens ts" by (rule drop_plus)
  then have "char_at s (p + 1) = 32" using char_at_drop by fastforce
  then show ?thesis using False t stands_skip [OF a] stands_char [OF a] stands_after [OF a]
    by (auto simp: gettoken_def Let_def tok_kind_def sh_symbol_iff bytes_of_def)
qed

lemma slice_stands: "stands s p (t # ts) \<Longrightarrow> span_text s (p, p + length t) = t"
  by (simp add: span_text_def stands_def show_tokens_def)

lemma stands_less: "stands s p (t # ts) \<Longrightarrow> p < length s"
  using stands_next [of s p t ts] by (auto simp: stands_def)

lemmas stands_simps = peek_stands gettoken_stands slice_stands


section \<open>Reading back a printed command\<close>

text \<open>\<open>got\<close>: the routine returned the command \<open>c\<close> and stands in front of \<open>ts\<close>.\<close>

definition got :: "byte list \<Rightarrow> (span cmd, nat) outcome \<Rightarrow> byte list cmd \<Rightarrow> byte list list \<Rightarrow> bool" where
  "got s r T ts \<longleftrightarrow> (\<exists>c p. r = Ret c p \<and> map_cmd (span_text s) c = T \<and> stands s p ts)"

text \<open>\<open>at_redirs\<close>: the routine has read the command up to a point where redirections may follow.\<close>

definition at_redirs :: "byte list \<Rightarrow> (span cmd, nat) outcome \<Rightarrow> byte list cmd \<Rightarrow> byte list list \<Rightarrow> bool" where
  "at_redirs s r T ts \<longleftrightarrow> (\<exists>c p. stands s p ts \<and>
     ((r = parseredirs s c p \<and> map_cmd (span_text s) c = T) \<or>
      (\<exists>argv. r = and_then (parseredirs s c p) (parseargs s argv) \<and> map_cmd (span_text s) (set_argv argv c) = T)))"

text \<open>What may follow a command of each level.\<close>

definition follow :: "byte list \<Rightarrow> byte list list \<Rightarrow> bool" where
  "follow cs ts \<longleftrightarrow> (case ts of [] \<Rightarrow> True | t # _ \<Rightarrow> t \<in> (\<lambda>c. [c]) ` set cs)"

lemma follow_mono: "follow cs ts \<Longrightarrow> set cs \<subseteq> set ds \<Longrightarrow> follow ds ts"
  by (auto simp: follow_def split: list.splits)

definition reads_exec :: "byte list \<Rightarrow> byte list cmd \<Rightarrow> bool" where
  "reads_exec s T \<longleftrightarrow> (\<forall>p ts n. stands s p (cmd_tokens 3 T @ ts) \<longrightarrow> follow [41, 59, 38, 124, 60, 62] ts \<longrightarrow>
     4 * (length s - p) + 2 \<le> n \<longrightarrow> at_redirs s (parseexec n s p) T ts)"

definition reads_pipe :: "byte list \<Rightarrow> byte list cmd \<Rightarrow> bool" where
  "reads_pipe s T \<longleftrightarrow> (\<forall>p ts n. stands s p (cmd_tokens 2 T @ ts) \<longrightarrow> follow [41, 59, 38] ts \<longrightarrow>
     4 * (length s - p) + 3 \<le> n \<longrightarrow> got s (parsepipe n s p) T ts)"

definition reads_back :: "byte list \<Rightarrow> byte list cmd \<Rightarrow> bool" where
  "reads_back s T \<longleftrightarrow> (\<forall>p ts n. stands s p (cmd_tokens 1 T @ ts) \<longrightarrow> follow [41, 59, 38] ts \<longrightarrow>
     4 * (length s - p) + 3 \<le> n \<longrightarrow>
     (\<exists>c0 p0 c p1. parsepipe n s p = Ret c0 p0 \<and> parsebacks s c0 p0 = parsebacks s c p1 \<and>
        map_cmd (span_text s) c = T \<and> stands s p1 ts))"

definition reads_line :: "byte list \<Rightarrow> byte list cmd \<Rightarrow> bool" where
  "reads_line s T \<longleftrightarrow> (\<forall>p ts n. stands s p (cmd_tokens 0 T @ ts) \<longrightarrow> follow [41] ts \<longrightarrow>
     4 * (length s - p) + 4 \<le> n \<longrightarrow> got s (parseline n s p) T ts)"

lemma map_set_argv: "map_cmd f (set_argv argv c) = set_argv (map f argv) (map_cmd f c)"
  by (induction argv c rule: set_argv.induct) auto

lemma redirs_end: "stands s p ts \<Longrightarrow> follow [41, 59, 38, 124] ts \<Longrightarrow> parseredirs s c p = Ret c p"
  by (subst parseredirs.simps) (auto simp: peek_stands bytes_of_def follow_def split: list.splits)

lemma redirs_one:
  assumes "stands s p ([d] # w # ts)" and "d = 60 \<or> d = 62" and "word_tok w"
  shows "\<exists>q. stands s q ts \<and> parseredirs s c p =
    parseredirs s (REDIR c (p + 2, p + 2 + length w) (if d = 60 then O_RDONLY else O_WRONLY OR O_CREATE) (if d = 60 then 0 else 1)) q \<and>
    span_text s (p + 2, p + 2 + length w) = w"
proof -
  have n: "stands s (p + 2) (w # ts)" using stands_next [OF assms(1)] by simp
  have "\<not> word_tok [d]" using assms(2) by (auto simp: word_tok_def sh_symbol_iff)
  then have g: "gettoken s p = (d, (p, p + 1), p + 2)" using gettoken_stands [OF assms(1)] by (simp add: tok_kind_def)
  have g': "gettoken s (p + 2) = (97, (p + 2, p + 2 + length w), p + 2 + length w + 1)"
    using gettoken_stands [OF n] assms(3) by (simp add: tok_kind_def)
  have "peek s p (bytes_of ''<>'') = (True, p)" using peek_stands [OF assms(1)] assms(2) by (auto simp: bytes_of_def)
  then have "parseredirs s c p = parseredirs s (redir_of d (p + 2, p + 2 + length w) c) (p + 2 + length w + 1)"
    by (subst parseredirs.simps) (simp add: g g' del: add_2_eq_Suc add_2_eq_Suc')
  moreover have "redir_of d v c = REDIR c v (if d = 60 then O_RDONLY else O_WRONLY OR O_CREATE) (if d = 60 then 0 else 1)" for v
    using assms(2) by (auto simp: redir_of_def)
  ultimately show ?thesis using stands_next [OF n] slice_stands [OF n] by auto
qed

lemma at_redirs_one:
  assumes "at_redirs s r T ([d] # w # ts)" and "word_tok w" and "(m, fd, d) = (O_RDONLY, 0, 60) \<or> (m, fd, d) = (O_WRONLY OR O_CREATE, 1, 62)"
  shows "at_redirs s r (REDIR T w m fd) ts"
proof -
  obtain c p where c: "stands s p ([d] # w # ts)"
    "(r = parseredirs s c p \<and> map_cmd (span_text s) c = T) \<or>
      (\<exists>argv. r = and_then (parseredirs s c p) (parseargs s argv) \<and> map_cmd (span_text s) (set_argv argv c) = T)"
    using assms(1) by (auto simp: at_redirs_def)
  have "d = 60 \<or> d = 62" using assms(3) by auto
  then obtain q where q: "stands s q ts" "span_text s (p + 2, p + 2 + length w) = w" "parseredirs s c p = parseredirs s (REDIR c (p + 2, p + 2 + length w) m fd) q"
    using redirs_one [OF c(1) _ assms(2), of c] assms(3) by auto
  show ?thesis unfolding at_redirs_def
    by (rule exI [of _ "REDIR c (p + 2, p + 2 + length w) m fd"], rule exI [of _ q]) (use c(2) q in auto)
qed

lemma args_end:
  assumes "stands s p ts" and "follow [41, 59, 38, 124] ts"
  shows "parseargs s argv c p = Ret (set_argv argv c) p"
proof (cases ts)
  case Nil
  then have "p = length s" "skip_white s p = p" using assms(1) stands_Nil stands_skip by auto
  then have "gettoken s p = (0, (p, p), p)" by (simp add: gettoken_def Let_def char_at_def)
  then show ?thesis using Nil by (subst parseargs.simps) (simp add: peek_stands [OF assms(1)])
next
  case (Cons t us)
  then show ?thesis using assms by (subst parseargs.simps) (auto simp: peek_stands bytes_of_def follow_def)
qed

lemma at_redirs_end:
  assumes "at_redirs s r T ts" and "follow [41, 59, 38, 124] ts"
  shows "got s r T ts"
  using assms(1) by (auto simp: at_redirs_def got_def redirs_end [OF _ assms(2)] args_end [OF _ assms(2)])

lemma args_words:
  assumes "stands s p (ws @ ts)" and "\<forall>w \<in> set ws. word_tok w" and "length argv + length ws < MAXARGS"
    and "map (span_text s) argv @ ws = us"
  shows "at_redirs s (and_then (parseredirs s (EXEC []) p) (parseargs s argv)) (EXEC us) ts"
  using assms
proof (induction ws arbitrary: p argv)
  case Nil
  then show ?case unfolding at_redirs_def
    by (intro exI [of _ "EXEC []"] exI [of _ p] conjI disjI2 exI [of _ argv]) auto
next
  case (Cons w ws)
  have a: "stands s p (w # ws @ ts)" using Cons.prems(1) by simp
  have w: "word_tok w" "hd w \<notin> {60, 124, 62, 38, 59, 40, 41}" using Cons.prems(2) by (auto simp: word_tok_def sh_symbol_iff)
  have "parseredirs s (EXEC []) p = Ret (EXEC []) p" using w(2)
    by (subst parseredirs.simps) (auto simp: peek_stands [OF a] bytes_of_def)
  moreover have "parseargs s argv (EXEC []) p =
      and_then (parseredirs s (EXEC []) (p + length w + 1)) (parseargs s (argv @ [(p, p + length w)]))"
    using w Cons.prems(3) by (subst parseargs.simps) (auto simp: peek_stands [OF a] gettoken_stands [OF a] bytes_of_def tok_kind_def)
  moreover have "at_redirs s (and_then (parseredirs s (EXEC []) (p + length w + 1)) (parseargs s (argv @ [(p, p + length w)]))) (EXEC us) ts"
    using Cons.prems slice_stands [OF a] by (intro Cons.IH stands_next [OF a]) auto
  ultimately show ?case by simp
qed

lemma reads_exec_EXEC: "cmd_ok (EXEC ws) \<Longrightarrow> reads_exec s (EXEC ws)"
  unfolding reads_exec_def
proof (intro allI impI)
  fix p ts n
  assume ok: "cmd_ok (EXEC ws)" and st: "stands s p (cmd_tokens 3 (EXEC ws) @ ts)"
    and f: "follow [41, 59, 38, 124, 60, 62] ts" and n: "4 * (length s - p) + 2 \<le> n"
  have "\<not> (ws @ ts \<noteq> [] \<and> hd (hd (ws @ ts)) = 40)" using ok f
    by (cases ws; cases ts) (auto simp: follow_def word_tok_def sh_symbol_iff)
  then have "peek s p (bytes_of ''('') = (False, p)" using st by (auto simp: peek_stands bytes_of_def)
  moreover obtain k where "n = Suc k" using n by (cases n) auto
  ultimately have "parseexec n s p = and_then (parseredirs s (EXEC []) p) (parseargs s [])" by simp
  then show "at_redirs s (parseexec n s p) (EXEC ws) ts" using ok st by (simp add: args_words)
qed


lemma reads_exec_REDIR:
  assumes "reads_exec s T" and "cmd_ok (REDIR T w m fd)"
  shows "reads_exec s (REDIR T w m fd)"
  unfolding reads_exec_def
proof (intro allI impI)
  fix p ts n
  let ?d = "if fd = 0 then 60 else 62 :: byte"
  assume "stands s p (cmd_tokens 3 (REDIR T w m fd) @ ts)" and "4 * (length s - p) + 2 \<le> n"
  then have "at_redirs s (parseexec n s p) T ([?d] # w # ts)"
    using assms(1) unfolding reads_exec_def by (auto simp: follow_def)
  then show "at_redirs s (parseexec n s p) (REDIR T w m fd) ts" using assms(2) by (intro at_redirs_one) auto
qed

lemma reads_pipe_exec:
  assumes "reads_exec s T" and "cmd_tokens 2 T = cmd_tokens 3 T"
  shows "reads_pipe s T"
  unfolding reads_pipe_def
proof (intro allI impI)
  fix p ts n
  assume st: "stands s p (cmd_tokens 2 T @ ts)" and f: "follow [41, 59, 38] ts" and n: "4 * (length s - p) + 3 \<le> n"
  obtain k where k: "n = Suc k" "4 * (length s - p) + 2 \<le> k" using n by (cases n) auto
  have "got s (parseexec k s p) T ts"
  proof (rule at_redirs_end)
    have "follow [41, 59, 38, 124, 60, 62] ts" by (rule follow_mono [OF f]) auto
    then show "at_redirs s (parseexec k s p) T ts" using assms st k(2) unfolding reads_exec_def by auto
    show "follow [41, 59, 38, 124] ts" by (rule follow_mono [OF f]) auto
  qed
  then obtain c q where "parseexec k s p = Ret c q" "map_cmd (span_text s) c = T" "stands s q ts" by (auto simp: got_def)
  moreover have "peek s q (bytes_of ''|'') = (False, q)" if "stands s q ts" for q
    using that f by (auto simp: peek_stands bytes_of_def follow_def split: list.splits)
  ultimately show "got s (parsepipe n s p) T ts" by (simp add: k got_def)
qed

lemma reads_pipe_PIPE:
  assumes "reads_exec s A" and "reads_pipe s B"
  shows "reads_pipe s (PIPE A B)"
  unfolding reads_pipe_def
proof (intro allI impI)
  fix p ts n
  assume st: "stands s p (cmd_tokens 2 (PIPE A B) @ ts)" and f: "follow [41, 59, 38] ts" and n: "4 * (length s - p) + 3 \<le> n"
  obtain k where k: "n = Suc k" "4 * (length s - p) + 2 \<le> k" using n by (cases n) auto
  have st': "stands s p (cmd_tokens 3 A @ [124] # cmd_tokens 2 B @ ts)" using st by (simp add: in_parens_def)
  then have "got s (parseexec k s p) A ([124] # cmd_tokens 2 B @ ts)"
    using assms(1) k by (intro at_redirs_end) (auto simp: reads_exec_def follow_def)
  then obtain c q where c: "parseexec k s p = Ret c q" "map_cmd (span_text s) c = A" "stands s q ([124] # cmd_tokens 2 B @ ts)"
    by (auto simp: got_def)
  have q: "p \<le> q" using parse_halts [of s p k] c(1) k(2) by (auto simp: halts_def)
  have "stands s (q + 2) (cmd_tokens 2 B @ ts)" using stands_next [OF c(3)] by simp
  moreover have "4 * (length s - (q + 2)) + 3 \<le> k" using k(2) q stands_less [OF c(3)] by simp
  ultimately have "got s (parsepipe k s (q + 2)) B ts" using assms(2) f unfolding reads_pipe_def by blast
  moreover have "peek s q (bytes_of ''|'') = (True, q)" "gettoken s q = (tok_kind [124], (q, q + 1), q + 2)"
    using peek_stands [OF c(3)] gettoken_stands [OF c(3)] by (simp_all add: bytes_of_def)
  ultimately show "got s (parsepipe n s p) (PIPE A B) ts" using c(1,2) by (auto simp: k(1) got_def)
qed

lemma reads_back_pipe:
  assumes "reads_pipe s T" and "cmd_tokens 1 T = cmd_tokens 2 T"
  shows "reads_back s T"
  using assms by (fastforce simp: reads_pipe_def reads_back_def got_def)

lemma reads_back_BACK:
  assumes "reads_back s T"
  shows "reads_back s (BACK T)"
  unfolding reads_back_def
proof (intro allI impI)
  fix p ts n
  assume st: "stands s p (cmd_tokens 1 (BACK T) @ ts)" and n: "4 * (length s - p) + 3 \<le> n"
  have "stands s p (cmd_tokens 1 T @ [38] # ts)" using st by (simp add: in_parens_def)
  moreover have "follow [41, 59, 38] ([38] # ts)" by (simp add: follow_def)
  ultimately obtain c0 p0 c p1 where c: "parsepipe n s p = Ret c0 p0" "parsebacks s c0 p0 = parsebacks s c p1"
    "map_cmd (span_text s) c = T" "stands s p1 ([38] # ts)" using assms n unfolding reads_back_def by blast
  have "parsebacks s c p1 = parsebacks s (BACK c) (p1 + 2)"
    using peek_stands [OF c(4)] gettoken_stands [OF c(4)] by (subst parsebacks.simps) (simp add: bytes_of_def)
  moreover have "stands s (p1 + 2) ts" using stands_next [OF c(4)] by simp
  moreover have "map_cmd (span_text s) (BACK c) = BACK T" using c(3) by simp
  ultimately show "\<exists>c0 p0 c p1. parsepipe n s p = Ret c0 p0 \<and> parsebacks s c0 p0 = parsebacks s c p1 \<and>
      map_cmd (span_text s) c = BACK T \<and> stands s p1 ts" using c(1,2) by metis
qed

lemma backs_end: "stands s p ts \<Longrightarrow> follow [41, 59] ts \<Longrightarrow> parsebacks s c p = (c, p)"
  by (subst parsebacks.simps) (auto simp: peek_stands bytes_of_def follow_def split: list.splits)

lemma reads_line_back:
  assumes "reads_back s T" and "cmd_tokens 0 T = cmd_tokens 1 T"
  shows "reads_line s T"
  unfolding reads_line_def
proof (intro allI impI)
  fix p ts n
  assume st: "stands s p (cmd_tokens 0 T @ ts)" and f: "follow [41] ts" and n: "4 * (length s - p) + 4 \<le> n"
  obtain k where k: "n = Suc k" "4 * (length s - p) + 3 \<le> k" using n by (cases n) auto
  have f': "follow [41, 59, 38] ts" "follow [41, 59] ts" using f by (auto simp: follow_def split: list.splits)
  then obtain c0 p0 c p1 where c: "parsepipe k s p = Ret c0 p0" "parsebacks s c0 p0 = parsebacks s c p1"
    "map_cmd (span_text s) c = T" "stands s p1 ts" using assms st k(2) unfolding reads_back_def by metis
  have "peek s p1 (bytes_of '';'') = (False, p1)" using f by (auto simp: peek_stands [OF c(4)] bytes_of_def follow_def split: list.splits)
  then show "got s (parseline n s p) T ts" using c backs_end [OF c(4) f'(2)] by (simp add: k(1) got_def)
qed

lemma reads_line_LIST:
  assumes "reads_back s A" and "reads_line s B"
  shows "reads_line s (LIST A B)"
  unfolding reads_line_def
proof (intro allI impI)
  fix p ts n
  assume st: "stands s p (cmd_tokens 0 (LIST A B) @ ts)" and f: "follow [41] ts" and n: "4 * (length s - p) + 4 \<le> n"
  obtain k where k: "n = Suc k" "4 * (length s - p) + 3 \<le> k" using n by (cases n) auto
  let ?us = "[59] # cmd_tokens 0 B @ ts"
  have "stands s p (cmd_tokens 1 A @ ?us)" using st by (simp add: in_parens_def)
  moreover have "follow [41, 59, 38] ?us" "follow [41, 59] ?us" by (simp_all add: follow_def)
  ultimately obtain c0 p0 c p1 where c: "parsepipe k s p = Ret c0 p0" "parsebacks s c0 p0 = parsebacks s c p1"
    "map_cmd (span_text s) c = A" "stands s p1 ?us" using assms(1) k(2) unfolding reads_back_def by blast
  have b: "parsebacks s c0 p0 = (c, p1)" using c(2) backs_end [OF c(4)] \<open>follow [41, 59] ?us\<close> by simp
  have p: "p \<le> p0" "p0 \<le> p1" using parse_halts [of s p k] c(1) k(2) parsebacks_le [OF b] by (auto simp: halts_def)
  have "stands s (p1 + 2) (cmd_tokens 0 B @ ts)" using stands_next [OF c(4)] by simp
  moreover have "4 * (length s - (p1 + 2)) + 4 \<le> k" using k(2) p stands_less [OF c(4)] by simp
  ultimately have "got s (parseline k s (p1 + 2)) B ts" using assms(2) f unfolding reads_line_def by blast
  moreover have "peek s p1 (bytes_of '';'') = (True, p1)" "gettoken s p1 = (tok_kind [59], (p1, p1 + 1), p1 + 2)"
    using peek_stands [OF c(4)] gettoken_stands [OF c(4)] by (simp_all add: bytes_of_def)
  ultimately show "got s (parseline n s p) (LIST A B) ts" using c(1,3) b by (auto simp: k(1) got_def)
qed

lemma reads_exec_parens:
  assumes "reads_line s T" and "cmd_tokens 3 T = [40] # cmd_tokens 0 T @ [[41]]"
  shows "reads_exec s T"
  unfolding reads_exec_def
proof (intro allI impI)
  fix p ts n
  assume "stands s p (cmd_tokens 3 T @ ts)" and n: "4 * (length s - p) + 2 \<le> n"
  then have st: "stands s p ([40] # cmd_tokens 0 T @ [41] # ts)" using assms(2) by simp
  obtain k where k: "n = Suc (Suc k)" "4 * (length s - p) \<le> k" using n by (cases n; cases "n - 1") auto
  have o: "peek s p (bytes_of ''('') = (True, p)" "gettoken s p = (tok_kind [40], (p, p + 1), p + 2)"
    using peek_stands [OF st] gettoken_stands [OF st] by (simp_all add: bytes_of_def)
  have "stands s (p + 2) (cmd_tokens 0 T @ [41] # ts)" using stands_next [OF st] by simp
  moreover have "4 * (length s - (p + 2)) + 4 \<le> k" using k(2) stands_less [OF st] by simp
  moreover have "follow [41] ([41] # ts)" by (simp add: follow_def)
  ultimately have "got s (parseline k s (p + 2)) T ([41] # ts)" using assms(1) unfolding reads_line_def by blast
  then obtain c q where c: "parseline k s (p + 2) = Ret c q" "map_cmd (span_text s) c = T" "stands s q ([41] # ts)" by (auto simp: got_def)
  have "peek s q (bytes_of '')'') = (True, q)" "gettoken s q = (tok_kind [41], (q, q + 1), q + 2)"
    using peek_stands [OF c(3)] gettoken_stands [OF c(3)] by (simp_all add: bytes_of_def)
  then have "parseexec n s p = parseredirs s c (q + 2)" using o c(1) k(1) by simp
  then show "at_redirs s (parseexec n s p) T ts" using c(2) stands_next [OF c(3)] by (auto simp: at_redirs_def)
qed

lemma reads_all: "cmd_ok T \<Longrightarrow> reads_exec s T \<and> reads_pipe s T \<and> reads_back s T \<and> reads_line s T"
proof (induction T)
  case (EXEC ws)
  then have "reads_exec s (EXEC ws)" by (rule reads_exec_EXEC)
  then show ?case using reads_pipe_exec reads_back_pipe reads_line_back by simp
next
  case (REDIR T w m fd)
  then have "reads_exec s (REDIR T w m fd)" by (intro reads_exec_REDIR) auto
  then show ?case using reads_pipe_exec reads_back_pipe reads_line_back by simp
next
  case (PIPE A B)
  then have "reads_pipe s (PIPE A B)" by (intro reads_pipe_PIPE) auto
  then have b: "reads_back s (PIPE A B)" by (intro reads_back_pipe) (simp_all add: in_parens_def)
  then have l: "reads_line s (PIPE A B)" by (intro reads_line_back) (simp_all add: in_parens_def)
  then have "reads_exec s (PIPE A B)" by (intro reads_exec_parens) (simp_all add: in_parens_def)
  then show ?case using b l \<open>reads_pipe s (PIPE A B)\<close> by simp
next
  case (LIST A B)
  then have l: "reads_line s (LIST A B)" by (intro reads_line_LIST) auto
  then have e: "reads_exec s (LIST A B)" by (intro reads_exec_parens) (simp_all add: in_parens_def)
  then have p: "reads_pipe s (LIST A B)" by (intro reads_pipe_exec) (simp_all add: in_parens_def)
  then have "reads_back s (LIST A B)" by (intro reads_back_pipe) (simp_all add: in_parens_def)
  then show ?case using l e p by simp
next
  case (BACK T)
  then have b: "reads_back s (BACK T)" by (intro reads_back_BACK) auto
  then have l: "reads_line s (BACK T)" by (intro reads_line_back) (simp_all add: in_parens_def)
  then have e: "reads_exec s (BACK T)" by (intro reads_exec_parens) (simp_all add: in_parens_def)
  then have "reads_pipe s (BACK T)" by (intro reads_pipe_exec) (simp_all add: in_parens_def)
  then show ?case using b l e by simp
qed


lemma cmd_tokens_ok: "cmd_ok T \<Longrightarrow> \<forall>t \<in> set (cmd_tokens k T). word_tok t \<or> sym_tok t"
  by (induction T arbitrary: k) (auto simp: in_parens_def sym_tok_def sh_symbol_iff)

lemma parseline_show: "cmd_ok T \<Longrightarrow> got (show_cmd T) (parseline (parse_fuel (show_cmd T)) (show_cmd T) 0) T []"
  using reads_all [of T "show_cmd T"] cmd_tokens_ok [of T 0]
  by (auto simp: reads_line_def stands_def show_cmd_def follow_def parse_fuel_def)

section \<open>The words of a parsed command\<close>

definition plain :: "byte \<Rightarrow> bool" where
  "plain c \<longleftrightarrow> \<not> sh_white c \<and> \<not> sh_symbol c"

definition span_word :: "byte list \<Rightarrow> span \<Rightarrow> bool" where
  "span_word s w \<longleftrightarrow> fst w < snd w \<and> snd w \<le> length s \<and> (\<forall>i. fst w \<le> i \<and> i < snd w \<longrightarrow> plain (s ! i)) \<and>
     (snd w < length s \<longrightarrow> \<not> plain (s ! snd w))"

primrec cmd_fits :: "byte list \<Rightarrow> span cmd \<Rightarrow> bool" where
  "cmd_fits s (EXEC argv) \<longleftrightarrow> length argv < MAXARGS \<and> (\<forall>w \<in> set argv. span_word s w)"
| "cmd_fits s (REDIR c w m fd) \<longleftrightarrow> cmd_fits s c \<and> span_word s w \<and> fd < 2"
| "cmd_fits s (PIPE a b) \<longleftrightarrow> cmd_fits s a \<and> cmd_fits s b"
| "cmd_fits s (LIST a b) \<longleftrightarrow> cmd_fits s a \<and> cmd_fits s b"
| "cmd_fits s (BACK c) \<longleftrightarrow> cmd_fits s c"

definition yields :: "('a, 's) outcome \<Rightarrow> ('a \<Rightarrow> bool) \<Rightarrow> bool" where
  "yields m Q \<longleftrightarrow> (\<forall>x s. m = Ret x s \<longrightarrow> Q x)"

lemma yields_simps [simp]: "yields (Ret x s) Q \<longleftrightarrow> Q x" "yields (Panic msg) Q" "yields Diverges Q"
  by (simp_all add: yields_def)

lemma yields_and_then: "yields m Q \<Longrightarrow> (\<And>x s. Q x \<Longrightarrow> yields (f x s) R) \<Longrightarrow> yields (and_then m f) R"
  by (cases m) (auto simp: yields_def)

lemma gettoken_word: "gettoken s p = (97, w, p') \<Longrightarrow> span_word s w"
proof -
  assume g: "gettoken s p = (97, w, p')"
  let ?q = "skip_white s p" and ?u = "drop (skip_white s p) s"
  have w: "w = (?q, ?q + length (takeWhile plain ?u))" and ne: "char_at s ?q \<noteq> 0"
    using g by (auto simp: gettoken_def Let_def plain_def [abs_def] bytes_of_def split: if_splits)
  have q: "fst w = ?q" "snd w = ?q + length (takeWhile plain ?u)" using w by auto
  have l: "?q < length s" using ne by (auto simp: char_at_def split: if_splits)
  have "\<not> sh_symbol (char_at s ?q)" using g by (auto simp: gettoken_def Let_def bytes_of_def sh_symbol_iff split: if_splits)
  then have "plain (s ! ?q)" using skip_white_stop [OF l] l by (simp add: plain_def char_at_def)
  then have "fst w < snd w" using q l by (simp add: Cons_nth_drop_Suc [symmetric])
  moreover have "snd w \<le> length s" using q l length_takeWhile_le [of plain ?u] by simp
  moreover have "plain (s ! i)" if "fst w \<le> i" "i < snd w" for i
  proof -
    have "i - ?q < length (takeWhile plain ?u)" using that q by auto
    then have "plain (takeWhile plain ?u ! (i - ?q))" using nth_mem set_takeWhileD by metis
    then show ?thesis using that q \<open>i - ?q < _\<close> l by (simp add: takeWhile_nth)
  qed
  moreover have "\<not> plain (s ! snd w)" if "snd w < length s"
    using nth_length_takeWhile [of plain ?u] that q by simp
  ultimately show ?thesis by (simp add: span_word_def)
qed

lemma set_argv_fits: "cmd_fits s c \<Longrightarrow> cmd_fits s (EXEC argv) \<Longrightarrow> cmd_fits s (set_argv argv c)"
  by (induction argv c rule: set_argv.induct) auto

lemma parseredirs_fits: "cmd_fits s c \<Longrightarrow> yields (parseredirs s c p) (cmd_fits s)"
proof (induction s c p rule: parseredirs.induct)
  case (1 s c p)
  have "cmd_fits s (redir_of tok w c)" if "gettoken s q = (97, w, q')" for tok w q q'
    using that 1(2) gettoken_word by (auto simp: redir_of_def)
  then show ?case using 1 by (subst parseredirs.simps) (auto split: prod.splits)
qed

lemma parseargs_fits:
  "cmd_fits s c \<Longrightarrow> cmd_fits s (EXEC argv) \<Longrightarrow> yields (parseargs s argv c p) (cmd_fits s)"
proof (induction s argv c p rule: parseargs.induct)
  case (1 s argv c p)
  have r: "yields (and_then (parseredirs s c p2) (parseargs s (argv @ [w]))) (cmd_fits s)"
    if "peek s p (bytes_of ''|)&;'') = (False, p1)" "gettoken s p1 = (97, w, p2)" "\<not> MAXARGS \<le> length argv + 1" for p1 p2 w
  proof -
    have "yields (parseargs s (argv @ [w]) c' p3) (cmd_fits s)" if "parseredirs s c p2 = Ret c' p3" for c' p3
      using 1(1) [of False p1 97 "(w, p2)" w p2 c' p3] 1(2,3) that \<open>peek s p _ = _\<close> \<open>gettoken s p1 = _\<close> \<open>\<not> MAXARGS \<le> length argv + 1\<close>
        gettoken_word [of s p1 w p2] parseredirs_fits [of s c p2] by (auto simp: yields_def)
    then show ?thesis by (cases "parseredirs s c p2") (auto simp: yields_def)
  qed
  show ?case using 1(2,3) r by (subst parseargs.simps) (auto simp: set_argv_fits split: prod.splits)
qed

lemma parsebacks_fits: "cmd_fits s c \<Longrightarrow> parsebacks s c p = (c', p') \<Longrightarrow> cmd_fits s c'"
proof (induction s c p rule: parsebacks.induct)
  case (1 s c p)
  show ?case using 1 by (subst (asm) (2) parsebacks.simps) (fastforce split: prod.splits if_splits)
qed

lemma parse_fits:
  "yields (parseline n s p) (cmd_fits s) \<and> yields (parsepipe n s p) (cmd_fits s) \<and>
   yields (parseblock n s p) (cmd_fits s) \<and> yields (parseexec n s p) (cmd_fits s)"
proof (induction n arbitrary: p)
  case (Suc n)
  have "yields (parseline (Suc n) s p) (cmd_fits s)" unfolding parseline.simps
    by (rule yields_and_then [of _ "cmd_fits s"])
      (use Suc parsebacks_fits in \<open>auto intro!: yields_and_then [of _ "cmd_fits s"] split: prod.splits\<close>)
  moreover have "yields (parsepipe (Suc n) s p) (cmd_fits s)" unfolding parsepipe.simps
    by (rule yields_and_then [of _ "cmd_fits s"])
      (use Suc in \<open>auto intro!: yields_and_then [of _ "cmd_fits s"] split: prod.splits\<close>)
  moreover have "yields (parseblock (Suc n) s p) (cmd_fits s)"
    using Suc parseredirs_fits by (auto intro!: yields_and_then [of _ "cmd_fits s"] split: prod.splits)
  moreover have "yields (parseexec (Suc n) s p) (cmd_fits s)"
    using Suc parseredirs_fits parseargs_fits by (auto simp: MAXARGS_def intro!: yields_and_then [of _ "cmd_fits s"] split: prod.splits)
  ultimately show ?case by blast
qed simp

lemma fits_words: "cmd_fits s c \<Longrightarrow> w \<in> set_cmd c \<Longrightarrow> span_word s w"
  by (induction c) auto

lemma nulterminate_length [simp]: "length (nulterminate c buf) = length buf"
proof (induction c arbitrary: buf)
  case (EXEC argv)
  then show ?case by (induction argv arbitrary: buf) (auto split: prod.splits)
qed auto

lemma nth_update: "i < length xs \<Longrightarrow> xs[j := x] ! i = (if j = i then x else xs ! i)"
  by (cases "j < length xs") (auto simp: nth_list_update)

lemma nulterminate_nth:
  "i < length buf \<Longrightarrow> nulterminate c buf ! i = (if i \<in> snd ` set_cmd c then 0 else buf ! i)"
proof (induction c arbitrary: buf)
  case (EXEC argv)
  then show ?case by (induction argv arbitrary: buf) (auto simp: nth_update split: prod.splits)
qed (auto simp: nth_update)

lemma nulterminate_word:
  assumes f: "cmd_fits s c" and w: "w \<in> set_cmd c" and z: "0 \<notin> set s"
  shows "cstr (drop (fst w) (nulterminate c (s @ [0]))) = span_text s w"
proof -
  let ?buf = "nulterminate c (s @ [0])"
  obtain q eq where qe: "w = (q, eq)" by (cases w)
  have sw: "span_word s w" using fits_words [OF f w] .
  have b: "q < eq" "eq \<le> length s" using sw qe by (auto simp: span_word_def)
  have same: "?buf ! i = s ! i" if "q \<le> i" "i < eq" for i
  proof -
    have "i \<notin> snd ` set_cmd c"
    proof
      assume "i \<in> snd ` set_cmd c"
      then obtain v where "v \<in> set_cmd c" "i = snd v" by auto
      then have "\<not> plain (s ! i)" using fits_words [OF f] that b by (auto simp: span_word_def)
      then show False using sw qe that by (auto simp: span_word_def)
    qed
    then show ?thesis using that b by (simp add: nulterminate_nth nth_append)
  qed
  have "?buf ! eq = 0" using w qe b by (auto simp: nulterminate_nth image_iff)
  then have "drop eq ?buf = 0 # drop (Suc eq) ?buf" using b by (simp add: Cons_nth_drop_Suc [symmetric])
  moreover have "take (eq - q) (drop q ?buf) = span_text s w"
    using b same by (intro nth_equalityI) (auto simp: span_text_def qe)
  moreover have "drop q ?buf = take (eq - q) (drop q ?buf) @ drop eq ?buf" using b by (metis append_take_drop_id drop_drop le_add_diff_inverse2 less_imp_le)
  ultimately have "drop q ?buf = span_text s w @ 0 # drop (Suc eq) ?buf" by simp
  moreover have "0 \<notin> set (span_text s w)" using z by (auto simp: span_text_def qe dest!: in_set_takeD in_set_dropD)
  ultimately show ?thesis by (simp add: qe cstr_append_nonzero)
qed


section \<open>Properties\<close>

text \<open>C39: for every line, whatever it contains, the parser comes to an end: it returns a command or reports a syntax error.\<close>

theorem parsecmd_total: "(\<exists>c buf. parsecmd s = Ret c buf) \<or> (\<exists>msg. parsecmd s = Panic msg)"
  using parsecmd_halts [of s] by (auto simp: parsecmd_def halts_def split: outcome.splits)

lemma parsecmd_Ret: "parsecmd s = Ret c buf \<Longrightarrow> cmd_fits s c \<and> buf = nulterminate c (s @ [0])"
  using parse_fits [of "parse_fuel s" s 0] by (auto simp: parsecmd_def yields_def split: outcome.splits if_splits)

text \<open>C40: in the line that the parser leaves behind, every word of the command it returns is a string of its own that ends
  where the word ended in the line, although the words are terminated in place; no command has ten words or more, and
  only the descriptors 0 and 1 are redirected.\<close>

theorem parsecmd_words:
  assumes "parsecmd s = Ret c buf" and "0 \<notin> set s"
  shows "(\<forall>w \<in> set_cmd c. cstr (drop (fst w) buf) = span_text s w \<and> word_tok (span_text s w)) \<and> cmd_fits s c"
proof -
  have c: "cmd_fits s c" "buf = nulterminate c (s @ [0])" using parsecmd_Ret [OF assms(1)] by auto
  have "word_tok (span_text s w)" if "w \<in> set_cmd c" for w
  proof -
    obtain q eq where w: "w = (q, eq)" by (cases w)
    then have sw: "q < eq" "eq \<le> length s" "\<And>i. q \<le> i \<Longrightarrow> i < eq \<Longrightarrow> plain (s ! i)"
      using fits_words [OF c(1) that] by (auto simp: span_word_def)
    have "ch \<noteq> 0 \<and> plain ch" if ch: "ch \<in> set (span_text s w)" for ch
    proof -
      obtain i where "i < length (span_text s w)" "ch = span_text s w ! i" using ch by (metis in_set_conv_nth)
      then have "i < eq - q" "ch = s ! (q + i)" using sw by (auto simp: span_text_def w)
      moreover from this have "ch \<in> set s" using sw by simp
      ultimately show ?thesis using sw(3) [of "q + i"] assms(2) by auto
    qed
    moreover have "span_text s w \<noteq> []" using sw by (simp add: span_text_def w)
    ultimately show ?thesis by (simp add: word_tok_def plain_def)
  qed
  then show ?thesis using nulterminate_word [OF c(1) _ assms(2)] c by simp
qed

theorem parsecmd_words_witness:
  "parsecmd (bytes_of ''ls|wc'') = Ret (PIPE (EXEC [(0, 2)]) (EXEC [(3, 5)])) (bytes_of ''ls'' @ [0] @ bytes_of ''wc'' @ [0]) \<and>
   cstr (drop 3 (bytes_of ''ls'' @ [0] @ bytes_of ''wc'' @ [0])) = bytes_of ''wc''"
proof -
  have p: "parsecmd (bytes_of ''ls|wc'') = Ret (PIPE (EXEC [(0, 2)]) (EXEC [(3, 5)])) (bytes_of ''ls'' @ [0] @ bytes_of ''wc'' @ [0])"
    by code_simp
  have "0 \<notin> set (bytes_of ''ls|wc'')" by (simp add: bytes_of_def)
  from parsecmd_words [OF p this]
  have "cstr (drop 3 (bytes_of ''ls'' @ [0] @ bytes_of ''wc'' @ [0])) = span_text (bytes_of ''ls|wc'') (3, 5)" by simp
  also have "\<dots> = bytes_of ''wc''" by code_simp
  finally show ?thesis using p by blast
qed

text \<open>C8: every command that can be written down is read back: parsing its text returns a command of the same shape, whose
  words, read as strings from the line the parser leaves behind, are the words of the original.\<close>

theorem parsecmd_show:
  assumes "cmd_ok T"
  shows "\<exists>c buf. parsecmd (show_cmd T) = Ret c buf \<and> map_cmd (\<lambda>w. cstr (drop (fst w) buf)) c = T"
proof -
  let ?s = "show_cmd T"
  obtain c p where c: "parseline (parse_fuel ?s) ?s 0 = Ret c p" "map_cmd (span_text ?s) c = T" "stands ?s p []"
    using parseline_show [OF assms] by (auto simp: got_def)
  have "snd (peek ?s p []) = length ?s" using peek_stands [OF c(3)] stands_Nil [OF c(3)] by simp
  then have r: "parsecmd ?s = Ret c (nulterminate c (?s @ [0]))" using c(1) by (simp add: parsecmd_def)
  have "0 \<notin> set ?s" using cmd_tokens_ok [OF assms, of 0]
    by (auto simp: show_cmd_def show_tokens_def word_tok_def sym_tok_def sh_symbol_iff length_Suc_conv)
  then have "map_cmd (\<lambda>w. cstr (drop (fst w) (nulterminate c (?s @ [0])))) c = map_cmd (span_text ?s) c"
    using nulterminate_word parsecmd_Ret [OF r] by (intro cmd.map_cong0) blast
  then show ?thesis using r c(2) by auto
qed

definition demo_cmd :: "byte list cmd" where
  "demo_cmd = LIST (BACK (PIPE (LIST (EXEC [bytes_of ''cat'', bytes_of ''f'']) (EXEC [bytes_of ''ls''])) (EXEC [bytes_of ''wc''])))
     (REDIR (EXEC [bytes_of ''echo'', bytes_of ''hi'']) (bytes_of ''out'') (O_WRONLY OR O_CREATE) 1)"

theorem parsecmd_show_witness:
  "show_cmd demo_cmd = bytes_of ''( cat f ; ls ) | wc & ; echo hi > out '' \<and>
   (\<exists>c buf. parsecmd (show_cmd demo_cmd) = Ret c buf \<and> map_cmd (\<lambda>w. cstr (drop (fst w) buf)) c = demo_cmd)"
proof -
  have "cmd_ok demo_cmd" by code_simp
  moreover have "show_cmd demo_cmd = bytes_of ''( cat f ; ls ) | wc & ; echo hi > out ''" by code_simp
  ultimately show ?thesis using parsecmd_show by blast
qed

section \<open>Running a command\<close>

text \<open>\<open>runcmd\<close> is a tree of processes: what the process does next, with the child on the left of each fork.  An open file is
  known by where it comes from; a pipe and the calls of \<^verbatim>\<open>fork\<close> and \<^verbatim>\<open>pipe\<close> are named after the place in the command
  where they are made.  Which calls fail is a parameter.  A descriptor is given out as the kernel does it, the lowest free
  one first.\<close>

type_synonym place = "bool list"

datatype sh_obj = Inherited nat | Opened "byte list" uint | PipeRead place | PipeWrite place

type_synonym fds = "sh_obj option list"

record sh_env =
  can_fork :: "place \<Rightarrow> nat \<Rightarrow> bool"
  can_pipe :: "place \<Rightarrow> bool"
  can_open :: "byte list \<Rightarrow> uint \<Rightarrow> bool"
  can_exec :: "byte list list \<Rightarrow> bool"

datatype ptree =
    Program "byte list list" fds
  | Exited
  | Failed "byte list"
  | Forks ptree ptree
  | Waits ptree

primrec lowest_free :: "'a option list \<Rightarrow> nat option" where
  "lowest_free [] = None"
| "lowest_free (d # ds) = (case d of None \<Rightarrow> Some 0 | Some _ \<Rightarrow> map_option Suc (lowest_free ds))"

definition sh_close :: "nat \<Rightarrow> fds \<Rightarrow> fds" where
  "sh_close d t = t[d := None]"

definition sh_install :: "sh_obj option \<Rightarrow> fds \<Rightarrow> (nat \<times> fds) option" where
  "sh_install f t = (case f of None \<Rightarrow> None | Some _ \<Rightarrow> map_option (\<lambda>d. (d, t[d := f])) (lowest_free t))"

definition sh_dup :: "nat \<Rightarrow> fds \<Rightarrow> fds" where
  "sh_dup d t = (case sh_install (if d < length t then t ! d else None) t of None \<Rightarrow> t | Some (_, t) \<Rightarrow> t)"

definition sh_pipe :: "place \<Rightarrow> fds \<Rightarrow> (nat \<times> nat \<times> fds) option" where
  "sh_pipe at t =
     (case sh_install (Some (PipeRead at)) t of None \<Rightarrow> None
      | Some (p0, t) \<Rightarrow> (case sh_install (Some (PipeWrite at)) t of None \<Rightarrow> None | Some (p1, t) \<Rightarrow> Some (p0, p1, t)))"

primrec runcmd :: "sh_env \<Rightarrow> place \<Rightarrow> byte list cmd \<Rightarrow> fds \<Rightarrow> ptree" where
  "runcmd e at (EXEC argv) t =
     (if argv = [] then Exited
      else if can_exec e argv then Program argv t
      else Failed (bytes_of ''exec '' @ hd argv @ bytes_of '' failed''))"
| "runcmd e at (REDIR c w m fd) t =
     (let t = sh_close fd t in
      case (if can_open e w m then sh_install (Some (Opened w m)) t else None) of
        None \<Rightarrow> Failed (bytes_of ''open '' @ w @ bytes_of '' failed'')
      | Some (_, t) \<Rightarrow> runcmd e at c t)"
| "runcmd e at (LIST a b) t =
     (if \<not> can_fork e at 0 then Failed (bytes_of ''fork'')
      else Forks (runcmd e (at @ [False]) a t) (Waits (runcmd e (at @ [True]) b t)))"
| "runcmd e at (PIPE a b) t =
     (case (if can_pipe e at then sh_pipe at t else None) of
        None \<Rightarrow> Failed (bytes_of ''pipe'')
      | Some (p0, p1, t) \<Rightarrow>
          if \<not> can_fork e at 0 then Failed (bytes_of ''fork'')
          else
            Forks (runcmd e (at @ [False]) a (sh_close p1 (sh_close p0 (sh_dup p1 (sh_close 1 t)))))
             (if \<not> can_fork e at 1 then Failed (bytes_of ''fork'')
              else
                Forks (runcmd e (at @ [True]) b (sh_close p1 (sh_close p0 (sh_dup p0 (sh_close 0 t)))))
                 (Waits (Waits Exited))))"
| "runcmd e at (BACK c) t =
     (if \<not> can_fork e at 0 then Failed (bytes_of ''fork'') else Forks (runcmd e (at @ [False]) c t) Exited)"

text \<open>The programs that are started, with their descriptor tables.\<close>

primrec started :: "ptree \<Rightarrow> (byte list list \<times> fds) list" where
  "started (Program argv t) = [(argv, t)]"
| "started Exited = []"
| "started (Failed msg) = []"
| "started (Forks a b) = started a @ started b"
| "started (Waits a) = started a"

text \<open>What a command means: which programs run, where each takes its input from and where its output goes.\<close>

primrec flows :: "place \<Rightarrow> byte list cmd \<Rightarrow> sh_obj \<Rightarrow> sh_obj \<Rightarrow> (byte list list \<times> sh_obj \<times> sh_obj) list" where
  "flows at (EXEC argv) i out = (if argv = [] then [] else [(argv, i, out)])"
| "flows at (REDIR c w m fd) i out =
     (if fd = 0 then flows at c (Opened w m) out else flows at c i (Opened w m))"
| "flows at (LIST a b) i out = flows (at @ [False]) a i out @ flows (at @ [True]) b i out"
| "flows at (PIPE a b) i out = flows (at @ [False]) a i (PipeWrite at) @ flows (at @ [True]) b (PipeRead at) out"
| "flows at (BACK c) i out = flows (at @ [False]) c i out"

definition NFDS :: nat where "NFDS = 16"

definition three_fds :: "sh_obj \<Rightarrow> sh_obj \<Rightarrow> sh_obj \<Rightarrow> fds" where
  "three_fds i out er = [Some i, Some out, Some er] @ replicate (NFDS - 3) None"

definition no_failure :: "sh_env \<Rightarrow> bool" where
  "no_failure e \<longleftrightarrow> (\<forall>at k. can_fork e at k) \<and> (\<forall>at. can_pipe e at) \<and> (\<forall>w m. can_open e w m) \<and> (\<forall>argv. can_exec e argv)"

primrec fds_ok :: "'w cmd \<Rightarrow> bool" where
  "fds_ok (EXEC argv) \<longleftrightarrow> True"
| "fds_ok (REDIR c w m fd) \<longleftrightarrow> fds_ok c \<and> fd < 2"
| "fds_ok (PIPE a b) \<longleftrightarrow> fds_ok a \<and> fds_ok b"
| "fds_ok (LIST a b) \<longleftrightarrow> fds_ok a \<and> fds_ok b"
| "fds_ok (BACK c) \<longleftrightarrow> fds_ok c"

lemma fits_fds: "cmd_fits s c \<Longrightarrow> fds_ok (map_cmd f c)"
  by (induction c) auto

lemmas table_simps = three_fds_def NFDS_def sh_pipe_def sh_install_def sh_close_def sh_dup_def numeral_eq_Suc

lemma pipe_three:
  "\<exists>t. sh_pipe at (three_fds i out er) = Some (3, 4, t) \<and>
     sh_close 4 (sh_close 3 (sh_dup 4 (sh_close 1 t))) = three_fds i (PipeWrite at) er \<and>
     sh_close 4 (sh_close 3 (sh_dup 3 (sh_close 0 t))) = three_fds (PipeRead at) out er"
  by (simp add: table_simps)

lemma redir_three:
  "fd < 2 \<Longrightarrow> sh_install (Some f) (sh_close fd (three_fds i out er)) =
     Some (fd, if fd = 0 then three_fds f out er else three_fds i f er)"
  by (auto simp: table_simps less_Suc_eq)

text \<open>The started programs against the meaning: no other ones, and all of them if no call fails.\<close>

definition implements :: "sh_env \<Rightarrow> sh_obj \<Rightarrow> (byte list list \<times> fds) list \<Rightarrow> (byte list list \<times> sh_obj \<times> sh_obj) list \<Rightarrow> bool" where
  "implements e er xs ys \<longleftrightarrow>
     (let conc = \<lambda>(argv, i, out). (argv, three_fds i out er) in set xs \<subseteq> conc ` set ys \<and> (no_failure e \<longrightarrow> xs = map conc ys))"

lemma implements_append: "implements e er xs ys \<Longrightarrow> implements e er us vs \<Longrightarrow> implements e er (xs @ us) (ys @ vs)"
  unfolding implements_def Let_def image_Un set_append map_append by blast

lemma implements_Nil: "\<not> no_failure e \<Longrightarrow> implements e er [] ys"
  by (simp add: implements_def)

lemma started_flows: "fds_ok c \<Longrightarrow> implements e er (started (runcmd e at c (three_fds i out er))) (flows at c i out)"
proof (induction c arbitrary: at i out)
  case (EXEC argv)
  then show ?case by (auto simp: no_failure_def implements_def)
next
  case (REDIR c w m fd)
  then have r: "fds_ok c" "fd < 2" by auto
  show ?case
  proof (cases "can_open e w m")
    case True
    then show ?thesis using REDIR.IH [OF r(1)] by (simp add: Let_def redir_three [OF r(2)])
  next
    case False
    then have "\<not> no_failure e" by (auto simp: no_failure_def)
    then show ?thesis using False by (simp add: Let_def implements_Nil)
  qed
next
  case (PIPE a b)
  obtain t where t: "sh_pipe at (three_fds i out er) = Some (3, 4, t)"
    "sh_close 4 (sh_close 3 (sh_dup 4 (sh_close 1 t))) = three_fds i (PipeWrite at) er"
    "sh_close 4 (sh_close 3 (sh_dup 3 (sh_close 0 t))) = three_fds (PipeRead at) out er" using pipe_three by blast
  define A where "A = started (runcmd e (at @ [False]) a (three_fds i (PipeWrite at) er))"
  define B where "B = started (runcmd e (at @ [True]) b (three_fds (PipeRead at) out er))"
  have ih: "implements e er A (flows (at @ [False]) a i (PipeWrite at))" "implements e er B (flows (at @ [True]) b (PipeRead at) out)"
    using PIPE by (simp_all add: A_def B_def)
  consider "\<not> (can_pipe e at \<and> can_fork e at 0)" | "can_pipe e at" "can_fork e at 0" "\<not> can_fork e at 1"
    | "can_pipe e at" "can_fork e at 0" "can_fork e at 1" by blast
  then show ?case
  proof cases
    case 1
    then have "\<not> no_failure e" by (auto simp: no_failure_def)
    then show ?thesis using 1 by (auto simp: t implements_Nil)
  next
    case 2
    then have "\<not> no_failure e" by (auto simp: no_failure_def)
    then have "implements e er (A @ []) (flows at (PIPE a b) i out)" unfolding flows.simps using ih by (intro implements_append implements_Nil)
    moreover have "started (runcmd e at (PIPE a b) (three_fds i out er)) = A" using 2 by (simp add: t A_def del: One_nat_def)
    ultimately show ?thesis by simp
  next
    case 3
    then have "started (runcmd e at (PIPE a b) (three_fds i out er)) = A @ B" by (simp add: t A_def B_def del: One_nat_def)
    then show ?thesis using implements_append [OF ih] by simp
  qed
next
  case (LIST a b)
  show ?case
  proof (cases "can_fork e at 0")
    case True
    then show ?thesis using LIST implements_append by simp
  next
    case False
    then have "\<not> no_failure e" by (auto simp: no_failure_def)
    then show ?thesis using False by (simp add: implements_Nil)
  qed
next
  case (BACK c)
  show ?case
  proof (cases "can_fork e at 0")
    case True
    then show ?thesis using BACK by simp
  next
    case False
    then have "\<not> no_failure e" by (auto simp: no_failure_def)
    then show ?thesis using False by (simp add: implements_Nil)
  qed
qed

text \<open>C9: whatever line was parsed, each program that the shell starts for it has exactly the descriptors 0, 1 and 2 open,
  so no process keeps an end of a pipe it does not use; its input and output are those that the command asks for, the ends
  of one pipe for two programs joined by a bar and the file of a redirection.  If no call fails, exactly the programs of the command are
  started.\<close>

theorem runcmd_flows:
  assumes "parsecmd s = Ret c buf" and "T = map_cmd (\<lambda>w. cstr (drop (fst w) buf)) c"
  shows "set (started (runcmd e at T (three_fds i out er))) \<subseteq> (\<lambda>(argv, i, out). (argv, three_fds i out er)) ` set (flows at T i out) \<and>
    (no_failure e \<longrightarrow> started (runcmd e at T (three_fds i out er)) = map (\<lambda>(argv, i, out). (argv, three_fds i out er)) (flows at T i out))"
proof -
  have "fds_ok T" using parsecmd_Ret [OF assms(1)] fits_fds unfolding assms(2) by blast
  then show ?thesis using started_flows [of T e er at i out] by (simp add: implements_def Let_def)
qed

definition demo_env :: sh_env where
  "demo_env = \<lparr>can_fork = \<lambda>_ _. True, can_pipe = \<lambda>_. True, can_open = \<lambda>_ _. True, can_exec = \<lambda>_. True\<rparr>"

theorem runcmd_flows_witness:
  "started (runcmd demo_env [] (PIPE (EXEC [bytes_of ''ls'']) (EXEC [bytes_of ''wc''])) (three_fds (Inherited 0) (Inherited 1) (Inherited 2))) =
     [([bytes_of ''ls''], three_fds (Inherited 0) (PipeWrite []) (Inherited 2)),
      ([bytes_of ''wc''], three_fds (PipeRead []) (Inherited 1) (Inherited 2))]"
proof -
  let ?c = "PIPE (EXEC [(0, 2)]) (EXEC [(3, 5)])" and ?buf = "bytes_of ''ls'' @ [0] @ bytes_of ''wc'' @ [0]"
  have p: "parsecmd (bytes_of ''ls|wc'') = Ret ?c ?buf" by code_simp
  have T: "PIPE (EXEC [bytes_of ''ls'']) (EXEC [bytes_of ''wc'']) = map_cmd (\<lambda>w. cstr (drop (fst w) ?buf)) ?c" by code_simp
  have "no_failure demo_env" by (simp add: no_failure_def demo_env_def)
  then show ?thesis using runcmd_flows [OF p T, of demo_env "[]" "Inherited 0" "Inherited 1" "Inherited 2"] by simp
qed

end
