(* ===== verification/Stride.thy ===== *)
theory Stride
  imports Syscall
begin

text \<open>
  The stride scheduler of project 2b: \<^verbatim>\<open>src/2b/proc.c\<close> (\<open>allocproc\<close>, \<open>scheduler\<close>) and the two new system calls of
  \<^verbatim>\<open>src/2b/sysproc.c\<close>.  The rest of that kernel is the one modelled in the other theories, so its state is the
  state of \<open>Proc\<close> with the four fields that \<^verbatim>\<open>src/2b/proc.h\<close> adds to a process, as lists over the process table, and
  the local variable \<^verbatim>\<open>current\<close> of the scheduler, which keeps its value from one pass to the next (\<open>None\<close> before it
  is first set).

  Every process has a \<^verbatim>\<open>pass\<close>, advanced by its \<^verbatim>\<open>stride\<close> each time it runs; the one with the least pass runs
  next.  The property is the proportional share this gives.
\<close>

section \<open>State\<close>

record kstride = kproc +
  st_tickets :: "uint list"
  st_usage :: "uint list"
  st_stride :: "uint list"
  st_pass :: "uint list"
  st_current :: "nat option"

text \<open>The quotient of signed numbers is cut towards zero.\<close>

definition stride_of :: "uint \<Rightarrow> uint" where
  "stride_of tix = of_int (sgn (sint tix) * (10000 div \<bar>sint tix\<bar>))"

section \<open>Creation and system calls\<close>

definition stride_allocproc :: "'a kstride_scheme \<Rightarrow> (nat option, 'a kstride_scheme) outcome" where
  "stride_allocproc s =
     and_then (lk_acquire LPtable s) (\<lambda>_ s.
     case find_proc (\<lambda>x. p_state x = UNUSED) s of
       None \<Rightarrow> and_then (lk_release LPtable s) (\<lambda>_ s. Ret None s)
     | Some p \<Rightarrow>
         let s = (upd_proc p (\<lambda>x. x\<lparr>p_state := EMBRYO, p_pid := nextpid s\<rparr>) s)\<lparr>nextpid := nextpid s + 1\<rparr>;
             s = s\<lparr>st_tickets := (st_tickets s)[p := 1], st_pass := (st_pass s)[p := 0],
                   st_stride := (st_stride s)[p := stride_of 1]\<rparr> in
         and_then (lk_release LPtable s) (\<lambda>_ s.
         and_then (kalloc s) (\<lambda>k s.
         let s = upd_proc p (\<lambda>x. x\<lparr>p_kstack := k\<rparr>) s in
         if k = 0 then Ret None (upd_proc p (\<lambda>x. x\<lparr>p_state := UNUSED\<rparr>) s)
         else
           let sp = k + KSTACKSIZE - sizeof_trapframe - 4;
               s = s\<lparr>pmem := wr_word (pmem s) sp (k_trapret s)\<rparr> in
           Ret (Some p) (upd_proc p (\<lambda>x. x\<lparr>p_context := zero_context\<lparr>ctx_eip := k_forkret s\<rparr>\<rparr>) s))))"

text \<open>A division by zero traps.\<close>

definition sys_settickets :: "'a kstride_scheme \<Rightarrow> (uint, 'a kstride_scheme) outcome" where
  "sys_settickets s =
     or_fail (argint 0 s) (\<lambda>tix s.
     with_proc s (\<lambda>p.
     let s = s\<lparr>st_tickets := (st_tickets s)[p := tix]\<rparr> in
     if tix = 0 then Panic ''divide error''
     else Ret 0 (s\<lparr>st_stride := (st_stride s)[p := stride_of tix]\<rparr>)))"

definition sys_getusage :: "'a kstride_scheme \<Rightarrow> (uint, 'a kstride_scheme) outcome" where
  "sys_getusage s = with_proc s (\<lambda>p. Ret (st_usage s ! p) s)"

section \<open>The scheduler\<close>

text \<open>The loop over the table, with the values of \<^verbatim>\<open>current\<close> and \<^verbatim>\<open>minPass\<close>.\<close>

fun stride_scan :: "(procstate \<times> uint) list \<Rightarrow> nat \<Rightarrow> nat option \<Rightarrow> uint \<Rightarrow> nat option" where
  "stride_scan [] i current minPass = current"
| "stride_scan ((st, pass) # ps) i current minPass =
     (if st \<noteq> RUNNABLE then stride_scan ps (i + 1) current minPass
      else if sint minPass < 0 \<or> sint pass < sint minPass then stride_scan ps (i + 1) (Some i) pass
      else stride_scan ps (i + 1) current minPass)"

text \<open>From the top of the loop to the switch.  If no process has been runnable yet, \<^verbatim>\<open>current\<close> is not set.\<close>

definition stride_dispatch :: "'a kstride_scheme \<Rightarrow> (nat, 'a kstride_scheme) outcome" where
  "stride_dispatch s =
     and_then (lk_acquire LPtable s) (\<lambda>_ s.
     let s = s\<lparr>st_current := stride_scan (zip (map p_state (procs s)) (st_pass s)) 0 (st_current s) (- 1)\<rparr> in
     case st_current s of None \<Rightarrow> Panic ''current not set''
     | Some c \<Rightarrow>
         let s = s\<lparr>cur := Some c, st_pass := (st_pass s)[c := st_pass s ! c + st_stride s ! c]\<rparr> in
         and_then (switchuvm c s) (\<lambda>_ s.
         Ret c ((upd_proc c (\<lambda>x. x\<lparr>p_state := RUNNING\<rparr>) s)\<lparr>st_usage := (st_usage s)[c := st_usage s ! c + 1]\<rparr>)))"

text \<open>From the switch back to the end of the loop.\<close>

definition stride_return :: "'a kstride_scheme \<Rightarrow> (unit, 'a kstride_scheme) outcome" where
  "stride_return s = lk_release LPtable ((switchkvm s)\<lparr>cur := None\<rparr>)"

text \<open>A turn of a process that computes until the timer makes it yield.\<close>

definition stride_turn :: "'a kstride_scheme \<Rightarrow> (nat, 'a kstride_scheme) outcome" where
  "stride_turn s =
     and_then (stride_dispatch s) (\<lambda>c s.
     and_then (yield_return s) (\<lambda>_ s.
     case (yield s :: (unit, _) outcome) of
       Sleep ch s \<Rightarrow> and_then (stride_return s) (\<lambda>_ s. Ret c s)
     | Ret _ s \<Rightarrow> Panic ''yield returned''
     | Panic m \<Rightarrow> Panic m
     | Diverges \<Rightarrow> Diverges))"

primrec stride_turns :: "nat \<Rightarrow> 'a kstride_scheme \<Rightarrow> (nat list, 'a kstride_scheme) outcome" where
  "stride_turns 0 s = Ret [] s"
| "stride_turns (Suc n) s =
     and_then (stride_turn s) (\<lambda>c s. and_then (stride_turns n s) (\<lambda>cs s. Ret (c # cs) s))"

section \<open>Lemmas\<close>

text \<open>The scan finds a runnable process with the least pass.\<close>

abbreviation le_all :: "int \<Rightarrow> (procstate \<times> uint) list \<Rightarrow> bool" where
  "le_all m ps \<equiv> \<forall>(st, pass) \<in> set ps. st = RUNNABLE \<longrightarrow> m \<le> sint pass"

lemma stride_scan_from:
  assumes "le_all 0 ps" and "0 \<le> sint m"
  shows "(stride_scan ps i c m = c \<and> le_all (sint m) ps) \<or>
    (\<exists>k < length ps. stride_scan ps i c m = Some (i + k) \<and> fst (ps ! k) = RUNNABLE \<and>
       sint (snd (ps ! k)) \<le> sint m \<and> le_all (sint (snd (ps ! k))) ps)"
  using assms
proof (induction ps i c m rule: stride_scan.induct)
  case (2 st pass ps i c m)
  consider "st \<noteq> RUNNABLE" | "st = RUNNABLE" "sint pass < sint m" | "st = RUNNABLE" "sint m \<le> sint pass" by linarith
  then show ?case
  proof cases
    case 1
    then have "stride_scan ((st, pass) # ps) i c m = stride_scan ps (i + 1) c m" by simp
    then show ?thesis using 2(1) [OF 1] 2(4,5) 1 by (auto intro: exI [of _ "Suc _"])
  next
    case 2
    then have e: "stride_scan ((st, pass) # ps) i c m = stride_scan ps (i + 1) (Some i) pass" by simp
    have "0 \<le> sint pass" "le_all 0 ps" using 2 \<open>le_all 0 ((st, pass) # ps)\<close> by auto
    then consider "stride_scan ps (i + 1) (Some i) pass = Some i" "le_all (sint pass) ps"
      | k where "k < length ps" "stride_scan ps (i + 1) (Some i) pass = Some (i + 1 + k)" "fst (ps ! k) = RUNNABLE"
         "sint (snd (ps ! k)) \<le> sint pass" "le_all (sint (snd (ps ! k))) ps"
      using "2.IH"(2) 2 by auto
    then show ?thesis
    proof cases
      case 1
      then show ?thesis unfolding e using 2 by (intro disjI2 exI [of _ 0]) auto
    next
      case (2 k)
      then show ?thesis unfolding e using \<open>sint pass < sint m\<close> \<open>st = RUNNABLE\<close> by (intro disjI2 exI [of _ "Suc k"]) auto
    qed
  next
    case 3
    then have e: "stride_scan ((st, pass) # ps) i c m = stride_scan ps (i + 1) c m" using \<open>0 \<le> sint m\<close> by simp
    show ?thesis unfolding e using "2.IH"(3) 3 2(4,5) by (auto intro: exI [of _ "Suc _"])
  qed
qed auto

lemma stride_scan_least:
  assumes "le_all 0 ps" and "\<exists>pass. (RUNNABLE, pass) \<in> set ps"
  shows "\<exists>k < length ps. stride_scan ps i c (- 1) = Some (i + k) \<and> fst (ps ! k) = RUNNABLE \<and> le_all (sint (snd (ps ! k))) ps"
  using assms
proof (induction ps arbitrary: i)
  case (Cons x ps)
  obtain st pass where x: "x = (st, pass)" by (cases x)
  show ?case
  proof (cases "st = RUNNABLE")
    case True
    have e: "stride_scan (x # ps) i c (- 1) = stride_scan ps (i + 1) (Some i) pass" using True by (simp add: x)
    have "0 \<le> sint pass" "le_all 0 ps" using Cons.prems(1) x True by auto
    then consider "stride_scan ps (i + 1) (Some i) pass = Some i" "le_all (sint pass) ps"
      | k where "k < length ps" "stride_scan ps (i + 1) (Some i) pass = Some (i + 1 + k)" "fst (ps ! k) = RUNNABLE"
         "sint (snd (ps ! k)) \<le> sint pass" "le_all (sint (snd (ps ! k))) ps"
      using stride_scan_from [of ps pass "i + 1" "Some i"] by auto
    then show ?thesis
    proof cases
      case 1
      then show ?thesis unfolding e using True by (intro exI [of _ 0]) (auto simp: x)
    next
      case (2 k)
      then show ?thesis unfolding e by (intro exI [of _ "Suc k"]) (auto simp: x)
    qed
  next
    case False
    then have "stride_scan (x # ps) i c (- 1) = stride_scan ps (i + 1) c (- 1)" by (simp add: x)
    then show ?thesis using Cons.IH [of "i + 1"] Cons.prems False x by (auto intro: exI [of _ "Suc _"])
  qed
qed simp

text \<open>Between two turns, with \<open>S\<close> the runnable processes: no pass is further ahead of another one than by its own stride.\<close>

definition stride_inv :: "nat set \<Rightarrow> 'a kstride_scheme \<Rightarrow> bool" where
  "stride_inv S s \<longleftrightarrow>
     length (procs s) = NPROC \<and> length (st_pass s) = NPROC \<and> length (st_stride s) = NPROC \<and> length (st_usage s) = NPROC \<and>
     held s = {} \<and> S \<noteq> {} \<and> S \<subseteq> {..<NPROC} \<and>
     (\<forall>i < NPROC. p_state (proc_at i s) = RUNNABLE \<longleftrightarrow> i \<in> S) \<and> (\<forall>i \<in> S. p_pgdir (proc_at i s) \<noteq> 0) \<and>
     (\<forall>i \<in> S. unat (st_stride s ! i) \<le> 10000) \<and>
     (\<forall>i \<in> S. \<forall>j \<in> S. unat (st_pass s ! i) \<le> unat (st_pass s ! j) + unat (st_stride s ! i))"

lemma stride_pick:
  assumes inv: "stride_inv S s" and b: "\<forall>i \<in> S. unat (st_pass s ! i) < 2 ^ 31"
  shows "\<exists>c \<in> S. stride_scan (zip (map p_state (procs s)) (st_pass s)) 0 (st_current s) (- 1) = Some c \<and>
    (\<forall>j \<in> S. unat (st_pass s ! c) \<le> unat (st_pass s ! j))"
proof -
  define ps where "ps = zip (map p_state (procs s)) (st_pass s)"
  have l: "length ps = NPROC" using inv by (simp add: stride_inv_def ps_def)
  have nth: "ps ! i = (p_state (proc_at i s), st_pass s ! i)" if "i < NPROC" for i using inv that by (simp add: stride_inv_def ps_def)
  have run: "fst (ps ! i) = RUNNABLE \<longleftrightarrow> i \<in> S" if "i < NPROC" for i using nth inv that by (simp add: stride_inv_def)
  have val: "sint (st_pass s ! i) = int (unat (st_pass s ! i))" if "i \<in> S" for i using b that sint_of_unat by blast
  have S: "i < NPROC" if "i \<in> S" for i using inv that by (auto simp: stride_inv_def)
  have all: "le_all m ps" if "\<And>i. i \<in> S \<Longrightarrow> m \<le> sint (st_pass s ! i)" for m
    using that run nth l by (auto simp: in_set_conv_nth)
  have "\<exists>pass. (RUNNABLE, pass) \<in> set ps"
  proof -
    obtain i where i: "i \<in> S" using inv by (auto simp: stride_inv_def)
    then have "ps ! i \<in> set ps" "fst (ps ! i) = RUNNABLE" using S l run by (auto intro: nth_mem)
    then show ?thesis by (metis prod.collapse)
  qed
  then obtain k where k: "k < NPROC" "stride_scan ps 0 (st_current s) (- 1) = Some k" "fst (ps ! k) = RUNNABLE" "le_all (sint (snd (ps ! k))) ps"
    using stride_scan_least [OF all [of 0], of 0 "st_current s"] val l by auto
  have "unat (st_pass s ! k) \<le> unat (st_pass s ! j)" if "j \<in> S" for j
  proof -
    have "ps ! j \<in> set ps" "fst (ps ! j) = RUNNABLE" using S that l run by (auto intro: nth_mem)
    then have "sint (st_pass s ! k) \<le> sint (st_pass s ! j)" using k(1,4) nth S [OF that] by fastforce
    then have "int (unat (st_pass s ! k)) \<le> int (unat (st_pass s ! j))" using val [OF that] val [of k] run k(1,3) by metis
    then show ?thesis by linarith
  qed
  then show ?thesis using k run unfolding ps_def by blast
qed

lemma stride_turn_spec:
  assumes inv: "stride_inv S s" and b: "\<forall>i \<in> S. unat (st_pass s ! i) + 10000 < 2 ^ 31"
  shows "returns (stride_turn s) (\<lambda>c t. c \<in> S \<and> stride_inv S t \<and> st_stride t = st_stride s \<and>
    st_pass t = (st_pass s)[c := st_pass s ! c + st_stride s ! c] \<and> st_usage t = (st_usage s)[c := st_usage s ! c + 1])"
proof -
  have "\<forall>i \<in> S. unat (st_pass s ! i) < 2 ^ 31" using b by auto
  then obtain c where c: "c \<in> S" "stride_scan (zip (map p_state (procs s)) (st_pass s)) 0 (st_current s) (- 1) = Some c"
    "\<forall>j \<in> S. unat (st_pass s ! c) \<le> unat (st_pass s ! j)" using stride_pick [OF inv] by blast
  have h: "held s = {}" "length (procs s) = NPROC" "c < NPROC" "p_pgdir (proc_at c s) \<noteq> 0" "p_state (proc_at c s) = RUNNABLE"
    using inv c(1) by (auto simp: stride_inv_def)
  have "returns (stride_turn s) (\<lambda>c' t. c' = c \<and> procs t = procs s \<and> held t = {} \<and> st_stride t = st_stride s \<and>
      st_pass t = (st_pass s)[c := st_pass s ! c + st_stride s ! c] \<and> st_usage t = (st_usage s)[c := st_usage s ! c + 1])"
    using h c(2) by (simp add: stride_turn_def stride_dispatch_def lk_acquire_def switchuvm_def Let_def yield_return_def
      lk_release_def yield_def with_proc_def upd_proc_def sched_def stride_return_def switchkvm_def returns_def list_update_same_conv)
  moreover have "stride_inv S t" if t: "procs t = procs s" "held t = {}" "st_stride t = st_stride s"
      "st_pass t = (st_pass s)[c := st_pass s ! c + st_stride s ! c]" "st_usage t = (st_usage s)[c := st_usage s ! c + 1]" for t :: "'a kstride_scheme"
  proof -
    have u: "unat (st_pass s ! c + st_stride s ! c) = unat (st_pass s ! c) + unat (st_stride s ! c)"
    proof (rule unat_add_lem [THEN iffD1])
      have "unat (st_stride s ! c) \<le> 10000" "unat (st_pass s ! c) + 10000 < 2 ^ 31" using inv b c(1) by (auto simp: stride_inv_def)
      then show "unat (st_pass s ! c) + unat (st_stride s ! c) < 2 ^ LENGTH(32)" by simp
    qed
    have "unat (st_pass t ! i) \<le> unat (st_pass t ! j) + unat (st_stride t ! i)" if "i \<in> S" "j \<in> S" for i j
    proof -
      have "length (st_pass s) = NPROC" and le: "unat (st_pass s ! i) \<le> unat (st_pass s ! j) + unat (st_stride s ! i)"
        using inv that by (auto simp: stride_inv_def)
      then show ?thesis using t(3,4) u c(3) that h(3) by (auto simp: nth_list_update)
    qed
    then show ?thesis using inv t by (simp add: stride_inv_def)
  qed
  ultimately show ?thesis using c(1) by (auto elim!: returns_mono)
qed

lemma stride_turns_spec:
  assumes "stride_inv S s" and "\<forall>i \<in> S. unat (st_pass s ! i) + n * 10000 < 2 ^ 31"
  shows "returns (stride_turns n s) (\<lambda>cs t. length cs = n \<and> set cs \<subseteq> S \<and> stride_inv S t \<and> st_stride t = st_stride s \<and>
    (\<forall>i \<in> S. unat (st_pass t ! i) = unat (st_pass s ! i) + count_list cs i * unat (st_stride s ! i) \<and>
      st_usage t ! i = st_usage s ! i + of_nat (count_list cs i)))"
  using assms
proof (induction n arbitrary: s)
  case (Suc n)
  have "\<forall>i \<in> S. unat (st_pass s ! i) + 10000 < 2 ^ 31" using Suc.prems(2) by auto
  then show ?case unfolding stride_turns.simps
  proof (intro returns_bind [OF stride_turn_spec [OF Suc.prems(1)]])
    fix c :: nat and s1 :: "'a kstride_scheme"
    assume a: "c \<in> S \<and> stride_inv S s1 \<and> st_stride s1 = st_stride s \<and>
      st_pass s1 = (st_pass s)[c := st_pass s ! c + st_stride s ! c] \<and> st_usage s1 = (st_usage s)[c := st_usage s ! c + 1]"
    have l: "length (st_pass s) = NPROC" "length (st_usage s) = NPROC" "c < NPROC" "unat (st_stride s ! c) \<le> 10000"
      using Suc.prems(1) a by (auto simp: stride_inv_def)
    have "unat (st_pass s ! c) + Suc n * 10000 < 2 ^ 31" using Suc.prems(2) a by blast
    then have "unat (st_pass s ! c + st_stride s ! c) = unat (st_pass s ! c) + unat (st_stride s ! c)"
      using l(4) by (intro unat_add_lem [THEN iffD1]) simp
    then have p: "unat (st_pass s1 ! i) = unat (st_pass s ! i) + (if i = c then unat (st_stride s ! i) else 0)"
      and u: "st_usage s1 ! i = st_usage s ! i + (if i = c then 1 else 0)" for i
      using a l by (auto simp: nth_list_update)
    have "\<forall>i \<in> S. unat (st_pass s1 ! i) + n * 10000 < 2 ^ 31" using Suc.prems(2) p l(4) by fastforce
    then have ih: "returns (stride_turns n s1) (\<lambda>cs t. length cs = n \<and> set cs \<subseteq> S \<and> stride_inv S t \<and> st_stride t = st_stride s1 \<and>
      (\<forall>i \<in> S. unat (st_pass t ! i) = unat (st_pass s1 ! i) + count_list cs i * unat (st_stride s1 ! i) \<and>
        st_usage t ! i = st_usage s1 ! i + of_nat (count_list cs i)))" using a by (intro Suc.IH) auto
    have a': "c \<in> S" "st_stride s1 = st_stride s" using a by auto
    show "returns (and_then (stride_turns n s1) (\<lambda>cs s. Ret (c # cs) s)) (\<lambda>cs t. length cs = Suc n \<and> set cs \<subseteq> S \<and> stride_inv S t \<and>
      st_stride t = st_stride s \<and> (\<forall>i \<in> S. unat (st_pass t ! i) = unat (st_pass s ! i) + count_list cs i * unat (st_stride s ! i) \<and>
        st_usage t ! i = st_usage s ! i + of_nat (count_list cs i)))"
      by (rule returns_bind [OF ih]) (use a' in \<open>auto simp: p u\<close>)
  qed simp
qed simp

section \<open>Properties\<close>

text \<open>C14: proportional share.  Let exactly the processes of \<open>S\<close> be runnable, let them compute without blocking, with strides of
  at most 10000, and let them all start with the same pass.  As long as no pass can reach \<^verbatim>\<open>2 ^ 31\<close>, every turn of the
  scheduler returns, and after \<open>n\<close> turns the runs a process has had, times its stride, differ from those of any other by at
  most one stride: the processor is divided in proportion to the tickets.  The usage counters count exactly the runs.\<close>

theorem stride_share:
  assumes "stride_inv S s" and "\<forall>i \<in> S. st_pass s ! i = p" and "unat p + n * 10000 < 2 ^ 31"
  shows "returns (stride_turns n s) (\<lambda>cs t. length cs = n \<and> set cs \<subseteq> S \<and>
    (\<forall>i \<in> S. \<forall>j \<in> S. count_list cs i * unat (st_stride s ! i) \<le> count_list cs j * unat (st_stride s ! j) + unat (st_stride s ! i)) \<and>
    (\<forall>i \<in> S. st_usage t ! i = st_usage s ! i + of_nat (count_list cs i)))"
proof -
  have "\<forall>i \<in> S. unat (st_pass s ! i) + n * 10000 < 2 ^ 31" using assms(2,3) by auto
  from stride_turns_spec [OF assms(1) this] show ?thesis
  proof (rule returns_mono)
    fix cs :: "nat list" and t :: "'a kstride_scheme"
    assume a: "length cs = n \<and> set cs \<subseteq> S \<and> stride_inv S t \<and> st_stride t = st_stride s \<and>
      (\<forall>i \<in> S. unat (st_pass t ! i) = unat (st_pass s ! i) + count_list cs i * unat (st_stride s ! i) \<and>
        st_usage t ! i = st_usage s ! i + of_nat (count_list cs i))"
    then have p: "\<forall>i \<in> S. unat (st_pass t ! i) = unat p + count_list cs i * unat (st_stride s ! i)" using assms(2) by simp
    have "stride_inv S t" "st_stride t = st_stride s" using a by auto
    then have le: "unat (st_pass t ! i) \<le> unat (st_pass t ! j) + unat (st_stride s ! i)" if "i \<in> S" "j \<in> S" for i j
      using that by (simp add: stride_inv_def)
    have "\<forall>i \<in> S. \<forall>j \<in> S. count_list cs i * unat (st_stride s ! i) \<le> count_list cs j * unat (st_stride s ! j) + unat (st_stride s ! i)"
    proof (intro ballI)
      fix i j assume ij: "i \<in> S" "j \<in> S"
      show "count_list cs i * unat (st_stride s ! i) \<le> count_list cs j * unat (st_stride s ! j) + unat (st_stride s ! i)"
        using le [OF ij] p [rule_format, OF ij(1)] p [rule_format, OF ij(2)] by linarith
    qed
    then show "length cs = n \<and> set cs \<subseteq> S \<and>
      (\<forall>i \<in> S. \<forall>j \<in> S. count_list cs i * unat (st_stride s ! i) \<le> count_list cs j * unat (st_stride s ! j) + unat (st_stride s ! i)) \<and>
      (\<forall>i \<in> S. st_usage t ! i = st_usage s ! i + of_nat (count_list cs i))" using a by blast
  qed
qed

text \<open>Two processes with one and two tickets.\<close>

definition demo_stride :: kstride where
  "demo_stride = kproc.extend (bare_proc\<lparr>procs := (replicate NPROC zero_proc)[2 := zero_proc\<lparr>p_state := RUNNABLE, p_pgdir := 0x1000\<rparr>,
       5 := zero_proc\<lparr>p_state := RUNNABLE, p_pgdir := 0x2000\<rparr>]\<rparr>)
     (kstride.fields (replicate NPROC 1) (replicate NPROC 0) ((replicate NPROC (stride_of 1))[5 := stride_of 2]) (replicate NPROC 0) None)"

lemma demo_stride_simps:
  "held demo_stride = {}" "st_pass demo_stride = replicate NPROC 0" "st_usage demo_stride = replicate NPROC 0"
  "st_stride demo_stride = (replicate NPROC 10000)[5 := 5000]"
  "procs demo_stride = (replicate NPROC zero_proc)[2 := zero_proc\<lparr>p_state := RUNNABLE, p_pgdir := 0x1000\<rparr>,
       5 := zero_proc\<lparr>p_state := RUNNABLE, p_pgdir := 0x2000\<rparr>]"
proof -
  have "stride_of 1 = 10000" "stride_of 2 = 5000" by code_simp+
  then show "st_stride demo_stride = (replicate NPROC 10000)[5 := 5000]" by (simp add: demo_stride_def kproc.defs kstride.defs)
qed (simp_all add: demo_stride_def kproc.defs kstride.defs bare_proc_simps)

theorem stride_share_witness:
  "returns (stride_turns 200000 demo_stride) (\<lambda>cs t. length cs = 200000 \<and> set cs \<subseteq> {2, 5} \<and>
     count_list cs 5 * 5000 \<le> count_list cs 2 * 10000 + 5000 \<and> count_list cs 2 * 10000 \<le> count_list cs 5 * 5000 + 10000)"
proof -
  have "stride_inv {2, 5} demo_stride"
    by (auto simp: stride_inv_def demo_stride_simps NPROC_slots nth_list_update zero_proc_def)
  moreover have "\<forall>i \<in> {2, 5}. st_pass demo_stride ! i = 0" by (simp add: demo_stride_simps NPROC_def)
  ultimately have "returns (stride_turns 200000 demo_stride) (\<lambda>cs t. length cs = 200000 \<and> set cs \<subseteq> {2, 5} \<and>
    (\<forall>i \<in> {2, 5}. \<forall>j \<in> {2, 5}. count_list cs i * unat (st_stride demo_stride ! i) \<le> count_list cs j * unat (st_stride demo_stride ! j) + unat (st_stride demo_stride ! i)) \<and>
    (\<forall>i \<in> {2, 5}. st_usage t ! i = st_usage demo_stride ! i + of_nat (count_list cs i)))" by (rule stride_share) simp
  then show ?thesis by (rule returns_mono) (auto simp: demo_stride_simps NPROC_def)
qed

lemma stride_scan_none: "\<forall>(st, pass) \<in> set ps. st \<noteq> RUNNABLE \<Longrightarrow> stride_scan ps i c m = c"
  by (induction ps i c m rule: stride_scan.induct) auto

text \<open>C33: when no process is runnable the scheduler does not wait: it switches to the process that ran last, which may be asleep or
  a zombie, and makes it running.\<close>

theorem stride_runs_sleeper:
  assumes "\<forall>p \<in> set (procs s). p_state p \<noteq> RUNNABLE" and "st_current s = Some c" and "c < length (procs s)"
    and "p_pgdir (proc_at c s) \<noteq> 0" and "held s = {}"
  shows "returns (stride_dispatch s) (\<lambda>d t. d = c \<and> p_state (proc_at c t) = RUNNING \<and> cur t = Some c)"
proof -
  have "stride_scan (zip (map p_state (procs s)) (st_pass s)) 0 (st_current s) (- 1) = st_current s"
    using assms(1) by (intro stride_scan_none) (fastforce dest!: set_zip_leftD)
  then show ?thesis using assms(2-)
    by (simp add: stride_dispatch_def lk_acquire_def switchuvm_def Let_def upd_proc_def)
qed

theorem stride_runs_sleeper_witness:
  "returns (stride_dispatch (demo_stride\<lparr>procs := (replicate NPROC zero_proc)[2 := zero_proc\<lparr>p_state := SLEEPING, p_pgdir := 0x1000\<rparr>],
       st_current := Some 2\<rparr>)) (\<lambda>d t. d = 2 \<and> p_state (proc_at 2 t) = RUNNING \<and> cur t = Some 2)"
  by (rule stride_runs_sleeper)
    (auto simp: demo_stride_simps NPROC_slots zero_proc_def dest!: set_update_subset_insert [THEN subsetD])

end
