(* ===== verification/Lfs.thy ===== *)
theory Lfs
  imports CString
begin

text \<open>
  The file system of project 6: \<^verbatim>\<open>src/6/libfsi.c\<close> on the layout of \<^verbatim>\<open>src/6/lfsi.h\<close>.

  The file system lives in one file of the host, its image: a checkpoint region of 1028 bytes at the front, and a log
  behind it to which blocks, inodes and chunks of the inode map are only ever appended.  The state is the image with the
  offset of the descriptor \<^verbatim>\<open>fsid\<close> and the two global variables, the checkpoint region \<^verbatim>\<open>cr\<close> and the inode map
  \<^verbatim>\<open>inodes\<close>.  Numbers are 32-bit words; \<^verbatim>\<open>-1\<close> is the largest one.

  The calls of the host are modelled as POSIX describes them: a seek to a negative offset fails and leaves the offset, a
  read returns what there is, and writing behind the end fills the gap with zeros; a write that succeeds is complete.  Which calls of \<^verbatim>\<open>write\<close> fail is a
  parameter (\<open>wfails\<close>, by the number of the call); \<open>wlog\<close> records the writes in order, so that an
  interruption after any of them can be described.  What local arrays contain before they are set is the parameter
  \<open>junk\<close>.  An index outside an array is \<open>Panic\<close>.  Output for debugging is left out, with the reads it makes of
  \<^verbatim>\<open>inodes\<close> before the index is checked; \<^verbatim>\<open>fsync\<close> has no effect on the image, and \<^verbatim>\<open>open\<close> and \<^verbatim>\<open>close\<close> succeed.
\<close>

section \<open>Layout: lfsi.h\<close>

definition LFS_BLOCK_SIZE :: nat where "LFS_BLOCK_SIZE = 4096"
definition LFS_NDIRECT :: nat where "LFS_NDIRECT = 14"
definition IMAP_CHUNK_SIZE :: nat where "IMAP_CHUNK_SIZE = 16"
definition LFS_DIRECTORY :: uint where "LFS_DIRECTORY = 0"
definition LFS_REGULAR_FILE :: uint where "LFS_REGULAR_FILE = 1"
definition NINODES :: nat where "NINODES = 4096"
definition NCHUNKS :: nat where "NCHUNKS = 256"
definition CR_SIZE :: nat where "CR_SIZE = 1028"
definition INODE_SIZE :: nat where "INODE_SIZE = 64"
definition CHUNK_BYTES :: nat where "CHUNK_BYTES = 64"
definition NENTRIES :: nat where "NENTRIES = 128"

lemmas lfs_consts = LFS_BLOCK_SIZE_def LFS_NDIRECT_def IMAP_CHUNK_SIZE_def NINODES_def NCHUNKS_def CR_SIZE_def
  INODE_SIZE_def CHUNK_BYTES_def NENTRIES_def

record inode_t =
  i_size :: uint
  i_type :: uint
  i_direct :: "uint list"

definition enc_inode :: "inode_t \<Rightarrow> byte list" where
  "enc_inode n = enc_uints (i_size n # i_type n # i_direct n)"

definition dec_inode :: "byte list \<Rightarrow> inode_t" where
  "dec_inode bs = (let w = dec_uints (2 + LFS_NDIRECT) bs in \<lparr>i_size = w ! 0, i_type = w ! 1, i_direct = drop 2 w\<rparr>)"

definition inode_ok :: "inode_t \<Rightarrow> bool" where
  "inode_ok n \<longleftrightarrow> length (i_direct n) = LFS_NDIRECT"

interpretation ino: codec enc_inode dec_inode inode_ok INODE_SIZE
  by unfold_locales (simp_all add: enc_inode_def dec_inode_def inode_ok_def lfs_consts Let_def)

text \<open>The checkpoint region: the end of the log and the places of the chunks of the inode map.\<close>

record cr_t =
  cr_end :: uint
  cr_chunks :: "uint list"

definition enc_cr :: "cr_t \<Rightarrow> byte list" where
  "enc_cr c = enc_uints (cr_end c # cr_chunks c)"

definition dec_cr :: "byte list \<Rightarrow> cr_t" where
  "dec_cr bs = (let w = dec_uints (1 + NCHUNKS) bs in \<lparr>cr_end = w ! 0, cr_chunks = drop 1 w\<rparr>)"

definition cr_ok :: "cr_t \<Rightarrow> bool" where
  "cr_ok c \<longleftrightarrow> length (cr_chunks c) = NCHUNKS"

interpretation crc: codec enc_cr dec_cr cr_ok CR_SIZE
  by unfold_locales (simp_all add: enc_cr_def dec_cr_def cr_ok_def lfs_consts Let_def)

text \<open>Entries of a directory block: a name of 28 bytes and an inode number.\<close>

definition ent_inum :: "byte list \<Rightarrow> nat \<Rightarrow> uint" where
  "ent_inum dir i = of_le32 (chunk dir (i * 32 + 28) 4)"

definition set_ent_inum :: "byte list \<Rightarrow> nat \<Rightarrow> uint \<Rightarrow> byte list" where
  "set_ent_inum dir i x = put_at dir (i * 32 + 28) (le32 x)"

definition set_ent_name :: "byte list \<Rightarrow> nat \<Rightarrow> byte list \<Rightarrow> byte list" where
  "set_ent_name dir i name = put_at dir (i * 32) (strcpy_out name)"

section \<open>State and host calls\<close>

record lfs =
  img :: "byte list"
  fpos :: nat
  cr :: cr_t
  inodes :: "uint list"
  wfails :: "nat \<Rightarrow> bool"
  wlog :: "(nat \<times> byte list) list"
  wcalls :: nat

definition lseek :: "uint \<Rightarrow> lfs \<Rightarrow> lfs" where
  "lseek off s = (if sint off < 0 then s else s\<lparr>fpos := unat off\<rparr>)"

definition host_read :: "nat \<Rightarrow> lfs \<Rightarrow> byte list \<times> lfs" where
  "host_read n s = (let bs = chunk (img s) (fpos s) n in (bs, s\<lparr>fpos := fpos s + length bs\<rparr>))"

definition write_bytes :: "byte list \<Rightarrow> nat \<Rightarrow> byte list \<Rightarrow> byte list" where
  "write_bytes im pos bs = put_at (im @ replicate (pos - length im) 0) pos bs"

text \<open>The result says whether the call succeeded.\<close>

definition host_write :: "byte list \<Rightarrow> lfs \<Rightarrow> (bool, lfs) outcome" where
  "host_write bs s =
     (let s' = s\<lparr>wcalls := wcalls s + 1\<rparr> in
      if wfails s (wcalls s) then Ret False s'
      else Ret True (s'\<lparr>img := write_bytes (img s) (fpos s) bs, fpos := fpos s + length bs, wlog := wlog s @ [(fpos s, bs)]\<rparr>))"

text \<open>\<^verbatim>\<open>if(write(...) < 0) return -1\<close>.\<close>

definition write_or_fail :: "byte list \<Rightarrow> (lfs \<Rightarrow> (uint, lfs) outcome) \<Rightarrow> lfs \<Rightarrow> (uint, lfs) outcome" where
  "write_or_fail bs f s = and_then (host_write bs s) (\<lambda>ok s. if ok then f s else Ret (- 1) s)"

section \<open>Inodes and blocks\<close>

text \<open>\<open>None\<close> is the result \<^verbatim>\<open>-1\<close>.\<close>

definition get_inode :: "byte list \<Rightarrow> uint \<Rightarrow> lfs \<Rightarrow> (inode_t option, lfs) outcome" where
  "get_inode junk inum s =
     (if sint inum < 0 then Ret None s
      else if NINODES \<le> unat inum then Panic ''inodes out of range''
      else if inodes s ! unat inum = - 1 then Ret None s
      else
        case host_read INODE_SIZE (lseek (inodes s ! unat inum) s) of (bs, s) \<Rightarrow>
        Ret (Some (dec_inode (bs @ drop (length bs) junk))) s)"

definition get_block :: "inode_t \<Rightarrow> byte list \<Rightarrow> uint \<Rightarrow> lfs \<Rightarrow> (byte list option, lfs) outcome" where
  "get_block node buffer block s =
     (if 13 < sint block then Ret None s
      else if sint block < 0 then Panic ''direct out of range''
      else
        case host_read LFS_BLOCK_SIZE (lseek (i_direct node ! unat block) s) of (bs, s) \<Rightarrow>
        Ret (Some (put_at buffer 0 bs)) s)"

section \<open>Creating and loading an image\<close>

definition fsi_build :: "byte list \<Rightarrow> lfs \<Rightarrow> (unit, lfs) outcome" where
  "fsi_build junk s =
     (let dir = take (NENTRIES * 32) junk;
          dir = set_ent_inum (set_ent_name dir 0 (bytes_of ''.'')) 0 0;
          dir = set_ent_inum (set_ent_name dir 1 (bytes_of ''..'')) 1 0;
          dir = fold (\<lambda>i dir. set_ent_inum dir i (- 1)) [2..<NENTRIES] dir;
          pos = of_nat CR_SIZE;
          s = lseek pos s in
      and_then (host_write dir s) (\<lambda>_ s.
      let root = \<lparr>i_size = of_nat LFS_BLOCK_SIZE, i_type = LFS_DIRECTORY,
                  i_direct = pos # replicate (LFS_NDIRECT - 1) (- 1)\<rparr>;
          pos = pos + of_nat (NENTRIES * 32) in
      and_then (host_write (enc_inode root) s) (\<lambda>_ s.
      let s = s\<lparr>inodes := pos # replicate (NINODES - 1) (- 1)\<rparr>;
          pos = pos + of_nat INODE_SIZE;
          chunks = pos # replicate (NCHUNKS - 1) (- 1) in
      and_then (host_write (enc_uints (take 16 (inodes s))) s) (\<lambda>_ s.
      let pos = pos + of_nat CHUNK_BYTES;
          s = lseek 0 (s\<lparr>cr := \<lparr>cr_end = pos, cr_chunks = chunks\<rparr>\<rparr>) in
      and_then (host_write (enc_cr (cr s)) s) (\<lambda>_ s. Ret () s)))))"

text \<open>The inode map as it is read from the chunks; a chunk that is cut off leaves the rest as it was.\<close>

definition load_chunk :: "nat \<Rightarrow> lfs \<Rightarrow> lfs" where
  "load_chunk i s =
     (if cr_chunks (cr s) ! i \<noteq> - 1 then
        case host_read CHUNK_BYTES (lseek (cr_chunks (cr s) ! i) s) of (bs, s) \<Rightarrow>
        let old = enc_uints (chunk (inodes s) (i * 16) 16) in
        s\<lparr>inodes := put_at (inodes s) (i * 16) (dec_uints 16 (put_at old 0 bs))\<rparr>
      else s\<lparr>inodes := put_at (inodes s) (i * 16) (replicate 16 (- 1))\<rparr>)"

definition fsi_load :: "lfs \<Rightarrow> (unit, lfs) outcome" where
  "fsi_load s =
     (case host_read CR_SIZE (lseek 0 s) of (bs, s) \<Rightarrow>
      if length bs \<noteq> CR_SIZE then Panic ''assert''
      else Ret () (fold load_chunk [0..<NCHUNKS] (s\<lparr>cr := dec_cr bs\<rparr>)))"

text \<open>\<open>existing\<close> says whether the file could be opened or had to be made.\<close>

definition fsi_init :: "bool \<Rightarrow> byte list \<Rightarrow> lfs \<Rightarrow> (unit, lfs) outcome" where
  "fsi_init existing junk s = (if existing then fsi_load s else fsi_build junk s)"

section \<open>Operations\<close>

text \<open>The first entry of the block with the name, and its inode number.\<close>

definition find_name :: "byte list \<Rightarrow> byte list \<Rightarrow> nat option" where
  "find_name dir name = find (\<lambda>i. strcmp (drop (i * 32) dir) name = 0) [0..<NENTRIES]"

fun lookup_loop :: "inode_t \<Rightarrow> byte list \<Rightarrow> byte list \<Rightarrow> nat list \<Rightarrow> lfs \<Rightarrow> (uint, lfs) outcome" where
  "lookup_loop node dir name [] s = Ret (- 1) s"
| "lookup_loop node dir name (b # bs) s =
     and_then (get_block node dir (of_nat b) s) (\<lambda>r s.
     case r of None \<Rightarrow> Ret (- 1) s
     | Some dir \<Rightarrow>
         (case find_name dir name of Some i \<Rightarrow> Ret (ent_inum dir i) s
          | None \<Rightarrow> lookup_loop node dir name bs s))"

definition fsi_lookup :: "(nat \<Rightarrow> byte list) \<Rightarrow> uint \<Rightarrow> byte list \<Rightarrow> lfs \<Rightarrow> (uint, lfs) outcome" where
  "fsi_lookup junk pinum name s =
     and_then (get_inode (junk 0) pinum s) (\<lambda>r s.
     case r of None \<Rightarrow> Ret (- 1) s
     | Some node \<Rightarrow>
         if i_type node \<noteq> LFS_DIRECTORY then Ret (- 1) s
         else lookup_loop node (take LFS_BLOCK_SIZE (junk 1)) name [0..<LFS_NDIRECT] s)"

definition fsi_stat :: "(nat \<Rightarrow> byte list) \<Rightarrow> uint \<Rightarrow> lfs \<Rightarrow> ((uint \<times> uint) option, lfs) outcome" where
  "fsi_stat junk inum s =
     and_then (get_inode (junk 0) inum s) (\<lambda>r s. Ret (map_option (\<lambda>n. (i_type n, i_size n)) r) s)"

text \<open>The chunk of the inode map that has the entry of an inode.\<close>

definition imap_chunk :: "uint \<Rightarrow> lfs \<Rightarrow> byte list" where
  "imap_chunk inum s = enc_uints (chunk (inodes s) (unat inum div IMAP_CHUNK_SIZE * IMAP_CHUNK_SIZE) IMAP_CHUNK_SIZE)"

definition set_chunk :: "uint \<Rightarrow> uint \<Rightarrow> lfs \<Rightarrow> lfs" where
  "set_chunk inum pos s = s\<lparr>cr := (cr s)\<lparr>cr_chunks := (cr_chunks (cr s))[unat inum div IMAP_CHUNK_SIZE := pos]\<rparr>\<rparr>"

definition set_inode_pos :: "uint \<Rightarrow> uint \<Rightarrow> lfs \<Rightarrow> lfs" where
  "set_inode_pos inum pos s = s\<lparr>inodes := (inodes s)[unat inum := pos]\<rparr>"

text \<open>The end of every operation that changes something: the log ends at \<open>pos\<close>, and the checkpoint region is written.\<close>

definition checkpoint :: "uint \<Rightarrow> lfs \<Rightarrow> (uint, lfs) outcome" where
  "checkpoint pos s =
     (let s = lseek 0 (s\<lparr>cr := (cr s)\<lparr>cr_end := pos\<rparr>\<rparr>) in write_or_fail (enc_cr (cr s)) (\<lambda>s. Ret 0 s) s)"

text \<open>The inode after block \<open>block\<close> has been written at \<open>pos\<close>.\<close>

definition update_node :: "uint \<Rightarrow> uint \<Rightarrow> inode_t \<Rightarrow> inode_t" where
  "update_node block pos node =
     (let node = (if i_direct node ! unat block = - 1 \<and> sint (i_size node) < sint block * 4096
                  then node\<lparr>i_size := block * 4096\<rparr> else node) in
      node\<lparr>i_direct := (i_direct node)[unat block := pos]\<rparr>)"

definition fsi_write :: "(nat \<Rightarrow> byte list) \<Rightarrow> uint \<Rightarrow> byte list \<Rightarrow> uint \<Rightarrow> lfs \<Rightarrow> (uint, lfs) outcome" where
  "fsi_write junk inum buffer block s =
     and_then (get_inode (junk 0) inum s) (\<lambda>r s.
     case r of None \<Rightarrow> Ret (- 1) s
     | Some node \<Rightarrow>
         if i_type node \<noteq> LFS_REGULAR_FILE then Ret (- 1) s
         else if 13 < sint block then Ret (- 1) s
         else
           let pos = cr_end (cr s); s = s\<lparr>fpos := unat (cr_end (cr s))\<rparr> in
           write_or_fail buffer (\<lambda>s.
           if sint block < 0 then Panic ''direct out of range''
           else
             let pos = pos + of_nat LFS_BLOCK_SIZE;
                 s = set_inode_pos inum pos s in
             write_or_fail (enc_inode (update_node block (cr_end (cr s)) node)) (\<lambda>s.
             let pos = pos + of_nat INODE_SIZE; s = set_chunk inum pos s in
             write_or_fail (imap_chunk inum s) (\<lambda>s. checkpoint (pos + of_nat CHUNK_BYTES) s) s) s) s)"

definition fsi_read :: "(nat \<Rightarrow> byte list) \<Rightarrow> uint \<Rightarrow> byte list \<Rightarrow> uint \<Rightarrow> lfs \<Rightarrow> (byte list option, lfs) outcome" where
  "fsi_read junk inum buffer block s =
     and_then (get_inode (junk 0) inum s) (\<lambda>r s.
     case r of None \<Rightarrow> Ret None s | Some node \<Rightarrow> get_block node buffer block s)"

text \<open>Search the blocks of a directory for an entry; the result is the block that was read last, the number of the block in
  which the entry is, and the entry.\<close>

fun entry_loop :: "(byte list \<Rightarrow> nat option) \<Rightarrow> inode_t \<Rightarrow> byte list \<Rightarrow> nat list \<Rightarrow> lfs \<Rightarrow>
    ((byte list \<times> (nat \<times> nat) option) option, lfs) outcome" where
  "entry_loop entry node dir [] s = Ret (Some (dir, None)) s"
| "entry_loop entry node dir (b # bs) s =
     and_then (get_block node dir (of_nat b) s) (\<lambda>r s.
     case r of None \<Rightarrow> Ret None s
     | Some dir \<Rightarrow>
         (case entry dir of Some i \<Rightarrow> Ret (Some (dir, Some (b, i))) s
          | None \<Rightarrow> entry_loop entry node dir bs s))"

text \<open>The chunk of the parent is written when it is not the one of the child.  The position is advanced only if this write
  fails.\<close>

definition write_parent_chunk :: "uint \<Rightarrow> uint \<Rightarrow> uint \<Rightarrow> lfs \<Rightarrow> (uint, lfs) outcome" where
  "write_parent_chunk pinum inum pos s =
     (if unat pinum div IMAP_CHUNK_SIZE \<noteq> unat inum div IMAP_CHUNK_SIZE then
        let s = set_chunk pinum pos s in
        and_then (host_write (imap_chunk pinum s) s) (\<lambda>ok s. Ret (if ok then pos else pos + of_nat CHUNK_BYTES) s)
      else Ret pos s)"

definition dir_not_empty :: "byte list \<Rightarrow> uint \<Rightarrow> uint \<Rightarrow> bool" where
  "dir_not_empty dir cinum pinum \<longleftrightarrow> list_ex (\<lambda>i. ent_inum dir i \<noteq> cinum \<or> ent_inum dir i \<noteq> pinum) [0..<NENTRIES]"

definition fsi_unlink :: "(nat \<Rightarrow> byte list) \<Rightarrow> uint \<Rightarrow> byte list \<Rightarrow> lfs \<Rightarrow> (uint, lfs) outcome" where
  "fsi_unlink junk pinum name s =
     and_then (get_inode (junk 0) pinum s) (\<lambda>r s.
     case r of None \<Rightarrow> Ret (- 1) s
     | Some pnode \<Rightarrow>
       and_then (fsi_lookup junk pinum name s) (\<lambda>cinum s.
       if sint cinum < 0 then Ret (- 1) s
       else
         and_then (get_inode (junk 2) cinum s) (\<lambda>r s.
         let cnode = (case r of None \<Rightarrow> dec_inode (junk 2) | Some n \<Rightarrow> n) in
         and_then
           (if i_type cnode = LFS_DIRECTORY then
              if 4096 < sint (i_size cnode) then Ret True s
              else
                and_then (get_block cnode (take LFS_BLOCK_SIZE (junk 3)) 0 s) (\<lambda>r s.
                Ret (dir_not_empty (case r of None \<Rightarrow> junk 3 | Some dir \<Rightarrow> dir) cinum pinum) s)
            else Ret False s) (\<lambda>keep s.
         if keep then Ret (- 1) s
         else
           and_then (entry_loop (\<lambda>dir. find_name dir name) pnode (take LFS_BLOCK_SIZE (junk 4)) [0..<LFS_NDIRECT] s) (\<lambda>r s.
           case r of None \<Rightarrow> Ret (- 1) s
           | Some (dir, found) \<Rightarrow>
             let pos = cr_end (cr s);
                 dir = (case found of None \<Rightarrow> dir | Some (_, i) \<Rightarrow> set_ent_inum dir i (- 1));
                 s = lseek pos s in
             write_or_fail dir (\<lambda>s.
             case found of None \<Rightarrow> Panic ''direct out of range''
             | Some (b, i) \<Rightarrow>
               let pnode = pnode\<lparr>i_direct := (i_direct pnode)[b := (if i = 0 then - 1 else pos)]\<rparr>;
                   pos = pos + of_nat LFS_BLOCK_SIZE in
               write_or_fail (enc_inode pnode) (\<lambda>s.
               let s = set_inode_pos cinum (- 1) (set_inode_pos pinum pos s);
                   pos = pos + of_nat INODE_SIZE in
               and_then (write_parent_chunk pinum cinum pos s) (\<lambda>pos s.
               let s = set_chunk cinum pos s in
               write_or_fail (imap_chunk cinum s) (\<lambda>s. checkpoint (pos + of_nat CHUNK_BYTES) s) s)) s) s)))))"

definition fsi_creat :: "(nat \<Rightarrow> byte list) \<Rightarrow> uint \<Rightarrow> uint \<Rightarrow> byte list \<Rightarrow> lfs \<Rightarrow> (uint, lfs) outcome" where
  "fsi_creat junk pinum type name s =
     and_then (get_inode (junk 5) pinum s) (\<lambda>r s.
     case r of None \<Rightarrow> Ret (- 1) s
     | Some pnode \<Rightarrow>
       if 27 < strlen name then Ret (- 1) s
       else
         and_then (fsi_lookup junk pinum name s) (\<lambda>i s.
         and_then (if 0 < sint i then fsi_unlink junk pinum name s else Ret 0 s) (\<lambda>_ s.
         case find (\<lambda>i. inodes s ! i = - 1) [0..<NINODES] of None \<Rightarrow> Ret (- 1) s
         | Some n \<Rightarrow>
           let inum = of_nat n :: uint in
           and_then (entry_loop (\<lambda>dir. find (\<lambda>i. ent_inum dir i = - 1) [0..<NENTRIES]) pnode (take LFS_BLOCK_SIZE (junk 6))
             [0..<LFS_NDIRECT] s) (\<lambda>r s.
           case r of None \<Rightarrow> Ret (- 1) s
           | Some (dir, None) \<Rightarrow> Ret (- 1) s
           | Some (dir, Some (b, i)) \<Rightarrow>
             let dir = set_ent_inum (set_ent_name dir i name) i inum;
                 pos = cr_end (cr s);
                 s = s\<lparr>fpos := unat (cr_end (cr s))\<rparr> in
             write_or_fail dir (\<lambda>s.
             let pos = pos + of_nat LFS_BLOCK_SIZE;
                 pnode = (if sint (i_size pnode) < int b * 4096 then pnode\<lparr>i_size := of_nat b * 4096\<rparr> else pnode);
                 s = set_inode_pos pinum pos s;
                 pnode = pnode\<lparr>i_direct := (i_direct pnode)[b := cr_end (cr s)]\<rparr> in
             write_or_fail (enc_inode pnode) (\<lambda>s.
             and_then (write_parent_chunk pinum inum (pos + of_nat INODE_SIZE) s) (\<lambda>pos s.
             let child = \<lparr>i_size = 0, i_type = type, i_direct = replicate LFS_NDIRECT (- 1)\<rparr>;
                 cdir = take LFS_BLOCK_SIZE (junk 7);
                 cdir = set_ent_inum (set_ent_name cdir 0 (bytes_of ''.'')) 0 inum;
                 cdir = set_ent_inum (set_ent_name cdir 1 (bytes_of ''..'')) 1 pinum in
             and_then (if type = LFS_DIRECTORY then host_write cdir s else Ret True s) (\<lambda>ok s.
             if \<not> ok then Ret (- 1) s
             else
               let child = (if type = LFS_DIRECTORY
                     then child\<lparr>i_direct := (i_direct child)[b := pos], i_size := 64\<rparr> else child);
                   pos = (if type = LFS_DIRECTORY then pos + of_nat LFS_BLOCK_SIZE else pos);
                   s = set_inode_pos inum pos s in
               write_or_fail (enc_inode child) (\<lambda>s.
               let pos = pos + of_nat INODE_SIZE; s = set_chunk inum pos s in
               write_or_fail (imap_chunk inum s) (\<lambda>s. checkpoint (pos + of_nat CHUNK_BYTES) s) s) s))) s) s))))"

section \<open>The server\<close>

text \<open>The messages of \<^verbatim>\<open>src/6/MFS_Msg.h\<close> and the handlers of \<^verbatim>\<open>src/6/server.c\<close>.  The global \<^verbatim>\<open>reply\<close> keeps what
  the handlers do not set.  Only as many bytes as a pointer has are copied into it.\<close>

record mfs_msg =
  m_type :: uint
  m_inum :: uint
  m_block :: uint
  m_buffer :: "byte list"

definition MFS_LOOKUP :: uint where "MFS_LOOKUP = 0"
definition MFS_STAT :: uint where "MFS_STAT = 1"
definition MFS_WRITE :: uint where "MFS_WRITE = 2"
definition MFS_READ :: uint where "MFS_READ = 3"
definition MFS_CREAT :: uint where "MFS_CREAT = 4"
definition MFS_UNLINK :: uint where "MFS_UNLINK = 5"
definition MFS_SHUTDOWN :: uint where "MFS_SHUTDOWN = 6"
definition MFS_ERROR :: uint where "MFS_ERROR = 7"

definition sizeof_ptr :: nat where "sizeof_ptr = 8"

definition reply_bytes :: "nat \<Rightarrow> byte list \<Rightarrow> mfs_msg \<Rightarrow> mfs_msg" where
  "reply_bytes n bs r = r\<lparr>m_buffer := put_at (m_buffer r) 0 (take n bs)\<rparr>"

definition Server_Error :: "mfs_msg \<Rightarrow> mfs_msg" where
  "Server_Error reply = reply\<lparr>m_type := MFS_ERROR, m_inum := - 1\<rparr>"

definition Server_Shutdown :: "mfs_msg \<Rightarrow> mfs_msg" where
  "Server_Shutdown reply = reply\<lparr>m_type := MFS_SHUTDOWN\<rparr>"

definition Server_Lookup :: "(nat \<Rightarrow> byte list) \<Rightarrow> uint \<Rightarrow> byte list \<Rightarrow> mfs_msg \<Rightarrow> lfs \<Rightarrow> (mfs_msg, lfs) outcome" where
  "Server_Lookup junk pinum name reply s =
     and_then (fsi_lookup junk pinum name s) (\<lambda>i s. Ret (reply\<lparr>m_type := MFS_LOOKUP, m_inum := i\<rparr>) s)"

definition Server_Stat :: "(nat \<Rightarrow> byte list) \<Rightarrow> uint \<Rightarrow> mfs_msg \<Rightarrow> lfs \<Rightarrow> (mfs_msg, lfs) outcome" where
  "Server_Stat junk inum reply s =
     and_then (fsi_stat junk inum s) (\<lambda>r s.
     let reply = reply\<lparr>m_type := MFS_STAT\<rparr> in
     case r of None \<Rightarrow> Ret (reply\<lparr>m_inum := - 1\<rparr>) s
     | Some (ty, sz) \<Rightarrow> Ret (reply_bytes 8 (le32 ty @ le32 sz) (reply\<lparr>m_inum := inum\<rparr>)) s)"

definition Server_Write :: "(nat \<Rightarrow> byte list) \<Rightarrow> uint \<Rightarrow> byte list \<Rightarrow> uint \<Rightarrow> mfs_msg \<Rightarrow> lfs \<Rightarrow> (mfs_msg, lfs) outcome" where
  "Server_Write junk inum buffer block reply s =
     and_then (fsi_write junk inum buffer block s) (\<lambda>r s.
     let reply = reply\<lparr>m_type := MFS_WRITE\<rparr> in
     if sint r < 0 then Ret (reply\<lparr>m_inum := - 1\<rparr>) s
     else Ret (reply_bytes sizeof_ptr buffer (reply\<lparr>m_inum := inum, m_block := block\<rparr>)) s)"

definition Server_Read :: "(nat \<Rightarrow> byte list) \<Rightarrow> uint \<Rightarrow> byte list \<Rightarrow> uint \<Rightarrow> mfs_msg \<Rightarrow> lfs \<Rightarrow> (mfs_msg, lfs) outcome" where
  "Server_Read junk inum buffer block reply s =
     and_then (fsi_read junk inum buffer block s) (\<lambda>r s.
     let reply = reply\<lparr>m_type := MFS_READ\<rparr> in
     case r of None \<Rightarrow> Ret (reply\<lparr>m_inum := - 1\<rparr>) s
     | Some buffer \<Rightarrow> Ret (reply_bytes sizeof_ptr buffer (reply\<lparr>m_inum := inum, m_block := block\<rparr>)) s)"

definition Server_Creat :: "(nat \<Rightarrow> byte list) \<Rightarrow> uint \<Rightarrow> uint \<Rightarrow> byte list \<Rightarrow> mfs_msg \<Rightarrow> lfs \<Rightarrow> (mfs_msg, lfs) outcome" where
  "Server_Creat junk pinum type name reply s =
     and_then (fsi_creat junk pinum type name s) (\<lambda>r s.
     let reply = reply\<lparr>m_type := MFS_CREAT\<rparr> in
     if sint r < 0 then Ret (reply\<lparr>m_inum := - 1\<rparr>) s
     else Ret (reply_bytes sizeof_ptr name (reply\<lparr>m_inum := pinum, m_block := type\<rparr>)) s)"

definition Server_Unlink :: "(nat \<Rightarrow> byte list) \<Rightarrow> uint \<Rightarrow> byte list \<Rightarrow> mfs_msg \<Rightarrow> lfs \<Rightarrow> (mfs_msg, lfs) outcome" where
  "Server_Unlink junk pinum name reply s =
     and_then (fsi_unlink junk pinum name s) (\<lambda>r s.
     let reply = reply\<lparr>m_type := MFS_UNLINK\<rparr> in
     if sint r < 0 then Ret (reply\<lparr>m_inum := - 1\<rparr>) s
     else Ret (reply_bytes sizeof_ptr name (reply\<lparr>m_inum := pinum\<rparr>)) s)"

text \<open>One message; the reply that is left behind (it is not sent).\<close>

definition serve :: "(nat \<Rightarrow> byte list) \<Rightarrow> mfs_msg \<Rightarrow> mfs_msg \<Rightarrow> lfs \<Rightarrow> (mfs_msg, lfs) outcome" where
  "serve junk buf reply s =
     (if m_type buf = MFS_LOOKUP then Server_Lookup junk (m_inum buf) (m_buffer buf) reply s
      else if m_type buf = MFS_STAT then Server_Stat junk (m_inum buf) reply s
      else if m_type buf = MFS_WRITE then Server_Write junk (m_inum buf) (m_buffer buf) (m_block buf) reply s
      else if m_type buf = MFS_READ then Server_Read junk (m_inum buf) (m_buffer buf) (m_block buf) reply s
      else if m_type buf = MFS_CREAT then Server_Creat junk (m_inum buf) (m_block buf) (m_buffer buf) reply s
      else if m_type buf = MFS_UNLINK then Server_Unlink junk (m_inum buf) (m_buffer buf) reply s
      else if m_type buf = MFS_SHUTDOWN then Ret (Server_Shutdown reply) s
      else Ret (Server_Error reply) s)"

section \<open>Writing to the image\<close>

lemma length_write_bytes [simp]: "length (write_bytes im pos bs) = max (length im) (pos + length bs)"
  by (simp add: write_bytes_def put_at_def)

lemma nth_write_bytes:
  "i < max (length im) (pos + length bs) \<Longrightarrow>
     write_bytes im pos bs ! i = (if pos \<le> i \<and> i < pos + length bs then bs ! (i - pos) else if i < length im then im ! i else 0)"
  by (auto simp: write_bytes_def put_at_def nth_append min_def not_less)

lemma chunk_write_same: "n = length bs \<Longrightarrow> chunk (write_bytes im pos bs) pos n = bs"
  by (rule nth_equalityI) (auto simp: nth_chunk nth_write_bytes)

lemma chunk_write_other:
  "off + n \<le> length im \<Longrightarrow> off + n \<le> pos \<or> pos + length bs \<le> off \<Longrightarrow> chunk (write_bytes im pos bs) off n = chunk im off n"
  by (rule nth_equalityI) (auto simp: nth_chunk nth_write_bytes)

lemma take_write: "e \<le> pos \<Longrightarrow> e \<le> length im \<Longrightarrow> take e (write_bytes im pos bs) = take e im"
  by (rule nth_equalityI) (auto simp: nth_write_bytes)

lemma chunk_take_same: "take e im' = take e im \<Longrightarrow> off + n \<le> e \<Longrightarrow> chunk im' off n = chunk im off n"
proof -
  assume "take e im' = take e im" "off + n \<le> e"
  then have "chunk (take e im') off n = chunk (take e im) off n" by simp
  moreover have "n \<le> e - off" using \<open>off + n \<le> e\<close> by simp
  ultimately show ?thesis by (simp add: chunk_def drop_take min_def)
qed

section \<open>The invariant\<close>

definition in_log :: "nat \<Rightarrow> uint \<Rightarrow> lfs \<Rightarrow> bool" where
  "in_log n p s \<longleftrightarrow> CR_SIZE \<le> unat p \<and> unat p + n \<le> unat (cr_end (cr s))"

definition node_at :: "lfs \<Rightarrow> nat \<Rightarrow> inode_t" where
  "node_at s i = dec_inode (chunk (img s) (unat (inodes s ! i)) INODE_SIZE)"

definition chunk_ok :: "lfs \<Rightarrow> nat \<Rightarrow> bool" where
  "chunk_ok s i \<longleftrightarrow>
     (if cr_chunks (cr s) ! i = - 1 then chunk (inodes s) (i * 16) 16 = replicate 16 (- 1)
      else in_log CHUNK_BYTES (cr_chunks (cr s) ! i) s \<and>
        chunk (img s) (unat (cr_chunks (cr s) ! i)) CHUNK_BYTES = enc_uints (chunk (inodes s) (i * 16) 16))"

definition node_ok :: "lfs \<Rightarrow> nat \<Rightarrow> bool" where
  "node_ok s i \<longleftrightarrow> inodes s ! i = - 1 \<or>
     (in_log INODE_SIZE (inodes s ! i) s \<and>
      (\<forall>d \<in> set (i_direct (node_at s i)). d = - 1 \<or> in_log LFS_BLOCK_SIZE d s))"

text \<open>The checkpoint region on disk is the one in memory, everything it leads to lies in the log, and the log is not so long
  that positions become negative.\<close>

definition lfs_ok :: "lfs \<Rightarrow> bool" where
  "lfs_ok s \<longleftrightarrow> cr_ok (cr s) \<and> length (inodes s) = NINODES \<and> CR_SIZE \<le> unat (cr_end (cr s)) \<and>
     unat (cr_end (cr s)) \<le> length (img s) \<and> unat (cr_end (cr s)) < 2 ^ 31 \<and>
     chunk (img s) 0 CR_SIZE = enc_cr (cr s) \<and> (\<forall>i < NCHUNKS. chunk_ok s i) \<and> (\<forall>i < NINODES. node_ok s i)"

text \<open>What the file system contains: the blocks of each inode.\<close>

definition file_block :: "lfs \<Rightarrow> nat \<Rightarrow> nat \<Rightarrow> byte list option" where
  "file_block s i k =
     (if inodes s ! i = - 1 \<or> i_direct (node_at s i) ! k = - 1 then None
      else Some (chunk (img s) (unat (i_direct (node_at s i) ! k)) LFS_BLOCK_SIZE))"

lemma node_at_direct: "length (i_direct (node_at s i)) = LFS_NDIRECT"
  by (simp add: node_at_def dec_inode_def Let_def lfs_consts)

lemma direct_in_log:
  "node_ok s i \<Longrightarrow> inodes s ! i \<noteq> - 1 \<Longrightarrow> k < LFS_NDIRECT \<Longrightarrow> i_direct (node_at s i) ! k \<noteq> - 1 \<Longrightarrow>
     in_log LFS_BLOCK_SIZE (i_direct (node_at s i) ! k) s"
  by (auto simp: node_ok_def node_at_direct)

text \<open>Only the part of the image below the end of the log matters.\<close>

lemma same_below:
  assumes ok: "lfs_ok s" and e: "e = unat (cr_end (cr s))" and t: "take e (img t) = take e (img s)" "e \<le> length (img t)"
    and m: "cr t = cr s" "inodes t = inodes s"
  shows "lfs_ok t" and "i < NINODES \<Longrightarrow> k < LFS_NDIRECT \<Longrightarrow> file_block t i k = file_block s i k"
proof -
  have ch: "chunk (img t) off n = chunk (img s) off n" if "off + n \<le> e" for off n using chunk_take_same [OF t(1) that] .
  have lg: "in_log n p t = in_log n p s" for n p by (simp add: in_log_def m)
  have nd: "node_at t i = node_at s i" if "node_ok s i" "inodes s ! i \<noteq> - 1" for i
    using that ch by (simp add: node_at_def m node_ok_def in_log_def e)
  have "chunk_ok t i = chunk_ok s i" if "chunk_ok s i" for i using that ch by (auto simp: chunk_ok_def lg m in_log_def e)
  moreover have "node_ok t i" if "node_ok s i" for i using that nd by (auto simp: node_ok_def lg m)
  ultimately show "lfs_ok t" using ok ch t e m by (auto simp: lfs_ok_def)
  show "file_block t i k = file_block s i k" if "i < NINODES" "k < LFS_NDIRECT"
  proof (cases "inodes s ! i = - 1")
    case False
    have "node_ok s i" using ok that by (simp add: lfs_ok_def)
    then show ?thesis using False nd direct_in_log [of s i k] that ch by (auto simp: file_block_def m in_log_def e)
  qed (simp add: file_block_def m)
qed

section \<open>Loading\<close>

lemma sint_of_log: "unat (p :: uint) < 2 ^ 31 \<Longrightarrow> \<not> sint p < 0"
  using sint_of_unat [of p] by simp

lemma lseek_log: "unat p < 2 ^ 31 \<Longrightarrow> lseek p s = s\<lparr>fpos := unat p\<rparr>"
  by (simp add: lseek_def sint_of_log)

lemma load_chunk_spec:
  assumes "length (inodes u) = NINODES" and "i < NCHUNKS" and "chunk_ok s i" and "lfs_ok s"
    and "cr u = cr s" and "img u = img s"
  shows "load_chunk i u = u\<lparr>fpos := fpos (load_chunk i u), inodes := put_at (inodes u) (i * 16) (chunk (inodes s) (i * 16) 16)\<rparr>"
proof (cases "cr_chunks (cr s) ! i = - 1")
  case True
  then show ?thesis using assms by (simp add: load_chunk_def chunk_ok_def)
next
  case False
  then have c: "in_log CHUNK_BYTES (cr_chunks (cr s) ! i) s"
    "chunk (img s) (unat (cr_chunks (cr s) ! i)) CHUNK_BYTES = enc_uints (chunk (inodes s) (i * 16) 16)"
    using assms(3) by (simp_all add: chunk_ok_def)
  have "unat (cr_chunks (cr s) ! i) < 2 ^ 31" using c(1) assms(4) by (auto simp: in_log_def lfs_ok_def)
  moreover have "i * 16 + 16 \<le> NINODES" using assms(2) by (simp add: lfs_consts)
  ultimately show ?thesis using False assms c lfs_ok_def
    by (simp add: load_chunk_def lseek_log host_read_def Let_def)
qed

lemma take_put_at_next:
  assumes "k + n \<le> length xs" and "take k xs = take k ys" and "length ys = length xs"
  shows "take (k + n) (put_at xs k (chunk ys k n)) = take (k + n) ys"
proof -
  have "take (k + n) (put_at xs k (chunk ys k n)) = take k ys @ chunk ys k n" using assms by (simp add: put_at_def)
  then show ?thesis by (simp add: chunk_def take_add)
qed

lemma load_chunks_spec:
  assumes "lfs_ok s" and "length (inodes u) = NINODES" and "cr u = cr s" and "img u = img s" and "k \<le> NCHUNKS"
  shows "let v = fold load_chunk [0..<k] u in cr v = cr s \<and> img v = img s \<and> length (inodes v) = NINODES \<and>
    take (k * 16) (inodes v) = take (k * 16) (inodes s) \<and> wfails v = wfails u"
  using assms(5)
proof (induction k)
  case 0
  then show ?case using assms by simp
next
  case (Suc k)
  define v where "v = fold load_chunk [0..<k] u"
  have v: "cr v = cr s" "img v = img s" "length (inodes v) = NINODES" "take (k * 16) (inodes v) = take (k * 16) (inodes s)" "wfails v = wfails u"
    using Suc by (simp_all add: v_def Let_def)
  have k: "k < NCHUNKS" "k * 16 + 16 \<le> NINODES" "length (inodes s) = NINODES" "chunk_ok s k"
    using Suc.prems assms(1) by (simp_all add: lfs_consts lfs_ok_def)
  have l: "load_chunk k v = v\<lparr>fpos := fpos (load_chunk k v), inodes := put_at (inodes v) (k * 16) (chunk (inodes s) (k * 16) 16)\<rparr>"
    using v k assms(1) by (intro load_chunk_spec) auto
  have "take (k * 16 + 16) (put_at (inodes v) (k * 16) (chunk (inodes s) (k * 16) 16)) = take (k * 16 + 16) (inodes s)"
    using v k by (intro take_put_at_next) auto
  moreover have "Suc k * 16 = k * 16 + 16" by simp
  moreover have "fold load_chunk [0..<Suc k] u = load_chunk k v" by (simp add: v_def)
  moreover have "length (chunk (inodes s) (k * 16) 16) = 16" using k by simp
  moreover have "cr (load_chunk k v) = cr v" "img (load_chunk k v) = img v" "wfails (load_chunk k v) = wfails v"
    "inodes (load_chunk k v) = put_at (inodes v) (k * 16) (chunk (inodes s) (k * 16) 16)" by (subst l, simp)+
  ultimately show ?case using v k by (simp add: Let_def add.commute)
qed

lemma fsi_load_spec:
  assumes ok: "lfs_ok s" and e: "e = unat (cr_end (cr s))" and u: "take e (img u) = take e (img s)" "e \<le> length (img u)"
    and n: "length (inodes u) = NINODES"
  shows "returns (fsi_load u) (\<lambda>_ v. lfs_ok v \<and> cr v = cr s \<and> inodes v = inodes s \<and> img v = img u \<and>
    (\<forall>i < NINODES. \<forall>k < LFS_NDIRECT. file_block v i k = file_block s i k))"
proof -
  let ?s = "s\<lparr>img := img u\<rparr>"
  have ok': "lfs_ok ?s" using same_below(1) [OF ok e, of ?s] u by simp
  have "CR_SIZE \<le> e" using ok e by (simp add: lfs_ok_def)
  then have "CR_SIZE \<le> length (img u)" using u(2) by simp
  have "chunk (img u) 0 CR_SIZE = enc_cr (cr s)" "cr_ok (cr s)" using ok' by (auto simp: lfs_ok_def)
  moreover have "lseek 0 u = u\<lparr>fpos := 0\<rparr>" by (simp add: lseek_def)
  ultimately have l: "fsi_load u = Ret () (fold load_chunk [0..<NCHUNKS] (u\<lparr>fpos := CR_SIZE, cr := cr s\<rparr>))"
    using crc.length_enc crc.dec_enc by (simp add: fsi_load_def host_read_def Let_def)
  define v where "v = fold load_chunk [0..<NCHUNKS] (u\<lparr>fpos := CR_SIZE, cr := cr s\<rparr>)"
  have v: "cr v = cr s" "img v = img u" "length (inodes v) = NINODES" "take (NCHUNKS * 16) (inodes v) = take (NCHUNKS * 16) (inodes s)"
    using load_chunks_spec [OF ok', of "u\<lparr>fpos := CR_SIZE, cr := cr s\<rparr>" NCHUNKS] n by (simp_all add: v_def Let_def)
  moreover have "length (inodes s) = NINODES" using ok by (simp add: lfs_ok_def)
  ultimately have "inodes v = inodes s" by (simp add: lfs_consts)
  then show ?thesis using l v same_below [OF ok e, of v] u by (simp add: v_def)
qed

section \<open>fsi_write\<close>

definition new_node :: "lfs \<Rightarrow> uint \<Rightarrow> uint \<Rightarrow> inode_t" where
  "new_node s inum block = update_node block (cr_end (cr s)) (node_at s (unat inum))"

lemma new_node_direct [simp]: "i_direct (new_node s inum block) = (i_direct (node_at s (unat inum)))[unat block := cr_end (cr s)]"
  by (simp add: new_node_def update_node_def Let_def)

lemma dec_uints_append: "n * 4 \<le> length bs \<Longrightarrow> dec_uints n (bs @ xs) = dec_uints n bs"
  by (auto simp: dec_uints_def chunk_append_left)

text \<open>The checkpoint region and the inode map after a write, and the writes to the image.\<close>

definition new_inodes :: "lfs \<Rightarrow> uint \<Rightarrow> uint list" where
  "new_inodes s inum = (inodes s)[unat inum := cr_end (cr s) + 4096]"

definition new_cr :: "lfs \<Rightarrow> uint \<Rightarrow> cr_t" where
  "new_cr s inum = (cr s)\<lparr>cr_chunks := (cr_chunks (cr s))[unat inum div 16 := cr_end (cr s) + 4160], cr_end := cr_end (cr s) + 4224\<rparr>"

definition writes :: "lfs \<Rightarrow> uint \<Rightarrow> byte list \<Rightarrow> uint \<Rightarrow> (nat \<times> byte list) list" where
  "writes s inum buf block =
     (let e = unat (cr_end (cr s)) in
      [(e, buf), (e + 4096, enc_inode (new_node s inum block)),
       (e + 4160, enc_uints (chunk (new_inodes s inum) (unat inum div 16 * 16) 16)), (0, enc_cr (new_cr s inum))])"

definition apply_writes :: "byte list \<Rightarrow> (nat \<times> byte list) list \<Rightarrow> byte list" where
  "apply_writes im ws = foldl (\<lambda>im (pos, bs). write_bytes im pos bs) im ws"

definition write_ready :: "lfs \<Rightarrow> uint \<Rightarrow> byte list \<Rightarrow> uint \<Rightarrow> bool" where
  "write_ready s inum buf block \<longleftrightarrow> lfs_ok s \<and> unat inum < NINODES \<and> inodes s ! unat inum \<noteq> - 1 \<and>
     i_type (node_at s (unat inum)) = LFS_REGULAR_FILE \<and> unat block < LFS_NDIRECT \<and> length buf = LFS_BLOCK_SIZE \<and>
     (\<forall>n. \<not> wfails s n) \<and> unat (cr_end (cr s)) + 4224 < 2 ^ 31"

lemma get_inode_ok:
  assumes "lfs_ok s" and "unat inum < NINODES" and "inodes s ! unat inum \<noteq> - 1"
  shows "get_inode junk inum s = Ret (Some (node_at s (unat inum))) (s\<lparr>fpos := unat (inodes s ! unat inum) + INODE_SIZE\<rparr>)"
proof -
  have "unat inum < 2 ^ 31" using assms(2) by (simp add: lfs_consts)
  have "in_log INODE_SIZE (inodes s ! unat inum) s" using assms by (auto simp: lfs_ok_def node_ok_def)
  then have l: "unat (inodes s ! unat inum) + INODE_SIZE \<le> length (img s)" "unat (inodes s ! unat inum) < 2 ^ 31"
    using assms(1) by (auto simp: in_log_def lfs_ok_def)
  have "length (chunk (img s) (unat (inodes s ! unat inum)) INODE_SIZE) = INODE_SIZE" using l(1) by simp
  then show ?thesis using assms l sint_of_log [OF \<open>unat inum < 2 ^ 31\<close>]
    by (simp add: get_inode_def lseek_log host_read_def Let_def node_at_def dec_inode_def dec_uints_append lfs_consts)
qed

lemma fsi_write_eq:
  assumes r: "write_ready s inum buf block"
  shows "\<exists>t. fsi_write junk inum buf block s = Ret 0 t \<and> img t = apply_writes (img s) (writes s inum buf block) \<and>
    cr t = new_cr s inum \<and> inodes t = new_inodes s inum \<and> wfails t = wfails s \<and> wlog t = wlog s @ writes s inum buf block"
proof -
  have ok: "lfs_ok s" and i: "unat inum < NINODES" "inodes s ! unat inum \<noteq> - 1" using r by (auto simp: write_ready_def)
  have "unat block < 14" using r by (simp add: write_ready_def LFS_NDIRECT_def)
  then have b: "sint block = int (unat block)" by (intro sint_of_unat) simp
  have e: "lseek 0 u = u\<lparr>fpos := 0\<rparr>" for u by (simp add: lseek_def)
  have ni: "length (enc_inode (new_node s inum block)) = 64"
    using ino.length_enc [of "new_node s inum block"] by (simp add: inode_ok_def node_at_direct lfs_consts)
  have "\<not> 13 < sint block" "\<not> sint block < 0" unfolding b using \<open>unat block < 14\<close> by linarith+
  then show ?thesis using r get_inode_ok [OF ok i] ni
    by (simp add: fsi_write_def write_ready_def write_or_fail_def host_write_def checkpoint_def Let_def e
      set_inode_pos_def set_chunk_def imap_chunk_def new_inodes_def new_cr_def writes_def apply_writes_def
      new_node_def LFS_BLOCK_SIZE_def IMAP_CHUNK_SIZE_def INODE_SIZE_def CHUNK_BYTES_def LFS_REGULAR_FILE_def add.commute)
qed

lemma new_node_enc: "length (enc_inode (new_node s inum block)) = 64" "dec_inode (enc_inode (new_node s inum block)) = new_node s inum block"
  using ino.length_enc [of "new_node s inum block"] ino.dec_enc [of "new_node s inum block"]
  by (simp_all add: inode_ok_def node_at_direct lfs_consts)

lemma new_cr_enc: "lfs_ok s \<Longrightarrow> length (enc_cr (new_cr s inum)) = CR_SIZE \<and> cr_ok (new_cr s inum)"
  using crc.length_enc [of "new_cr s inum"] by (simp add: cr_ok_def new_cr_def lfs_ok_def)

lemma new_chunk_length:
  assumes "lfs_ok s" and "unat inum < NINODES"
  shows "length (chunk (new_inodes s inum) (unat inum div 16 * 16) 16) = 16"
proof -
  have "unat inum div 16 * 16 + 16 \<le> NINODES" using assms(2) by (simp add: lfs_consts)
  then show ?thesis using assms(1) by (simp add: new_inodes_def lfs_ok_def)
qed

text \<open>The image after the four writes.\<close>

lemma written_image:
  assumes "write_ready s inum buf block"
  defines "e \<equiv> unat (cr_end (cr s))" and "im \<equiv> apply_writes (img s) (writes s inum buf block)"
  shows "e + 4224 \<le> length im" and "chunk im 0 CR_SIZE = enc_cr (new_cr s inum)"
    and "CR_SIZE \<le> off \<Longrightarrow> off + n \<le> e \<Longrightarrow> chunk im off n = chunk (img s) off n"
    and "chunk im e LFS_BLOCK_SIZE = buf"
    and "chunk im (e + 4096) INODE_SIZE = enc_inode (new_node s inum block)"
    and "chunk im (e + 4160) CHUNK_BYTES = enc_uints (chunk (new_inodes s inum) (unat inum div 16 * 16) 16)"
proof -
  have ok: "lfs_ok s" "CR_SIZE \<le> e" "e \<le> length (img s)" "length buf = 4096" "unat inum < NINODES"
    using assms(1) by (auto simp: write_ready_def e_def lfs_ok_def LFS_BLOCK_SIZE_def)
  define nd where "nd = enc_inode (new_node s inum block)"
  define ck where "ck = enc_uints (chunk (new_inodes s inum) (unat inum div 16 * 16) 16)"
  define hd where "hd = enc_cr (new_cr s inum)"
  have l: "length nd = 64" "length ck = 64" "length hd = CR_SIZE"
    using new_node_enc new_chunk_length [OF ok(1,5)] new_cr_enc [OF ok(1)] by (simp_all add: nd_def ck_def hd_def)
  have im: "im = write_bytes (write_bytes (write_bytes (write_bytes (img s) e buf) (e + 4096) nd) (e + 4160) ck) 0 hd"
    by (simp add: im_def apply_writes_def writes_def Let_def e_def nd_def ck_def hd_def)
  show "e + 4224 \<le> length im" using l ok by (simp add: im)
  show "chunk im 0 CR_SIZE = enc_cr (new_cr s inum)" using l by (simp add: im chunk_write_same hd_def)
  show "chunk im off n = chunk (img s) off n" if "CR_SIZE \<le> off" "off + n \<le> e"
    using that l ok by (simp add: im chunk_write_other)
  show "chunk im e LFS_BLOCK_SIZE = buf" using l ok by (simp add: im chunk_write_other chunk_write_same LFS_BLOCK_SIZE_def)
  show "chunk im (e + 4096) INODE_SIZE = enc_inode (new_node s inum block)"
    using l ok by (simp add: im chunk_write_other chunk_write_same INODE_SIZE_def nd_def)
  show "chunk im (e + 4160) CHUNK_BYTES = enc_uints (chunk (new_inodes s inum) (unat inum div 16 * 16) 16)"
    using l ok by (simp add: im chunk_write_other chunk_write_same CHUNK_BYTES_def ck_def)
qed

lemma writes_prefix:
  assumes "write_ready s inum buf block" and "n \<le> 3"
  defines "e \<equiv> unat (cr_end (cr s))" and "im \<equiv> apply_writes (img s) (take n (writes s inum buf block))"
  shows "take e im = take e (img s)" and "e \<le> length im"
proof -
  have e: "e \<le> length (img s)" using assms(1) by (simp add: write_ready_def lfs_ok_def e_def)
  consider "n = 0" | "n = 1" | "n = 2" | "n = 3" using assms(2) by linarith
  then show "take e im = take e (img s)"
    by cases (use e in \<open>simp_all add: im_def apply_writes_def writes_def Let_def e_def [symmetric] take_write\<close>)
  then have "length (take e im) = e" using e by simp
  then show "e \<le> length im" by (simp add: min_def split: if_splits)
qed

text \<open>The state after the write: what it contains, and that it is well-formed.\<close>

definition written :: "lfs \<Rightarrow> uint \<Rightarrow> byte list \<Rightarrow> uint \<Rightarrow> lfs \<Rightarrow> bool" where
  "written s inum buf block t \<longleftrightarrow> write_ready s inum buf block \<and> img t = apply_writes (img s) (writes s inum buf block) \<and>
     cr t = new_cr s inum \<and> inodes t = new_inodes s inum"

lemma minus1_word: "unat p < 2 ^ 31 \<Longrightarrow> p \<noteq> (- 1 :: uint)"
proof
  assume b: "unat p < 2 ^ 31" and "p = - 1"
  moreover have "unat (- 1 :: uint) = 2 ^ 32 - 1" by (simp add: unsigned_minus_1_eq_mask mask_eq_exp_minus_1)
  ultimately show False by simp
qed

lemma new_positions:
  assumes "write_ready s inum buf block"
  shows "unat (cr_end (cr s) + 4096) = unat (cr_end (cr s)) + 4096" "unat (cr_end (cr s) + 4160) = unat (cr_end (cr s)) + 4160"
    "unat (cr_end (cr s) + 4224) = unat (cr_end (cr s)) + 4224"
    "cr_end (cr s) \<noteq> - 1" "cr_end (cr s) + 4096 \<noteq> - 1" "cr_end (cr s) + 4160 \<noteq> - 1"
proof -
  have b: "unat (cr_end (cr s)) + 4224 < 2 ^ 31" using assms by (simp add: write_ready_def)
  then show w: "unat (cr_end (cr s) + 4096) = unat (cr_end (cr s)) + 4096" "unat (cr_end (cr s) + 4160) = unat (cr_end (cr s)) + 4160"
    "unat (cr_end (cr s) + 4224) = unat (cr_end (cr s)) + 4224" by (simp_all add: unat_word_ariths)
  show "cr_end (cr s) \<noteq> - 1" "cr_end (cr s) + 4096 \<noteq> - 1" "cr_end (cr s) + 4160 \<noteq> - 1" by (rule minus1_word, use b w in linarith)+
qed

lemma written_inodes:
  assumes "written s inum buf block t" and "i < NINODES"
  shows "inodes t ! i = (if i = unat inum then cr_end (cr s) + 4096 else inodes s ! i)"
  using assms by (auto simp: written_def write_ready_def new_inodes_def lfs_ok_def nth_list_update)

lemma written_node:
  assumes w: "written s inum buf block t"
  shows "node_at t (unat inum) = new_node s inum block"
    and "i < NINODES \<Longrightarrow> i \<noteq> unat inum \<Longrightarrow> inodes s ! i \<noteq> - 1 \<Longrightarrow> node_at t i = node_at s i"
proof -
  have r: "write_ready s inum buf block" and im: "img t = apply_writes (img s) (writes s inum buf block)" using w by (auto simp: written_def)
  have "unat inum < NINODES" using r by (simp add: write_ready_def)
  then show "node_at t (unat inum) = new_node s inum block"
    using written_image(5) [OF r] new_node_enc(2) by (simp add: node_at_def written_inodes [OF w] new_positions [OF r] im)
  show "node_at t i = node_at s i" if "i < NINODES" "i \<noteq> unat inum" "inodes s ! i \<noteq> - 1"
  proof -
    have "in_log INODE_SIZE (inodes s ! i) s" using r that by (auto simp: write_ready_def lfs_ok_def node_ok_def)
    then show ?thesis using that written_image(3) [OF r] by (simp add: node_at_def written_inodes [OF w] im in_log_def)
  qed
qed

lemma written_blocks:
  assumes w: "written s inum buf block t" and ik: "i < NINODES" "k < LFS_NDIRECT"
  shows "file_block t i k = (if i = unat inum \<and> k = unat block then Some buf else file_block s i k)"
proof -
  have r: "write_ready s inum buf block" and im: "img t = apply_writes (img s) (writes s inum buf block)" using w by (auto simp: written_def)
  have ok: "node_ok s i" "inodes s ! unat inum \<noteq> - 1" "unat block < LFS_NDIRECT" using r ik by (auto simp: write_ready_def lfs_ok_def)
  have old: "chunk (img t) (unat d) LFS_BLOCK_SIZE = chunk (img s) (unat d) LFS_BLOCK_SIZE" if "in_log LFS_BLOCK_SIZE d s" for d
    using that written_image(3) [OF r] by (simp add: im in_log_def)
  show ?thesis
  proof (cases "i = unat inum")
    case True
    have d: "i_direct (node_at t i) ! k = (if k = unat block then cr_end (cr s) else i_direct (node_at s i) ! k)"
      using ik ok(3) by (simp add: True written_node(1) [OF w] node_at_direct nth_list_update)
    show ?thesis using True ik ok old d new_positions [OF r] direct_in_log [OF ok(1) _ ik(2)] written_image(4) [OF r]
      by (auto simp: file_block_def written_inodes [OF w] im)
  next
    case False
    then show ?thesis using ik old written_node(2) [OF w ik(1) False] direct_in_log [OF ok(1) _ ik(2)]
      by (auto simp: file_block_def written_inodes [OF w])
  qed
qed

lemma written_chunk_ok:
  assumes w: "written s inum buf block t" and i: "i < NCHUNKS"
  shows "chunk_ok t i"
proof -
  have r: "write_ready s inum buf block" and im: "img t = apply_writes (img s) (writes s inum buf block)"
    and cr: "cr t = new_cr s inum" and ino: "inodes t = new_inodes s inum" using w by (auto simp: written_def)
  have ok: "chunk_ok s i" "length (inodes s) = NINODES" "length (cr_chunks (cr s)) = NCHUNKS" "unat inum < NINODES" "CR_SIZE \<le> unat (cr_end (cr s))"
    using r i by (auto simp: write_ready_def lfs_ok_def cr_ok_def)
  show ?thesis
  proof (cases "i = unat inum div 16")
    case True
    then show ?thesis using ok i new_positions [OF r] written_image(6) [OF r]
      by (simp add: chunk_ok_def cr new_cr_def in_log_def im ino CHUNK_BYTES_def)
  next
    case False
    have "chunk (inodes t) (i * 16) 16 = chunk (inodes s) (i * 16) 16"
    proof (rule nth_equalityI)
      have b: "i * 16 + 16 \<le> NINODES" using i by (simp add: lfs_consts)
      show "length (chunk (inodes t) (i * 16) 16) = length (chunk (inodes s) (i * 16) 16)" using ok(2) b by (simp add: ino new_inodes_def)
      fix j assume "j < length (chunk (inodes t) (i * 16) 16)"
      then have j: "j < 16" using b ok(2) by (simp add: ino new_inodes_def)
      then have "i * 16 + j \<noteq> unat inum" using False by auto
      then show "chunk (inodes t) (i * 16) 16 ! j = chunk (inodes s) (i * 16) 16 ! j"
        using j b ok(2) by (simp add: nth_chunk ino new_inodes_def)
    qed
    moreover have "cr_chunks (cr t) ! i = cr_chunks (cr s) ! i" using False by (simp add: cr new_cr_def)
    moreover have "in_log n p t" if "in_log n p s" for n p using that new_positions(3) [OF r] by (simp add: in_log_def cr new_cr_def)
    ultimately show ?thesis using ok(1) written_image(3) [OF r] by (auto simp: chunk_ok_def im in_log_def)
  qed
qed

lemma written_node_ok:
  assumes w: "written s inum buf block t" and i: "i < NINODES"
  shows "node_ok t i"
proof -
  have r: "write_ready s inum buf block" and cr: "cr t = new_cr s inum" using w by (auto simp: written_def)
  have ok: "node_ok s i" "CR_SIZE \<le> unat (cr_end (cr s))" "inodes s ! unat inum \<noteq> - 1" using r i by (auto simp: write_ready_def lfs_ok_def)
  have lg: "in_log n p t" if "in_log n p s" for n p using that new_positions(3) [OF r] by (simp add: in_log_def cr new_cr_def)
  show ?thesis
  proof (cases "i = unat inum")
    case True
    have "in_log LFS_BLOCK_SIZE (cr_end (cr s)) t" "in_log INODE_SIZE (cr_end (cr s) + 4096) t"
      using ok(2) new_positions [OF r] by (simp_all add: in_log_def cr new_cr_def LFS_BLOCK_SIZE_def INODE_SIZE_def)
    moreover have "d = - 1 \<or> in_log LFS_BLOCK_SIZE d t" if "d \<in> set (i_direct (node_at s i))" for d
      using ok(1,3) lg that True by (auto simp: node_ok_def)
    ultimately show ?thesis using i True
      by (auto simp: node_ok_def written_inodes [OF w] written_node(1) [OF w] dest!: set_update_subset_insert [THEN subsetD])
  next
    case False
    then show ?thesis using ok(1) lg i written_node(2) [OF w i False] by (auto simp: node_ok_def written_inodes [OF w])
  qed
qed

lemma written_ok: "written s inum buf block t \<Longrightarrow> lfs_ok t"
proof -
  assume w: "written s inum buf block t"
  then have r: "write_ready s inum buf block" and im: "img t = apply_writes (img s) (writes s inum buf block)"
    and cr: "cr t = new_cr s inum" and ino: "inodes t = new_inodes s inum" by (auto simp: written_def)
  have "lfs_ok s" "unat (cr_end (cr s)) + 4224 < 2 ^ 31" using r by (auto simp: write_ready_def)
  then show ?thesis using written_chunk_ok [OF w] written_node_ok [OF w] written_image(1,2) [OF r] new_positions(3) [OF r] new_cr_enc [of s inum]
    by (auto simp: lfs_ok_def im ino cr new_inodes_def) (simp_all add: new_cr_def)
qed

section \<open>Reading\<close>

lemma fsi_read_block:
  assumes ok: "lfs_ok s" and i: "unat inum < NINODES" and k: "unat block < LFS_NDIRECT"
    and b: "file_block s (unat inum) (unat block) = Some bs" and out: "length out = LFS_BLOCK_SIZE"
  shows "returns (fsi_read junk inum out block s) (\<lambda>r t. r = Some bs \<and> img t = img s \<and> cr t = cr s \<and> inodes t = inodes s)"
proof -
  let ?n = "node_at s (unat inum)"
  have ni: "inodes s ! unat inum \<noteq> - 1" and d: "i_direct ?n ! unat block \<noteq> - 1"
    and bs: "bs = chunk (img s) (unat (i_direct ?n ! unat block)) LFS_BLOCK_SIZE" using b by (auto simp: file_block_def split: if_splits)
  have "in_log LFS_BLOCK_SIZE (i_direct ?n ! unat block) s" using direct_in_log ok i ni k d by (auto simp: lfs_ok_def)
  then have l: "unat (i_direct ?n ! unat block) + LFS_BLOCK_SIZE \<le> length (img s)" "unat (i_direct ?n ! unat block) < 2 ^ 31"
    using ok by (auto simp: in_log_def lfs_ok_def)
  have "sint block = int (unat block)" using k by (intro sint_of_unat) (simp add: lfs_consts)
  then have "\<not> 13 < sint block" "\<not> sint block < 0" using k unfolding LFS_NDIRECT_def by linarith+
  then show ?thesis using get_inode_ok [OF ok i ni] l out
    by (simp add: fsi_read_def get_block_def lseek_log host_read_def Let_def bs put_at_def)
qed

section \<open>A small image\<close>

text \<open>An image with one inode and one block, such as \<open>fsi_build\<close> makes.\<close>

definition one_node :: "uint \<Rightarrow> uint \<Rightarrow> inode_t" where
  "one_node ty sz = \<lparr>i_size = sz, i_type = ty, i_direct = 1028 # replicate 13 (- 1)\<rparr>"

definition one_cr :: cr_t where
  "one_cr = \<lparr>cr_end = 5252, cr_chunks = 5188 # replicate 255 (- 1)\<rparr>"

definition one_map :: "uint list" where
  "one_map = 5124 # replicate 4095 (- 1)"

definition one_image :: "uint \<Rightarrow> uint \<Rightarrow> byte list \<Rightarrow> byte list" where
  "one_image ty sz blk = enc_cr one_cr @ blk @ enc_inode (one_node ty sz) @ enc_uints (take 16 one_map)"

lemma one_lengths [simp]: "length one_map = 4096" "length (enc_cr one_cr) = 1028" "length (enc_inode (one_node ty sz)) = 64"
  "length (enc_uints (take 16 one_map)) = 64"
  using crc.length_enc [of one_cr] ino.length_enc [of "one_node ty sz"]
  by (simp_all add: cr_ok_def inode_ok_def one_cr_def one_node_def one_map_def lfs_consts)

lemma one_image_chunks:
  assumes "length blk = LFS_BLOCK_SIZE"
  shows "chunk (one_image ty sz blk) 0 1028 = enc_cr one_cr" and "chunk (one_image ty sz blk) 1028 4096 = blk"
    and "chunk (one_image ty sz blk) 5124 64 = enc_inode (one_node ty sz)"
    and "chunk (one_image ty sz blk) 5188 64 = enc_uints (take 16 one_map)" and "length (one_image ty sz blk) = 5252"
  using assms by (simp_all add: one_image_def chunk_def LFS_BLOCK_SIZE_def)

lemma one_image_ok:
  assumes im: "img s = one_image ty sz blk" and c: "cr s = one_cr" and m: "inodes s = one_map" and b: "length blk = LFS_BLOCK_SIZE"
  shows "lfs_ok s" and "node_at s 0 = one_node ty sz" and "file_block s 0 0 = Some blk"
proof -
  note ch = one_image_chunks [OF b]
  have n0: "inodes s ! 0 = 5124" by (simp add: m one_map_def)
  have n: "inodes s ! i = - 1" if "0 < i" "i < NINODES" for i using that by (simp add: m one_map_def lfs_consts nth_Cons')
  have "inode_ok (one_node ty sz)" by (simp add: inode_ok_def one_node_def lfs_consts)
  then show nd: "node_at s 0 = one_node ty sz" using ino.dec_enc by (simp add: node_at_def n0 im INODE_SIZE_def ch)
  have "chunk_ok s i" if "i < NCHUNKS" for i
  proof (cases "i = 0")
    case True
    then show ?thesis by (simp add: chunk_ok_def c one_cr_def in_log_def CHUNK_BYTES_def CR_SIZE_def im ch m) (simp add: chunk_def)
  next
    case False
    have i: "i * 16 + 16 \<le> NINODES" using that by (simp add: lfs_consts)
    have "chunk (inodes s) (i * 16) 16 = replicate 16 (- 1)"
      by (rule nth_equalityI) (use i False n in \<open>auto simp: m nth_chunk lfs_consts\<close>)
    then show ?thesis using that False by (simp add: chunk_ok_def c one_cr_def nth_Cons' NCHUNKS_def)
  qed
  moreover have "node_ok s i" if "i < NINODES" for i
  proof (cases "i = 0")
    case True
    then show ?thesis using nd n0 by (simp add: node_ok_def in_log_def c one_cr_def one_node_def lfs_consts)
  qed (use n that in \<open>simp add: node_ok_def\<close>)
  moreover have "chunk (img s) 0 CR_SIZE = enc_cr (cr s)" by (simp add: im c CR_SIZE_def ch)
  moreover have "length (inodes s) = NINODES" "cr_ok (cr s)" by (simp_all add: m one_map_def cr_ok_def c one_cr_def lfs_consts)
  moreover have "unat (cr_end (cr s)) = 5252" "length (img s) = 5252" by (simp_all add: c one_cr_def im ch)
  ultimately show "lfs_ok s" unfolding lfs_ok_def by (simp add: CR_SIZE_def)
  show "file_block s 0 0 = Some blk" using nd n0 by (simp add: file_block_def one_node_def im ch LFS_BLOCK_SIZE_def)
qed

text \<open>What \<open>fsi_build\<close> makes of an empty file.\<close>

lemma length_strcpy_out: "length (strcpy_out name) = strlen name + 1"
  by (induction name) auto

lemma set_ent_length [simp]: "length dir = 4096 \<Longrightarrow> i < 128 \<Longrightarrow> length (set_ent_inum dir i x) = 4096"
  "length dir = 4096 \<Longrightarrow> i < 128 \<Longrightarrow> strlen name < 28 \<Longrightarrow> length (set_ent_name dir i name) = 4096"
  by (simp_all add: set_ent_inum_def set_ent_name_def length_strcpy_out)

lemma ent_inum_set [simp]:
  assumes "length dir = 4096" and "i < 128" and "j < 128"
  shows "ent_inum (set_ent_inum dir i x) j = (if i = j then x else ent_inum dir j)"
proof -
  have "j * 32 + 28 + 4 \<le> i * 32 + 28 \<or> i * 32 + 28 + 4 \<le> j * 32 + 28" if "i \<noteq> j" using that by linarith
  then show ?thesis using assms by (simp add: ent_inum_def set_ent_inum_def chunk_put_at_other)
qed

lemma ent_inum_set_name [simp]:
  assumes "length dir = 4096" and "i < 128" and "j < 128" and "strlen name < 28"
  shows "ent_inum (set_ent_name dir i name) j = ent_inum dir j"
proof -
  have "j * 32 + 28 + 4 \<le> i * 32 \<or> i * 32 + (strlen name + 1) \<le> j * 32 + 28" using assms by (cases "i \<le> j") auto
  then show ?thesis using assms by (simp add: ent_inum_def set_ent_name_def chunk_put_at_other length_strcpy_out)
qed

lemma fold_free_entries:
  assumes "length dir = 4096" and "n \<le> 128"
  shows "length (fold (\<lambda>i dir. set_ent_inum dir i (- 1)) [2..<n] dir) = 4096"
    and "j < 128 \<Longrightarrow> ent_inum (fold (\<lambda>i dir. set_ent_inum dir i (- 1)) [2..<n] dir) j = (if 2 \<le> j \<and> j < n then - 1 else ent_inum dir j)"
proof -
  have "length (fold (\<lambda>i dir. set_ent_inum dir i (- 1)) [2..<n] dir) = 4096 \<and>
    (j < 128 \<longrightarrow> ent_inum (fold (\<lambda>i dir. set_ent_inum dir i (- 1)) [2..<n] dir) j = (if 2 \<le> j \<and> j < n then - 1 else ent_inum dir j))"
    using assms by (induction n) auto
  then show "length (fold (\<lambda>i dir. set_ent_inum dir i (- 1)) [2..<n] dir) = 4096"
    "j < 128 \<Longrightarrow> ent_inum (fold (\<lambda>i dir. set_ent_inum dir i (- 1)) [2..<n] dir) j = (if 2 \<le> j \<and> j < n then - 1 else ent_inum dir j)" by auto
qed

text \<open>The root directory: the two first entries lead to inode 0, all others are free.\<close>

definition root_block :: "byte list \<Rightarrow> bool" where
  "root_block dir \<longleftrightarrow> length dir = LFS_BLOCK_SIZE \<and> (\<forall>j < NENTRIES. ent_inum dir j = (if j < 2 then 0 else - 1))"

lemma write_append: "length im = pos \<Longrightarrow> write_bytes im pos bs = im @ bs"
  by (simp add: write_bytes_def put_at_def)

lemma fsi_build_image:
  assumes "img s = []" and "\<And>n. \<not> wfails s n" and j: "LFS_BLOCK_SIZE \<le> length junk"
  shows "\<exists>dir. root_block dir \<and> returns (fsi_build junk s) (\<lambda>_ t. img t = one_image LFS_DIRECTORY 4096 dir \<and> cr t = one_cr \<and> inodes t = one_map)"
proof -
  let ?d = "set_ent_inum (set_ent_name (set_ent_inum (set_ent_name (take (NENTRIES * 32) junk) 0 (bytes_of ''.'')) 0 0) 1 (bytes_of ''..'')) 1 0"
  have ln: "strlen (bytes_of ''.'') < 28" "strlen (bytes_of ''..'') < 28" by (simp_all add: bytes_of_def)
  have l: "length ?d = 4096" using j ln by (simp add: lfs_consts)
  define dir where "dir = fold (\<lambda>i dir. set_ent_inum dir i (- 1)) [2..<NENTRIES] ?d"
  have ld: "length dir = 4096" using fold_free_entries(1) [OF l, of 128] by (simp add: dir_def NENTRIES_def)
  have "ent_inum dir j = (if j < 2 then 0 else - 1)" if "j < 128" for j
  proof -
    consider "j = 0" | "j = 1" | "2 \<le> j" by linarith
    then show ?thesis
      by cases (use that ln fold_free_entries(2) [OF l, of 128] assms(3) in \<open>simp_all add: dir_def lfs_consts\<close>)
  qed
  then have "root_block dir" using ld by (simp add: root_block_def lfs_consts)
  moreover have "returns (fsi_build junk s) (\<lambda>_ t. img t = one_image LFS_DIRECTORY 4096 dir \<and> cr t = one_cr \<and> inodes t = one_map)"
  proof -
    define pre where "pre = replicate 1028 (0 :: byte)"
    have "write_bytes [] 1028 dir = pre @ dir" "length pre = 1028" by (simp_all add: write_bytes_def put_at_def pre_def)
    moreover have "lseek 1028 s = s\<lparr>fpos := 1028\<rparr>" "lseek 0 t = t\<lparr>fpos := 0\<rparr>" for t by (simp_all add: lseek_def)
    moreover have "write_bytes (pre @ xs) 0 (enc_cr one_cr) = enc_cr one_cr @ xs" for xs
      using one_lengths(2) by (simp add: write_bytes_def put_at_def pre_def)
    ultimately show ?thesis using assms(1,2) ld unfolding fsi_build_def Let_def dir_def [symmetric]
      by (simp add: host_write_def lfs_consts write_append one_image_def one_node_def [symmetric] one_cr_def [symmetric] one_map_def [symmetric])
  qed
  ultimately show ?thesis by blast
qed

section \<open>Correctness\<close>

text \<open>The contents after a write.\<close>

definition with_block :: "nat \<Rightarrow> nat \<Rightarrow> byte list \<Rightarrow> (nat \<Rightarrow> nat \<Rightarrow> byte list option) \<Rightarrow> nat \<Rightarrow> nat \<Rightarrow> byte list option" where
  "with_block i k bs f i' k' = (if i' = i \<and> k' = k then Some bs else f i' k')"

definition same_files :: "(nat \<Rightarrow> nat \<Rightarrow> byte list option) \<Rightarrow> (nat \<Rightarrow> nat \<Rightarrow> byte list option) \<Rightarrow> bool" where
  "same_files f g \<longleftrightarrow> (\<forall>i < NINODES. \<forall>k < LFS_NDIRECT. f i k = g i k)"

lemma fsi_write_written:
  assumes "write_ready s inum buf block"
  shows "\<exists>t. fsi_write junk inum buf block s = Ret 0 t \<and> written s inum buf block t \<and> wlog t = wlog s @ writes s inum buf block"
  using fsi_write_eq [OF assms, of junk] assms by (auto simp: written_def)

lemma written_files: "written s inum buf block t \<Longrightarrow> same_files (file_block t) (with_block (unat inum) (unat block) buf (file_block s))"
  by (simp add: same_files_def with_block_def written_blocks)

lemma load_after:
  assumes "lfs_ok s" and "take (unat (cr_end (cr s))) (img u) = take (unat (cr_end (cr s))) (img s)"
    and "unat (cr_end (cr s)) \<le> length (img u)" and "length (inodes u) = NINODES"
  shows "returns (fsi_load u) (\<lambda>_ v. lfs_ok v \<and> same_files (file_block v) (file_block s))"
  using fsi_load_spec [OF assms(1) refl assms(2-4)] by (rule returns_mono) (simp add: same_files_def)

text \<open>C15: Writing a block of a regular file of the log-structured file system succeeds and keeps the invariant; afterwards
  the block has the new contents, every other block of every file is as before, and reading the block returns what was
  written.\<close>

theorem fsi_write_read:
  assumes "write_ready s inum buf block" and "length out = LFS_BLOCK_SIZE"
  shows "returns (fsi_write junk inum buf block s) (\<lambda>r t. r = 0 \<and> lfs_ok t \<and>
    same_files (file_block t) (with_block (unat inum) (unat block) buf (file_block s)) \<and>
    returns (fsi_read junk inum out block t) (\<lambda>r _. r = Some buf))"
proof -
  obtain t where t: "fsi_write junk inum buf block s = Ret 0 t" and w: "written s inum buf block t"
    using fsi_write_written [OF assms(1)] by blast
  have i: "unat inum < NINODES" "unat block < LFS_NDIRECT" using assms(1) by (auto simp: write_ready_def)
  have "file_block t (unat inum) (unat block) = Some buf" using written_blocks [OF w i] by simp
  then have "returns (fsi_read junk inum out block t) (\<lambda>r _. r = Some buf)"
    using fsi_read_block [OF written_ok [OF w] i _ assms(2)] by (auto intro: returns_mono)
  then show ?thesis using t written_ok [OF w] written_files [OF w] by simp
qed

text \<open>C5: A write is atomic.  Whatever number of the host writes that \<^verbatim>\<open>fsi_write\<close> issues have reached the image when the
  server stops (they reach it in order and whole), loading the image gives a well-formed file system with either the old contents of all files or the new
  ones; once all have, it is the new ones.\<close>

theorem fsi_write_crash:
  assumes "write_ready s inum buf block"
  shows "\<exists>ws. returns (fsi_write junk inum buf block s) (\<lambda>_ t. wlog t = wlog s @ ws) \<and>
    (\<forall>n u. img u = apply_writes (img s) (take n ws) \<longrightarrow> length (inodes u) = NINODES \<longrightarrow>
       returns (fsi_load u) (\<lambda>_ v. lfs_ok v \<and>
         same_files (file_block v) (if n < length ws then file_block s else with_block (unat inum) (unat block) buf (file_block s))))"
proof -
  let ?ws = "writes s inum buf block"
  obtain t where t: "fsi_write junk inum buf block s = Ret 0 t" "wlog t = wlog s @ ?ws" and w: "written s inum buf block t"
    using fsi_write_written [OF assms] by blast
  have ws: "length ?ws = 4" by (simp add: writes_def Let_def)
  have "returns (fsi_load u) (\<lambda>_ v. lfs_ok v \<and>
      same_files (file_block v) (if n < length ?ws then file_block s else with_block (unat inum) (unat block) buf (file_block s)))"
    if u: "img u = apply_writes (img s) (take n ?ws)" "length (inodes u) = NINODES" for n u
  proof (cases "n < 4")
    case True
    then have "returns (fsi_load u) (\<lambda>_ v. lfs_ok v \<and> same_files (file_block v) (file_block s))"
      using writes_prefix [OF assms, of n] assms u by (intro load_after) (simp_all add: write_ready_def)
    then show ?thesis using True ws by simp
  next
    case False
    then have "img u = img t" using u(1) w ws by (simp add: written_def)
    then have "returns (fsi_load u) (\<lambda>_ v. lfs_ok v \<and> same_files (file_block v) (file_block t))"
      using written_ok [OF w] u(2) by (intro load_after) (simp_all add: lfs_ok_def)
    then show ?thesis by (rule returns_mono) (use False ws written_files [OF w] in \<open>auto simp: same_files_def\<close>)
  qed
  then show ?thesis using t by (intro exI [of _ ?ws]) auto
qed

text \<open>C30: A new image is a well-formed file system with one inode, the root, a directory whose only entries are the two
  for the root itself, and loading it gives the same.\<close>

theorem fsi_build_loads:
  assumes "img s = []" and "\<And>n. \<not> wfails s n" and "LFS_BLOCK_SIZE \<le> length junk"
  shows "\<exists>dir. root_block dir \<and> returns (and_then (fsi_init False junk s) (\<lambda>_. fsi_init True junk)) (\<lambda>_ t. lfs_ok t \<and>
    node_at t 0 = one_node LFS_DIRECTORY 4096 \<and> file_block t 0 0 = Some dir \<and> (\<forall>i. 0 < i \<and> i < NINODES \<longrightarrow> inodes t ! i = - 1))"
proof -
  obtain dir where d: "root_block dir" and
    b: "returns (fsi_build junk s) (\<lambda>_ t. img t = one_image LFS_DIRECTORY 4096 dir \<and> cr t = one_cr \<and> inodes t = one_map)"
    using fsi_build_image assms by blast
  have "returns (fsi_load t) (\<lambda>_ v. lfs_ok v \<and> node_at v 0 = one_node LFS_DIRECTORY 4096 \<and> file_block v 0 0 = Some dir \<and>
      (\<forall>i. 0 < i \<and> i < NINODES \<longrightarrow> inodes v ! i = - 1))"
    if t: "img t = one_image LFS_DIRECTORY 4096 dir" "cr t = one_cr" "inodes t = one_map" for t
  proof -
    have ld: "length dir = LFS_BLOCK_SIZE" using d by (simp add: root_block_def)
    note ok = one_image_ok [OF t ld]
    have "returns (fsi_load t) (\<lambda>_ v. lfs_ok v \<and> cr v = cr t \<and> inodes v = inodes t \<and> img v = img t \<and>
        (\<forall>i < NINODES. \<forall>k < LFS_NDIRECT. file_block v i k = file_block t i k))"
      using fsi_load_spec [OF ok(1) refl refl] ok(1) by (simp add: lfs_ok_def)
    then show ?thesis
      by (rule returns_mono) (use ok t one_image_ok [OF _ _ _ ld] in \<open>auto simp: one_map_def lfs_consts nth_Cons'\<close>)
  qed
  then show ?thesis using d unfolding fsi_init_def by (intro exI [of _ dir] conjI) (auto intro!: returns_mono [OF b])
qed

subsection \<open>Examples\<close>

definition demo_lfs :: lfs where
  "demo_lfs = \<lparr>img = one_image LFS_REGULAR_FILE 0 (replicate 4096 7), fpos = 0, cr = one_cr, inodes = one_map,
     wfails = (\<lambda>_. False), wlog = [], wcalls = 0\<rparr>"

lemma demo_lfs_ready: "write_ready demo_lfs 0 (replicate 4096 9) 2"
  using one_image_ok [of demo_lfs LFS_REGULAR_FILE 0 "replicate 4096 7"]
  by (simp add: write_ready_def demo_lfs_def one_node_def) (simp add: lfs_consts one_map_def one_cr_def)

theorem fsi_write_read_witness:
  "returns (fsi_write (\<lambda>_. []) 0 (replicate 4096 9) 2 demo_lfs) (\<lambda>r t. r = 0 \<and>
     returns (fsi_read (\<lambda>_. []) 0 (replicate 4096 0) 2 t) (\<lambda>r _. r = Some (replicate 4096 9)))"
  using fsi_write_read [OF demo_lfs_ready, of "replicate 4096 0" "\<lambda>_. []"]
  by (auto simp: LFS_BLOCK_SIZE_def elim!: returns_mono)

theorem fsi_write_crash_witness:
  "\<exists>ws. returns (fsi_write (\<lambda>_. []) 0 (replicate 4096 9) 2 demo_lfs) (\<lambda>_ t. wlog t = wlog demo_lfs @ ws) \<and>
     returns (fsi_load (demo_lfs\<lparr>img := apply_writes (img demo_lfs) (take 2 ws)\<rparr>)) (\<lambda>_ v. lfs_ok v)"
proof -
  have n: "length (inodes demo_lfs) = NINODES" by (simp add: demo_lfs_def lfs_consts)
  obtain ws where ws: "returns (fsi_write (\<lambda>_. []) 0 (replicate 4096 9) 2 demo_lfs) (\<lambda>_ t. wlog t = wlog demo_lfs @ ws)"
    and l: "\<And>n u. img u = apply_writes (img demo_lfs) (take n ws) \<Longrightarrow> length (inodes u) = NINODES \<Longrightarrow>
      returns (fsi_load u) (\<lambda>_ v. lfs_ok v \<and> same_files (file_block v)
        (if n < length ws then file_block demo_lfs else with_block (unat (0 :: uint)) (unat (2 :: uint)) (replicate 4096 9) (file_block demo_lfs)))"
    using fsi_write_crash [OF demo_lfs_ready, of "\<lambda>_. []"] by blast
  have "returns (fsi_load (demo_lfs\<lparr>img := apply_writes (img demo_lfs) (take 2 ws)\<rparr>)) (\<lambda>_ v. lfs_ok v)"
    by (rule returns_mono [OF l [of _ 2]]) (use n in auto)
  then show ?thesis using ws by blast
qed

theorem fsi_build_loads_witness:
  "\<exists>dir. root_block dir \<and> returns (and_then (fsi_init False (replicate 4096 0) (demo_lfs\<lparr>img := []\<rparr>)) (\<lambda>_. fsi_init True (replicate 4096 0)))
     (\<lambda>_ t. lfs_ok t \<and> file_block t 0 0 = Some dir)"
proof -
  obtain dir where "root_block dir" and "returns (and_then (fsi_init False (replicate 4096 0) (demo_lfs\<lparr>img := []\<rparr>)) (\<lambda>_. fsi_init True (replicate 4096 0)))
      (\<lambda>_ t. lfs_ok t \<and> node_at t 0 = one_node LFS_DIRECTORY 4096 \<and> file_block t 0 0 = Some dir \<and>
        (\<forall>i. 0 < i \<and> i < NINODES \<longrightarrow> inodes t ! i = - 1))"
    using fsi_build_loads [of "demo_lfs\<lparr>img := []\<rparr>" "replicate 4096 0"] by (auto simp: demo_lfs_def LFS_BLOCK_SIZE_def)
  then show ?thesis by (intro exI [of _ dir] conjI) (auto elim: returns_mono)
qed

end
