(* ===== verification/Spec2Isabelle.thy ===== *)
theory Spec2Isabelle
  imports Trap Pagetab Userprog Shell Stride Lfs
begin

text \<open>
  A verification development for the operating-system projects under \<^verbatim>\<open>src/\<close>.  The main part is the kernel of
  \<^verbatim>\<open>src/5/xv6\<close>, an xv6 whose file system has files made of extents; beside it stand its shell and some of its user
  programs, the stride scheduler of \<^verbatim>\<open>src/2b\<close> and the log-structured file system of \<^verbatim>\<open>src/6\<close>.

  \<^bold>\<open>How the code is embedded.\<close>  A routine becomes a function from a state to an \<open>outcome\<close> (\<open>Kprelude\<close>): it returns a
  value and a state (\<open>Ret\<close>), stops the machine (\<open>Panic\<close>, also used for an access outside an array or to an invalid
  pointer, where C has no defined behaviour), goes to sleep on a channel (\<open>Sleep\<close>) or never comes back (\<open>Diverges\<close>).
  \<open>and_then\<close> composes outcomes.  \<open>returns m Q\<close> says that \<open>m\<close> does return and that \<open>Q\<close> holds then, so theorems in this form
  include termination and the absence of panics.  C integers are words of their width; \<open>sint\<close> and \<open>unat\<close> are used where the
  code compares or divides as signed or unsigned.  The globals of the kernel are records that extend each other in the
  order of the layers: \<open>kbase\<close> (locks, process table, clock), \<open>kbio\<close> (buffers, disk), \<open>kfs\<close> (inode cache), \<open>kmem\<close> (physical
  memory), \<open>kvm\<close> (page tables, registers), \<open>kpipe\<close>, \<open>kfile\<close>, \<open>kproc\<close>, \<open>kcons\<close>.  A routine that sleeps inside a loop
  is split at the call of \<^verbatim>\<open>sched\<close>: what runs before is one step, what runs after the wakeup another.

  \<^bold>\<open>Theories, sources and results.\<close>

  \<^item> \<open>Kprelude\<close>: words, outcomes, ranges of bytes.  \<open>Layout\<close> (\<^verbatim>\<open>fs.h\<close>): structures on disk; the locale \<open>codec\<close> is the
    contract of an encoding of fixed size and is interpreted for addresses, superblock, inode and directory entry.
    \<open>CString\<close> (\<^verbatim>\<open>string.c\<close>, \<^verbatim>\<open>ulib.c\<close>): memory and string routines; \<open>memmove\<close> on overlapping ranges.
  \<^item> \<open>Spinlock\<close> (\<^verbatim>\<open>spinlock.c\<close>): locks and the nesting of \<^verbatim>\<open>pushcli\<close>; the locale \<open>locking\<close>; mutual exclusion for every
    interleaving of several CPUs, as a step relation.  The recorded call stack is left out of the state.
    \<open>Kbase\<close> (\<^verbatim>\<open>proc.h\<close>, parts of \<^verbatim>\<open>proc.c\<close>): \<^verbatim>\<open>sleep\<close>, \<^verbatim>\<open>wakeup\<close>, \<^verbatim>\<open>sched\<close>.
  \<^item> \<open>Bio\<close> (\<^verbatim>\<open>bio.c\<close>, \<^verbatim>\<open>ide.c\<close>): the buffer cache as a doubly linked ring with pointers, and the request queue of the disk.
    \<^verbatim>\<open>bget\<close> on every branch, \<^verbatim>\<open>brelse\<close> as a refinement of move-to-front, and the locale \<open>block_store\<close> (what is written is
    what is read) for the layers above.
  \<^item> \<open>Blocks\<close>, \<open>Inode\<close>, \<open>Filemap\<close>, \<open>Dir\<close> (\<^verbatim>\<open>fs.c\<close>): bitmap (locale \<open>block_alloc\<close>), inodes, contents of files with direct,
    indirect and extent blocks, directories and paths.  \<open>Filemap\<close> shows that \<^verbatim>\<open>readi\<close> and \<^verbatim>\<open>writei\<close> implement reading and
    writing of a sequence of bytes.
  \<^item> \<open>Mmu\<close> (\<^verbatim>\<open>mmu.h\<close>), \<open>Kalloc\<close> (\<^verbatim>\<open>kalloc.c\<close>, locale \<open>page_pool\<close>), \<open>Vm\<close> (\<^verbatim>\<open>vm.c\<close>) and \<open>Pagetab\<close>, which says what the
    tables mean as a translation of addresses: the kernel map is the identity, and \<^verbatim>\<open>copyuvm\<close> copies an address space.
  \<^item> \<open>Pipe\<close> (\<^verbatim>\<open>pipe.c\<close>, locale \<open>bounded_queue\<close>), \<open>File\<close> (\<^verbatim>\<open>file.c\<close>), \<open>Proc\<close> (\<^verbatim>\<open>proc.c\<close>), \<open>Exec\<close> (\<^verbatim>\<open>exec.c\<close>, \<^verbatim>\<open>elf.h\<close>),
    \<open>Syscall\<close> (\<^verbatim>\<open>syscall.c\<close>, \<^verbatim>\<open>sysproc.c\<close>), \<open>Sysfile\<close> (\<^verbatim>\<open>sysfile.c\<close>), \<open>Kbd\<close> (\<^verbatim>\<open>kbd.c\<close>), \<open>Console\<close> (\<^verbatim>\<open>console.c\<close>,
    \<^verbatim>\<open>uart.c\<close>) and \<open>Trap\<close> (\<^verbatim>\<open>trap.c\<close>): the rest of the kernel, with every system call of the table.  Pipes are first in,
    first out over every history, and an end of a pipe is closed with its last reference; the scheduler reaches every runnable
    process; the editing ring and the screen stay in
    bounds; pointers accepted from user programs lie in the memory of the process.
  \<^item> \<open>Userprog\<close> (\<^verbatim>\<open>printf.c\<close>, \<^verbatim>\<open>grep.c\<close>, \<^verbatim>\<open>wc.c\<close>): the matcher of grep decides the language of its patterns.
    \<open>Shell\<close> (\<^verbatim>\<open>sh.c\<close>): the parser ends on every line, reads back every printed command, terminates the words in place
    without spoiling a neighbour, and \<^verbatim>\<open>runcmd\<close> connects the programs as the command says.
  \<^item> \<open>Stride\<close> (\<^verbatim>\<open>src/2b/proc.c\<close>, \<^verbatim>\<open>sysproc.c\<close>): proportional share, and the choice of a process that is not runnable.
  \<^item> \<open>Lfs\<close> (\<^verbatim>\<open>src/6/libfsi.c\<close>, \<^verbatim>\<open>lfsi.h\<close>, \<^verbatim>\<open>server.c\<close>, \<^verbatim>\<open>MFS_Msg.h\<close>): the image is well-formed after it is built and after
    every write, a block reads back as written, and a write interrupted between two host writes is atomic.

  \<^bold>\<open>Bounds.\<close>  Loops over arrays are recursions on the index or on the list, loops over pointers count their steps:
  a walk of the buffer ring may take \<open>NBUF + 1\<close> steps, one more than it has nodes, and the theorems show that the walks end.
  Waiting for the disk (\<^verbatim>\<open>iderw\<close>) counts the interrupts, of which one per queued request suffices.  The parser of the
  shell carries fuel for its mutual recursion; \<open>parse_fuel\<close> is four times the length of the line plus four, and
  \<open>parsecmd_total\<close> shows that it never runs out.  Everything else is terminating recursion without a bound.

  \<^bold>\<open>Parameters.\<close>  The hardware appears as state: the disk as its blocks, where a request completes with an interrupt; the
  screen as its cells and cursor; the keyboard as the bytes it sends.  What programs and drivers of other devices do is a
  parameter where a routine calls it.  For \<^verbatim>\<open>src/6\<close> the host is modelled as POSIX describes it, with the failures of
  \<^verbatim>\<open>write\<close> as a parameter; for user programs the results of the system calls they make are parameters.

  \<^bold>\<open>Not modelled.\<close>  The boot loader, \<^verbatim>\<open>main.c\<close> and the assembly files: they run before or between the routines of the model,
  and \<^verbatim>\<open>swtch\<close> is the boundary between two of its steps.  The interrupt controllers, the timer and the discovery of
  processors (\<^verbatim>\<open>lapic.c\<close>, \<^verbatim>\<open>ioapic.c\<close>, \<^verbatim>\<open>picirq.c\<close>, \<^verbatim>\<open>timer.c\<close>, \<^verbatim>\<open>mp.c\<close>) and the port I/O of the drivers: they only
  program registers.  Tests and \<^verbatim>\<open>mkfs.c\<close>.  The user programs that consist of a few system calls, \<^verbatim>\<open>umalloc.c\<close>, and the main
  routines of the modelled ones.  The other copies of the kernel in \<^verbatim>\<open>src/1b\<close>, \<^verbatim>\<open>src/2b\<close> and \<^verbatim>\<open>src/4\<close> apart from the stride
  scheduler.
  The sort of \<^verbatim>\<open>src/1a\<close> and the shell of \<^verbatim>\<open>src/2a\<close>, which hand their work to \<^verbatim>\<open>qsort\<close>, \<^verbatim>\<open>strtok\<close> and calls of the host; the
  allocator of \<^verbatim>\<open>src/3a\<close>, a host library that has no part in the systems above; and the client and the sockets of \<^verbatim>\<open>src/6\<close>,
  which are I/O.
\<close>

end
